(* ===== verification/Pacsni_Prelude.thy ===== *)
theory Pacsni_Prelude
  imports Main "HOL-Library.Word" "HOL-Library.Monad_Syntax"
begin

text \<open>
  What the components share: the C++ integer types, the memory model of byte arrays and
  the few C library functions the dissectors call (\<^verbatim>\<open>ntohs\<close>, \<^verbatim>\<open>memcpy\<close>, \<^verbatim>\<open>strlen\<close>,
  \<^verbatim>\<open>snprintf\<close>).

  A pointer into an array is the list of bytes from the pointee to the end of the array, so
  that pointer arithmetic is \<^term>\<open>drop\<close>. Every access is checked against the end of the
  array: the result \<^term>\<open>None\<close> is an access outside the object, which is undefined
  behaviour in C++. A function of the model that returns \<^term>\<open>Some\<close> has therefore made
  in-bounds accesses only.
\<close>

unbundle bit_operations_syntax

text \<open>Offsets stay in the form \<^term>\<open>i + 2\<close>, as the code writes them.\<close>

declare add_2_eq_Suc [simp del] add_2_eq_Suc' [simp del]

type_synonym byte = "8 word"
type_synonym u16 = "16 word"
type_synonym u32 = "32 word"
type_synonym u64 = "64 word"

named_theorems mem_simps \<open>rewrite rules of the memory accesses\<close>
named_theorems len_simps \<open>what an operation does to the length of a buffer\<close>

section \<open>Reads\<close>

definition rd :: "byte list \<Rightarrow> nat \<Rightarrow> byte option" where
  "rd p i = (if i < length p then Some (p ! i) else None)"

definition rd_bytes :: "byte list \<Rightarrow> nat \<Rightarrow> nat \<Rightarrow> byte list option" where
  "rd_bytes p i n = (if i + n \<le> length p then Some (take n (drop i p)) else None)"

text \<open>\<^verbatim>\<open>ntohs\<close> and \<^verbatim>\<open>ntohl\<close> of a load read the bytes in network (big-endian) order on every
  host; a plain load of a \<^verbatim>\<open>uint32_t\<close> reads them in the order of the host, little-endian here.\<close>

definition be16 :: "byte \<Rightarrow> byte \<Rightarrow> u16" where
  "be16 a b = push_bit 8 (ucast a) OR ucast b"

definition be32 :: "byte \<Rightarrow> byte \<Rightarrow> byte \<Rightarrow> byte \<Rightarrow> u32" where
  "be32 a b c d = push_bit 24 (ucast a) OR push_bit 16 (ucast b) OR push_bit 8 (ucast c) OR ucast d"

definition le32 :: "byte \<Rightarrow> byte \<Rightarrow> byte \<Rightarrow> byte \<Rightarrow> u32" where
  "le32 a b c d = be32 d c b a"

definition rd_be16 :: "byte list \<Rightarrow> nat \<Rightarrow> u16 option" where
  "rd_be16 p i = do { a \<leftarrow> rd p i; b \<leftarrow> rd p (i + 1); Some (be16 a b) }"

definition rd_be32 :: "byte list \<Rightarrow> nat \<Rightarrow> u32 option" where
  "rd_be32 p i = do {
     a \<leftarrow> rd p i; b \<leftarrow> rd p (i + 1); c \<leftarrow> rd p (i + 2); d \<leftarrow> rd p (i + 3);
     Some (be32 a b c d) }"

section \<open>Writes\<close>

definition wr :: "byte list \<Rightarrow> nat \<Rightarrow> byte \<Rightarrow> byte list option" where
  "wr out i v = (if i < length out then Some (out[i := v]) else None)"

definition wr_bytes :: "byte list \<Rightarrow> nat \<Rightarrow> byte list \<Rightarrow> byte list option" where
  "wr_bytes out i bs =
     (if i + length bs \<le> length out
      then Some (take i out @ bs @ drop (i + length bs) out) else None)"

section \<open>C strings\<close>

definition lit :: "string \<Rightarrow> byte list" where
  "lit s = map of_char s"

text \<open>The bytes before the terminating NUL; no NUL inside the array is a read past its end.\<close>

definition cstr :: "byte list \<Rightarrow> byte list option" where
  "cstr p = (if 0 \<in> set p then Some (takeWhile (\<lambda>b. b \<noteq> 0) p) else None)"

definition strlen :: "byte list \<Rightarrow> nat option" where
  "strlen p = map_option length (cstr p)"

text \<open>\<^verbatim>\<open>%.*s\<close> with precision \<^term>\<open>n\<close>: at most \<^term>\<open>n\<close> bytes, up to a NUL.\<close>

definition cstr_prec :: "nat \<Rightarrow> byte list \<Rightarrow> byte list option" where
  "cstr_prec n p =
     (if n \<le> length p \<or> 0 \<in> set p then Some (takeWhile (\<lambda>b. b \<noteq> 0) (take n p)) else None)"

fun dec :: "nat \<Rightarrow> byte list" where
  "dec n = (if n < 10 then [of_nat (48 + n)] else dec (n div 10) @ [of_nat (48 + n mod 10)])"

declare dec.simps [simp del]

definition hex_digit :: "nat \<Rightarrow> byte" where
  "hex_digit n = of_nat (if n < 10 then 48 + n else 87 + n)"

definition hex2 :: "byte \<Rightarrow> byte list" where
  "hex2 b = [hex_digit (unat b div 16), hex_digit (unat b mod 16)]"

definition hex4 :: "u16 \<Rightarrow> byte list" where
  "hex4 w = [hex_digit (unat w div 4096 mod 16), hex_digit (unat w div 256 mod 16),
             hex_digit (unat w div 16 mod 16), hex_digit (unat w mod 16)]"

text \<open>\<^verbatim>\<open>snprintf(out + off, m, ...)\<close> with the formatted text \<^term>\<open>s\<close>: at most \<^term>\<open>m - 1\<close>
  bytes of it and a NUL; nothing at all for \<^term>\<open>m = 0\<close>.\<close>

definition snprintf_at :: "byte list \<Rightarrow> nat \<Rightarrow> nat \<Rightarrow> byte list \<Rightarrow> byte list option" where
  "snprintf_at out off m s =
     (if m = 0 then Some out else wr_bytes out off (take (m - 1) s @ [0]))"

abbreviation snprintf :: "byte list \<Rightarrow> nat \<Rightarrow> byte list \<Rightarrow> byte list option" where
  "snprintf out m s \<equiv> snprintf_at out 0 m s"

section \<open>Runs that return\<close>

text \<open>Inversion of a run that returned: which branch was taken, what the steps before it gave.\<close>

lemma if_SomeE:
  assumes "(if b then x else y) = Some z"
  obtains "b" "x = Some z" | "\<not> b" "y = Some z"
  using assms by (auto split: if_splits)

lemma if_branch_SomeE:
  assumes "(if b then x else y) = Some z"
  obtains "x = Some z" | "y = Some z"
  using assms by (auto split: if_splits)

lemma bind_SomeE:
  assumes "Option.bind x f = Some z"
  obtains a where "x = Some a" "f a = Some z"
  using assms by (auto simp: bind_eq_Some_conv)

text \<open>And forwards: a run returns when every branch of it does.\<close>

lemma if_returns: "x \<noteq> None \<Longrightarrow> y \<noteq> None \<Longrightarrow> (if b then x else y) \<noteq> None"
  by simp

lemma bind_returns: "x = Some a \<Longrightarrow> f a \<noteq> None \<Longrightarrow> Option.bind x f \<noteq> None"
  by simp

lemma bind_ret_iff: "(\<exists>z. Option.bind x (\<lambda>a. Some (g a)) = Some z) \<longleftrightarrow> (\<exists>a. x = Some a)"
  by (cases x) simp_all

lemmas run_elims = if_branch_SomeE bind_SomeE

section \<open>Lemmas of the memory model\<close>

lemma rd_Some [mem_simps]: "i < length p \<Longrightarrow> rd p i = Some (p ! i)"
  by (simp add: rd_def)

lemma rd_eq_Some_iff: "rd p i = Some b \<longleftrightarrow> i < length p \<and> b = p ! i"
  by (auto simp: rd_def)

lemma rd_eq_None_iff: "rd p i = None \<longleftrightarrow> length p \<le> i"
  by (auto simp: rd_def)

lemma rd_bytes_Some [mem_simps]: "i + n \<le> length p \<Longrightarrow> rd_bytes p i n = Some (take n (drop i p))"
  by (simp add: rd_bytes_def)

lemma rd_be16_Some [mem_simps]:
  "i + 1 < length p \<Longrightarrow> rd_be16 p i = Some (be16 (p ! i) (p ! (i + 1)))"
  by (simp add: rd_be16_def rd_def)

lemma rd_be16_eq_Some_iff:
  "rd_be16 p i = Some w \<longleftrightarrow> i + 1 < length p \<and> w = be16 (p ! i) (p ! (i + 1))"
  by (auto simp: rd_be16_def rd_def)

lemma rd_be16_None [simp]: "length p \<le> i + 1 \<Longrightarrow> rd_be16 p i = None"
  by (auto simp: rd_be16_def rd_def)

lemma rd_be32_Some [mem_simps]:
  "i + 3 < length p \<Longrightarrow>
   rd_be32 p i = Some (be32 (p ! i) (p ! (i + 1)) (p ! (i + 2)) (p ! (i + 3)))"
  by (simp add: rd_be32_def rd_def)

lemma wr_Some [mem_simps]: "i < length out \<Longrightarrow> wr out i v = Some (out[i := v])"
  by (simp add: wr_def)

lemma wr_length [len_simps]: "wr out i v = Some out' \<Longrightarrow> length out' = length out"
  by (auto simp: wr_def split: if_splits)

lemma wr_bytes_Some [mem_simps]:
  "i + length bs \<le> length out \<Longrightarrow>
   wr_bytes out i bs = Some (take i out @ bs @ drop (i + length bs) out)"
  by (simp add: wr_bytes_def)

lemma wr_bytes_length [len_simps]: "wr_bytes out i bs = Some out' \<Longrightarrow> length out' = length out"
  by (auto simp: wr_bytes_def split: if_splits)

lemma snprintf_at_length [len_simps]:
  "snprintf_at out off m s = Some out' \<Longrightarrow> length out' = length out"
  by (auto simp: snprintf_at_def wr_bytes_length split: if_splits)

lemma length_lit [simp]: "length (lit s) = length s"
  by (simp add: lit_def)

lemma lit_append [simp]: "lit (s @ t) = lit s @ lit t"
  by (simp add: lit_def)

lemma snprintf_at_Some:
  assumes "off + m \<le> length out"
  shows "\<exists>out'. snprintf_at out off m s = Some out' \<and> length out' = length out"
proof -
  have "off + length (take (m - 1) s @ [0 :: byte]) \<le> length out" if "m \<noteq> 0"
    using assms that by auto
  then show ?thesis by (auto simp: snprintf_at_def wr_bytes_def)
qed

lemma snprintf_eq:
  "0 < m \<Longrightarrow> m \<le> length out \<Longrightarrow> length s < m \<Longrightarrow>
   snprintf out m s = Some (s @ 0 # drop (Suc (length s)) out)"
  by (simp add: snprintf_at_def wr_bytes_def)

lemma takeWhile_NUL: "0 \<notin> set s \<Longrightarrow> takeWhile (\<lambda>b. b \<noteq> 0) (s @ 0 # r) = (s :: byte list)"
  by (induction s) auto

lemma cstr_terminated: "0 \<notin> set s \<Longrightarrow> cstr (s @ 0 # r) = Some s"
  by (simp add: cstr_def takeWhile_NUL)

text \<open>The text a formatted write leaves behind, when it fits.\<close>

lemma snprintf_cstr:
  assumes "0 < m" "m \<le> length out" "length s < m" "0 \<notin> set s"
  shows "\<exists>out'. snprintf out m s = Some out' \<and> length out' = length out \<and> cstr out' = Some s"
  using assms by (auto simp: snprintf_eq cstr_terminated)

text \<open>Appending with \<^verbatim>\<open>snprintf(out + strlen(out), m - strlen(out), ...)\<close>.\<close>

lemma cstr_split:
  assumes "cstr out = Some s"
  obtains r where "out = s @ 0 # r" "0 \<notin> set s"
proof -
  from assms have s: "s = takeWhile (\<lambda>b. b \<noteq> 0) out" and "0 \<in> set out"
    by (auto simp: cstr_def split: if_splits)
  then obtain x r where d: "dropWhile (\<lambda>b. b \<noteq> 0) out = x # r"
    by (cases "dropWhile (\<lambda>b. b \<noteq> 0) out") (auto simp: dropWhile_eq_Nil_conv)
  then have "x = 0" using hd_dropWhile [of "\<lambda>b. b \<noteq> 0" out] by simp
  then have "out = s @ 0 # r" using takeWhile_dropWhile_id [of "\<lambda>b. b \<noteq> 0" out] d s by simp
  moreover have "0 \<notin> set s" using s by (auto dest: set_takeWhileD)
  ultimately show ?thesis by (rule that)
qed

lemma snprintf_append_cstr:
  assumes "cstr out = Some s" "0 \<notin> set t" "length s + length t < m" "m \<le> length out"
  shows "\<exists>out'. snprintf_at out (length s) (m - length s) t = Some out' \<and>
    length out' = length out \<and> cstr out' = Some (s @ t)"
proof -
  obtain r where r: "out = s @ 0 # r" "0 \<notin> set s" using assms(1) by (rule cstr_split)
  have "length s + length (t @ [0 :: byte]) \<le> length out" using assms(3,4) by simp
  moreover have "take (m - length s - 1) t = t" using assms(3) by simp
  ultimately have "snprintf_at out (length s) (m - length s) t =
      Some ((s @ t) @ 0 # drop (length s + length t + 1) out)"
    using assms(3) r by (simp add: snprintf_at_def wr_bytes_def)
  moreover have "0 \<notin> set (s @ t)" using r assms(2) by simp
  ultimately show ?thesis using cstr_terminated assms(3,4) by fastforce
qed

lemma dec_NUL: "0 \<notin> set (dec n)"
proof (induction n rule: dec.induct)
  case (1 n)
  have digit: "(of_nat (48 + k) :: byte) \<noteq> 0" if "k < 10" for k
  proof -
    have "unat (of_nat (48 + k) :: byte) = 48 + k" using that by (simp add: unat_of_nat del: of_nat_add)
    then show ?thesis by (metis unat_0 add_eq_0_iff_both_eq_0 zero_neq_numeral)
  qed
  then show ?case using 1 digit [of n] digit [of "n mod 10"]
    by (subst dec.simps) (auto split: if_splits)
qed

lemma dec_length_byte: "n < 256 \<Longrightarrow> length (dec n) \<le> 3"
  by (simp add: dec.simps [of n] dec.simps [of "n div 10"] dec.simps [of "n div 10 div 10"])

lemma NUL_wr_bytes:
  "wr_bytes out i (bs @ [0]) = Some out' \<Longrightarrow> (0 :: byte) \<in> set out'"
  by (auto simp: wr_bytes_def split: if_splits)

lemma snprintf_NUL:
  "snprintf_at out off m s = Some out' \<Longrightarrow> 0 < m \<Longrightarrow> (0 :: byte) \<in> set out'"
  by (auto simp: snprintf_at_def dest: NUL_wr_bytes)

lemma snprintf_keeps_NUL:
  "snprintf_at out off m s = Some out' \<Longrightarrow> (0 :: byte) \<in> set out \<Longrightarrow> 0 \<in> set out'"
  by (cases "m = 0") (simp add: snprintf_at_def, blast intro: snprintf_NUL)

lemma rd_low: "k \<le> length p \<Longrightarrow> i < k \<Longrightarrow> rd p i = Some (p ! i)"
  by (simp add: rd_def)

lemma cstr_Some_iff: "(\<exists>s. cstr p = Some s) \<longleftrightarrow> 0 \<in> set p"
  by (simp add: cstr_def)

lemma unat_byte [simp]: "unat (b :: byte) < 256"
  using unsigned_less [of b] by simp

lemma unat_be16: "unat (be16 a b) = 256 * unat a + unat b"
proof -
  have "push_bit 8 (ucast a :: u16) AND ucast b = 0"
    by (rule bit_eqI) (auto simp: bit_simps dest: bit_imp_le_length)
  then have "be16 a b = push_bit 8 (ucast a) + ucast b"
    by (simp add: be16_def disjunctive_add_eq_or)
  moreover have "take_bit 16 (unat a) = unat a" "take_bit 16 (unat b) = unat b"
    by (simp_all add: take_bit_nat_eq_self_iff less_trans [OF unat_byte])
  moreover have "unat a * 256 + unat b < 65536"
    using unat_byte [of a] unat_byte [of b] by linarith
  ultimately show ?thesis
    by (simp add: push_bit_eq_mult unat_word_ariths unsigned_ucast_eq)
qed

lemma be16_eq_iff: "be16 a b = be16 c d \<longleftrightarrow> a = c \<and> b = d"
proof
  assume "be16 a b = be16 c d"
  then have "256 * unat a + unat b = 256 * unat c + unat d"
    by (metis unat_be16)
  moreover have "(256 * unat a + unat b) div 256 = unat a" "(256 * unat c + unat d) div 256 = unat c"
    by (simp_all add: div_add1_eq)
  ultimately have "unat a = unat c" "unat b = unat d" by simp_all
  then show "a = c \<and> b = d" by (simp add: word_unat_eq_iff)
qed simp

section \<open>Network-order encodings\<close>

text \<open>The inverse of the big-endian reads, used to state what the parsers recover.\<close>

definition be16_bytes :: "u16 \<Rightarrow> byte list" where
  "be16_bytes w = [ucast (drop_bit 8 w), ucast w]"

definition be32_bytes :: "u32 \<Rightarrow> byte list" where
  "be32_bytes w = [ucast (drop_bit 24 w), ucast (drop_bit 16 w), ucast (drop_bit 8 w), ucast w]"

lemma length_be16_bytes [simp]: "length (be16_bytes w) = 2"
  by (simp add: be16_bytes_def)

lemma length_be32_bytes [simp]: "length (be32_bytes w) = 4"
  by (simp add: be32_bytes_def)

lemma be16_split [simp]: "be16 (ucast (drop_bit 8 w)) (ucast w) = w"
  unfolding be16_def by (rule bit_word_eqI) (auto simp: bit_simps)

lemma be32_split [simp]:
  "be32 (ucast (drop_bit 24 w)) (ucast (drop_bit 16 w)) (ucast (drop_bit 8 w)) (ucast w) = w"
proof (rule bit_word_eqI)
  fix n
  assume "n < LENGTH(32)"
  then consider "n < 8" | "8 \<le> n" "n < 16" | "16 \<le> n" "n < 24" | "24 \<le> n" "n < 32"
    by fastforce
  then show "bit (be32 (ucast (drop_bit 24 w)) (ucast (drop_bit 16 w)) (ucast (drop_bit 8 w)) (ucast w)) n
      = bit w n"
    by cases (auto simp: be32_def bit_simps)
qed

lemma rd_be16_at: "rd_be16 (pre @ be16_bytes w @ rest) (length pre) = Some w"
  by (simp add: rd_be16_Some nth_append be16_bytes_def)

lemma rd_be32_at: "rd_be32 (pre @ be32_bytes w @ rest) (length pre) = Some w"
  by (simp add: rd_be32_Some nth_append be32_bytes_def)

lemma rd_at: "rd (pre @ b # rest) (length pre) = Some b"
  by (simp add: rd_def nth_append)

lemma rd_bytes_at: "rd_bytes (pre @ bs @ rest) (length pre) (length bs) = Some bs"
  by (simp add: rd_bytes_def)

text \<open>Reads relative to a header that starts after \<^term>\<open>pre\<close>.\<close>

lemma rd_skip [simp]: "rd (pre @ xs) (length pre + k) = rd xs k"
  by (simp add: rd_def)

lemma rd_skip0 [simp]: "rd (pre @ xs) (length pre) = rd xs 0"
  by (simp add: rd_def nth_append)

lemma rd_be16_skip [simp]: "rd_be16 (pre @ xs) (length pre + k) = rd_be16 xs k"
  by (simp add: rd_be16_def add.assoc del: add_Suc_right)

lemma rd_be16_skip0 [simp]: "rd_be16 (pre @ xs) (length pre) = rd_be16 xs 0"
  using rd_be16_skip [of pre xs 0] by simp

lemma rd_be32_skip [simp]: "rd_be32 (pre @ xs) (length pre + k) = rd_be32 xs k"
  by (simp add: rd_be32_def add.assoc del: add_Suc_right)

lemma rd_be32_skip0 [simp]: "rd_be32 (pre @ xs) (length pre) = rd_be32 xs 0"
  using rd_be32_skip [of pre xs 0] by simp

lemma rd_bytes_skip [simp]: "rd_bytes (pre @ xs) (length pre + k) n = rd_bytes xs k n"
  by (simp add: rd_bytes_def)

lemma rd_skip_Suc [simp]: "rd (pre @ xs) (Suc (length pre)) = rd xs 1"
  using rd_skip [of pre xs 1] by simp

text \<open>Reads of explicit lists evaluate by these equations.\<close>

lemma rd_Cons [simp]:
  "rd (x # xs) 0 = Some x"
  "rd (x # xs) (Suc n) = rd xs n"
  "rd (x # xs) (numeral k) = rd xs (pred_numeral k)"
  by (simp_all add: rd_def numeral_eq_Suc)

lemma rd_Nil [simp]: "rd [] n = None"
  by (simp add: rd_def)

lemma rd_be16_Cons [simp]:
  "rd_be16 (a # b # xs) 0 = Some (be16 a b)"
  "rd_be16 (x # xs) (Suc n) = rd_be16 xs n"
  "rd_be16 (x # xs) (numeral k) = rd_be16 xs (pred_numeral k)"
  by (simp_all add: rd_be16_def rd_def numeral_eq_Suc)

lemma rd_be32_Cons [simp]:
  "rd_be32 (a # b # c # d # xs) 0 = Some (be32 a b c d)"
  "rd_be32 (x # xs) (Suc n) = rd_be32 xs n"
  "rd_be32 (x # xs) (numeral k) = rd_be32 xs (pred_numeral k)"
  by (simp_all add: rd_be32_def rd_def numeral_eq_Suc)

lemma rd_bytes_Cons [simp]:
  "rd_bytes (x # xs) (Suc n) m = rd_bytes xs n m"
  "rd_bytes (x # xs) (numeral k) m = rd_bytes xs (pred_numeral k) m"
  "rd_bytes (x # xs) 0 (Suc m) = map_option ((#) x) (rd_bytes xs 0 m)"
  "rd_bytes (x # xs) 0 (numeral k) = map_option ((#) x) (rd_bytes xs 0 (pred_numeral k))"
  by (simp_all add: rd_bytes_def numeral_eq_Suc)

lemma rd_bytes_0 [simp]: "rd_bytes xs 0 0 = Some []"
  by (simp add: rd_bytes_def)

lemma length4E:
  assumes "length xs = 4"
  obtains a b c d where "xs = [a, b, c, d]"
  using assms by (auto simp: numeral_eq_Suc length_Suc_conv)

end
