(* ===== verification/Packet_Types.thy ===== *)
theory Packet_Types
  imports Pacsni_Prelude
begin

text \<open>
  The data of \<^verbatim>\<open>cpp/packet_types.h\<close> and of the head of \<^verbatim>\<open>cpp/protocol_dissectors.h\<close>: the packed
  \<^verbatim>\<open>PacketInfo\<close> message, what the three header parsers return, the raw packet that travels
  through the first queue. Arrays of \<^verbatim>\<open>uint8_t\<close> and \<^verbatim>\<open>char\<close> are lists of bytes whose length
  \<^verbatim>\<open>wf_info\<close> fixes. The byte image of a \<^verbatim>\<open>PacketInfo\<close> (\<^verbatim>\<open>packet_info_bytes\<close>) follows the
  declaration order of the packed struct on a little-endian host.
\<close>

section \<open>Data\<close>

definition MAX_PAYLOAD_SIZE :: nat where
  "MAX_PAYLOAD_SIZE = 256"

record packet_info =
  timestamp :: u64
  src_ip :: "byte list"
  dst_ip :: "byte list"
  src_port :: u16
  dst_port :: u16
  protocol :: byte
  has_tcp_ao :: byte
  tcp_flags :: byte
  l3_offset :: byte
  l4_offset :: byte
  tcp_seq :: u32
  tcp_ack :: u32
  icmp_type :: byte
  icmp_code :: byte
  delta_time :: u32
  vlan_id :: u16
  ip_ttl :: byte
  ip_tos :: byte
  tcp_win :: u16
  ip_id :: u16
  is_ipv6 :: byte
  is_fragment :: byte
  tcp_mss :: u16
  tcp_ws :: byte
  ipv6_ext_count :: byte
  ipv6_flow :: u32
  wire_len :: u32
  tcp_ts_val :: u32
  tcp_ts_ecr :: u32
  tcp_sack :: byte
  tcp_rtt :: u32
  vxlan_vni :: u32
  entropy_scaled :: u32
  ntp_stratum :: byte
  ntp_mode :: byte
  igmp_type :: byte
  igmp_group :: "byte list"
  lldp_chassis :: "byte list"
  lldp_port :: "byte list"
  tcp_sack_edges :: "u32 list"
  top_byte :: byte
  top_byte_freq :: byte
  pad :: "byte list"
  payload_len :: u16
  src_mac :: "byte list"
  dst_mac :: "byte list"
  dns_query :: "byte list"
  tls_sni :: "byte list"
  extra_info :: "byte list"
  app_layer_info :: "byte list"
  payload :: "byte list"
  final_pad :: "byte list"

text \<open>\<^verbatim>\<open>memset(&info, 0, sizeof(info))\<close>.\<close>

definition zero_info :: packet_info where
  "zero_info = \<lparr>
     timestamp = 0, src_ip = replicate 16 0, dst_ip = replicate 16 0, src_port = 0, dst_port = 0,
     protocol = 0, has_tcp_ao = 0, tcp_flags = 0, l3_offset = 0, l4_offset = 0,
     tcp_seq = 0, tcp_ack = 0, icmp_type = 0, icmp_code = 0, delta_time = 0, vlan_id = 0,
     ip_ttl = 0, ip_tos = 0, tcp_win = 0, ip_id = 0, is_ipv6 = 0, is_fragment = 0,
     tcp_mss = 0, tcp_ws = 0, ipv6_ext_count = 0, ipv6_flow = 0, wire_len = 0,
     tcp_ts_val = 0, tcp_ts_ecr = 0, tcp_sack = 0, tcp_rtt = 0, vxlan_vni = 0,
     entropy_scaled = 0, ntp_stratum = 0, ntp_mode = 0, igmp_type = 0,
     igmp_group = replicate 4 0, lldp_chassis = replicate 32 0, lldp_port = replicate 32 0,
     tcp_sack_edges = replicate 8 0, top_byte = 0, top_byte_freq = 0, pad = replicate 151 0,
     payload_len = 0, src_mac = replicate 6 0, dst_mac = replicate 6 0,
     dns_query = replicate 64 0, tls_sni = replicate 64 0, extra_info = replicate 128 0,
     app_layer_info = replicate 128 0, payload = replicate MAX_PAYLOAD_SIZE 0,
     final_pad = replicate 8 0 \<rparr>"

text \<open>\<^verbatim>\<open>header\<close> is the offset of the header in the packet (for Ethernet it is always 0).\<close>

record ethernet_info =
  eth_header :: nat
  eth_header_len :: nat
  eth_ether_type :: u16
  eth_vlan_id :: u16

record ip_info =
  ip_header :: nat
  ip_header_len :: nat
  ip_src :: "byte list"
  ip_dst :: "byte list"
  ip_protocol :: byte
  ip_ttl_f :: byte
  ip_tos_f :: byte
  ip_id_f :: u16
  ip_is_ipv6 :: bool
  ip_is_fragment :: bool

text \<open>\<^verbatim>\<open>payload_ptr\<close> is the offset of the payload in the packet; \<^term>\<open>None\<close> is the null pointer.\<close>

record transport_info =
  t_src_port :: u16
  t_dst_port :: u16
  t_seq :: u32
  t_ack :: u32
  t_window :: u16
  t_flags :: byte
  t_mss :: u16
  t_ws :: byte
  t_has_ao :: bool
  t_payload_ptr :: "nat option"
  t_payload_len :: int

text \<open>\<^verbatim>\<open>struct pcap_pkthdr\<close> (capture time, captured and wire length) and \<^verbatim>\<open>RawPacket\<close>.\<close>

record pcap_pkthdr =
  tv_sec :: int
  tv_usec :: int
  caplen :: u32
  wlen :: u32

record raw_packet =
  pkthdr :: pcap_pkthdr
  rp_data :: "byte list"
  rp_delta_time :: u32

section \<open>Well-formedness: the array lengths of the struct\<close>

definition wf_info :: "packet_info \<Rightarrow> bool" where
  "wf_info i \<longleftrightarrow>
     length (src_ip i) = 16 \<and> length (dst_ip i) = 16 \<and> length (igmp_group i) = 4 \<and>
     length (lldp_chassis i) = 32 \<and> length (lldp_port i) = 32 \<and>
     length (tcp_sack_edges i) = 8 \<and> length (pad i) = 151 \<and>
     length (src_mac i) = 6 \<and> length (dst_mac i) = 6 \<and>
     length (dns_query i) = 64 \<and> length (tls_sni i) = 64 \<and>
     length (extra_info i) = 128 \<and> length (app_layer_info i) = 128 \<and>
     length (payload i) = MAX_PAYLOAD_SIZE \<and> length (final_pad i) = 8"

definition wf_raw :: "raw_packet \<Rightarrow> bool" where
  "wf_raw r \<longleftrightarrow> length (rp_data r) = MAX_PAYLOAD_SIZE"

lemma wf_zero_info [simp, intro]: "wf_info zero_info"
  by (simp add: wf_info_def zero_info_def)

text \<open>Scalar updates do not matter for \<^term>\<open>wf_info\<close>; an array update keeps it when the new
  contents have the length of the array.\<close>

lemma wf_info_scalar_updates [simp]:
  "wf_info (i\<lparr>timestamp := v0\<rparr>) = wf_info i"
  "wf_info (i\<lparr>src_port := v1\<rparr>) = wf_info i"
  "wf_info (i\<lparr>dst_port := v2\<rparr>) = wf_info i"
  "wf_info (i\<lparr>protocol := v3\<rparr>) = wf_info i"
  "wf_info (i\<lparr>has_tcp_ao := v4\<rparr>) = wf_info i"
  "wf_info (i\<lparr>tcp_flags := v5\<rparr>) = wf_info i"
  "wf_info (i\<lparr>l3_offset := v6\<rparr>) = wf_info i"
  "wf_info (i\<lparr>l4_offset := v7\<rparr>) = wf_info i"
  "wf_info (i\<lparr>tcp_seq := v8\<rparr>) = wf_info i"
  "wf_info (i\<lparr>tcp_ack := v9\<rparr>) = wf_info i"
  "wf_info (i\<lparr>icmp_type := v10\<rparr>) = wf_info i"
  "wf_info (i\<lparr>icmp_code := v11\<rparr>) = wf_info i"
  "wf_info (i\<lparr>delta_time := v12\<rparr>) = wf_info i"
  "wf_info (i\<lparr>vlan_id := v13\<rparr>) = wf_info i"
  "wf_info (i\<lparr>ip_ttl := v14\<rparr>) = wf_info i"
  "wf_info (i\<lparr>ip_tos := v15\<rparr>) = wf_info i"
  "wf_info (i\<lparr>tcp_win := v16\<rparr>) = wf_info i"
  "wf_info (i\<lparr>ip_id := v17\<rparr>) = wf_info i"
  "wf_info (i\<lparr>is_ipv6 := v18\<rparr>) = wf_info i"
  "wf_info (i\<lparr>is_fragment := v19\<rparr>) = wf_info i"
  "wf_info (i\<lparr>tcp_mss := v20\<rparr>) = wf_info i"
  "wf_info (i\<lparr>tcp_ws := v21\<rparr>) = wf_info i"
  "wf_info (i\<lparr>ipv6_ext_count := v22\<rparr>) = wf_info i"
  "wf_info (i\<lparr>ipv6_flow := v23\<rparr>) = wf_info i"
  "wf_info (i\<lparr>wire_len := v24\<rparr>) = wf_info i"
  "wf_info (i\<lparr>tcp_ts_val := v25\<rparr>) = wf_info i"
  "wf_info (i\<lparr>tcp_ts_ecr := v26\<rparr>) = wf_info i"
  "wf_info (i\<lparr>tcp_sack := v27\<rparr>) = wf_info i"
  "wf_info (i\<lparr>tcp_rtt := v28\<rparr>) = wf_info i"
  "wf_info (i\<lparr>vxlan_vni := v29\<rparr>) = wf_info i"
  "wf_info (i\<lparr>entropy_scaled := v30\<rparr>) = wf_info i"
  "wf_info (i\<lparr>ntp_stratum := v31\<rparr>) = wf_info i"
  "wf_info (i\<lparr>ntp_mode := v32\<rparr>) = wf_info i"
  "wf_info (i\<lparr>igmp_type := v33\<rparr>) = wf_info i"
  "wf_info (i\<lparr>top_byte := v34\<rparr>) = wf_info i"
  "wf_info (i\<lparr>top_byte_freq := v35\<rparr>) = wf_info i"
  "wf_info (i\<lparr>payload_len := v36\<rparr>) = wf_info i"
  by (simp_all add: wf_info_def)

lemma wf_info_array_updates [simp]:
  "wf_info i \<Longrightarrow> wf_info (i\<lparr>src_ip := v0\<rparr>) = (length v0 = 16)"
  "wf_info i \<Longrightarrow> wf_info (i\<lparr>dst_ip := v1\<rparr>) = (length v1 = 16)"
  "wf_info i \<Longrightarrow> wf_info (i\<lparr>igmp_group := v2\<rparr>) = (length v2 = 4)"
  "wf_info i \<Longrightarrow> wf_info (i\<lparr>lldp_chassis := v3\<rparr>) = (length v3 = 32)"
  "wf_info i \<Longrightarrow> wf_info (i\<lparr>lldp_port := v4\<rparr>) = (length v4 = 32)"
  "wf_info i \<Longrightarrow> wf_info (i\<lparr>tcp_sack_edges := v5\<rparr>) = (length v5 = 8)"
  "wf_info i \<Longrightarrow> wf_info (i\<lparr>src_mac := v6\<rparr>) = (length v6 = 6)"
  "wf_info i \<Longrightarrow> wf_info (i\<lparr>dst_mac := v7\<rparr>) = (length v7 = 6)"
  "wf_info i \<Longrightarrow> wf_info (i\<lparr>dns_query := v8\<rparr>) = (length v8 = 64)"
  "wf_info i \<Longrightarrow> wf_info (i\<lparr>tls_sni := v9\<rparr>) = (length v9 = 64)"
  "wf_info i \<Longrightarrow> wf_info (i\<lparr>extra_info := v10\<rparr>) = (length v10 = 128)"
  "wf_info i \<Longrightarrow> wf_info (i\<lparr>app_layer_info := v11\<rparr>) = (length v11 = 128)"
  "wf_info i \<Longrightarrow> wf_info (i\<lparr>payload := v12\<rparr>) = (length v12 = 256)"
  by (simp_all add: wf_info_def MAX_PAYLOAD_SIZE_def)

lemma wf_info_lengths [simp]:
  assumes "wf_info i"
  shows "length (src_ip i) = 16"
    "length (dst_ip i) = 16"
    "length (igmp_group i) = 4"
    "length (lldp_chassis i) = 32"
    "length (lldp_port i) = 32"
    "length (tcp_sack_edges i) = 8"
    "length (src_mac i) = 6"
    "length (dst_mac i) = 6"
    "length (dns_query i) = 64"
    "length (tls_sni i) = 64"
    "length (extra_info i) = 128"
    "length (app_layer_info i) = 128"
    "length (payload i) = 256"
  using assms by (simp_all add: wf_info_def MAX_PAYLOAD_SIZE_def)

section \<open>Texts and frame fields\<close>

text \<open>The text fields are read as C strings by the next stage: they have to hold a NUL.\<close>

definition info_ok :: "packet_info \<Rightarrow> bool" where
  "info_ok i \<longleftrightarrow> wf_info i \<and> 0 \<in> set (extra_info i) \<and> 0 \<in> set (app_layer_info i) \<and>
     0 \<in> set (dns_query i) \<and> 0 \<in> set (tls_sni i) \<and> 0 \<in> set (lldp_chassis i) \<and>
     0 \<in> set (lldp_port i)"

lemma info_ok_zero [simp, intro]: "info_ok zero_info"
  unfolding info_ok_def using wf_zero_info by (simp add: zero_info_def)

lemma info_ok_wf [dest]: "info_ok i \<Longrightarrow> wf_info i"
  by (simp add: info_ok_def)

text \<open>A struct with the fields erased that the option walker and the application dissectors
  annotate. Two structs with the same \<^verbatim>\<open>core\<close> agree on every other field.\<close>

definition core :: "packet_info \<Rightarrow> packet_info" where
  "core i = i\<lparr>has_tcp_ao := 0, tcp_mss := 0, tcp_ws := 0, tcp_ts_val := 0, tcp_ts_ecr := 0,
     tcp_sack := 0, tcp_sack_edges := [], vxlan_vni := 0, ntp_stratum := 0, ntp_mode := 0,
     igmp_type := 0, igmp_group := [], lldp_chassis := [], lldp_port := [], dns_query := [],
     extra_info := [], app_layer_info := []\<rparr>"

lemma core_updates [simp]:
  "core (i\<lparr>has_tcp_ao := v0\<rparr>) = core i" "core (i\<lparr>tcp_mss := v1\<rparr>) = core i"
  "core (i\<lparr>tcp_ws := v2\<rparr>) = core i" "core (i\<lparr>tcp_ts_val := v3\<rparr>) = core i"
  "core (i\<lparr>tcp_ts_ecr := v4\<rparr>) = core i" "core (i\<lparr>tcp_sack := v5\<rparr>) = core i"
  "core (i\<lparr>tcp_sack_edges := v6\<rparr>) = core i" "core (i\<lparr>vxlan_vni := v7\<rparr>) = core i"
  "core (i\<lparr>ntp_stratum := v8\<rparr>) = core i" "core (i\<lparr>ntp_mode := v9\<rparr>) = core i"
  "core (i\<lparr>igmp_type := v10\<rparr>) = core i" "core (i\<lparr>igmp_group := v11\<rparr>) = core i"
  "core (i\<lparr>lldp_chassis := v12\<rparr>) = core i" "core (i\<lparr>lldp_port := v13\<rparr>) = core i"
  "core (i\<lparr>dns_query := v14\<rparr>) = core i" "core (i\<lparr>extra_info := v15\<rparr>) = core i"
  "core (i\<lparr>app_layer_info := v16\<rparr>) = core i"
  by (simp_all add: core_def)

section \<open>The byte image of the packed struct\<close>

definition le16_bytes :: "u16 \<Rightarrow> byte list" where
  "le16_bytes w = [ucast w, ucast (drop_bit 8 w)]"

definition le32_bytes :: "u32 \<Rightarrow> byte list" where
  "le32_bytes w = [ucast w, ucast (drop_bit 8 w), ucast (drop_bit 16 w), ucast (drop_bit 24 w)]"

definition le64_bytes :: "u64 \<Rightarrow> byte list" where
  "le64_bytes w = le32_bytes (ucast w) @ le32_bytes (ucast (drop_bit 32 w))"

definition packet_info_bytes :: "packet_info \<Rightarrow> byte list" where
  "packet_info_bytes i =
     le64_bytes (timestamp i) @ src_ip i @ dst_ip i @
     le16_bytes (src_port i) @ le16_bytes (dst_port i) @
     [protocol i, has_tcp_ao i, tcp_flags i, l3_offset i, l4_offset i] @
     le32_bytes (tcp_seq i) @ le32_bytes (tcp_ack i) @ [icmp_type i, icmp_code i] @
     le32_bytes (delta_time i) @ le16_bytes (vlan_id i) @ [ip_ttl i, ip_tos i] @
     le16_bytes (tcp_win i) @ le16_bytes (ip_id i) @ [is_ipv6 i, is_fragment i] @
     le16_bytes (tcp_mss i) @ [tcp_ws i, ipv6_ext_count i] @
     le32_bytes (ipv6_flow i) @ le32_bytes (wire_len i) @
     le32_bytes (tcp_ts_val i) @ le32_bytes (tcp_ts_ecr i) @ [tcp_sack i] @
     le32_bytes (tcp_rtt i) @ le32_bytes (vxlan_vni i) @ le32_bytes (entropy_scaled i) @
     [ntp_stratum i, ntp_mode i, igmp_type i] @ igmp_group i @
     lldp_chassis i @ lldp_port i @ concat (map le32_bytes (tcp_sack_edges i)) @
     [top_byte i, top_byte_freq i] @ pad i @ le16_bytes (payload_len i) @
     src_mac i @ dst_mac i @ dns_query i @ tls_sni i @ extra_info i @ app_layer_info i @
     payload i @ final_pad i"

lemma length_le16_bytes [simp]: "length (le16_bytes w) = 2"
  by (simp add: le16_bytes_def)

lemma length_le32_bytes [simp]: "length (le32_bytes w) = 4"
  by (simp add: le32_bytes_def)

lemma length_le64_bytes [simp]: "length (le64_bytes w) = 8"
  by (simp add: le64_bytes_def)

lemma length_concat_le32: "length (concat (map le32_bytes ws)) = 4 * length ws"
  by (induction ws) auto

text \<open>The \<^verbatim>\<open>static_assert(sizeof(PacketInfo) == 1024)\<close> of the header.\<close>

lemma length_packet_info_bytes: "wf_info i \<Longrightarrow> length (packet_info_bytes i) = 1024"
  by (simp add: packet_info_bytes_def wf_info_def length_concat_le32 MAX_PAYLOAD_SIZE_def
      del: wf_info_lengths)

end
