(* ===== verification/Header_Parsers.thy ===== *)
theory Header_Parsers
  imports Packet_Types
begin

text \<open>
  The three header parsers of \<^verbatim>\<open>cpp/protocol_dissectors.cpp\<close> (the non-Windows build):
  \<^verbatim>\<open>parse_ethernet_layer\<close> with its VLAN loop, \<^verbatim>\<open>parse_ip_layer\<close> and \<^verbatim>\<open>parse_transport_layer\<close>.
  The outer \<^term>\<open>None\<close> of a result is an access outside the packet array, the inner one is
  \<^verbatim>\<open>std::nullopt\<close>. Header lengths and offsets are \<^verbatim>\<open>int\<close>s that never become negative, so
  they are natural numbers and the casts \<^verbatim>\<open>(uint32_t)(off + n)\<close> keep their value;
  \<^verbatim>\<open>payload_len\<close> can become negative and stays an integer.
\<close>

section \<open>Ethernet and VLAN tags\<close>

definition is_vlan_type :: "u16 \<Rightarrow> bool" where
  "is_vlan_type etype \<longleftrightarrow> etype = 0x8100 \<or> etype = 0x88a8"

function vlan_loop :: "byte list \<Rightarrow> u32 \<Rightarrow> u16 \<Rightarrow> nat \<Rightarrow> u16 \<Rightarrow> (u16 \<times> nat \<times> u16) option" where
  "vlan_loop packet cap etype hlen v_id =
     (if is_vlan_type etype \<and> hlen + 4 \<le> unat cap
      then do {
        tci \<leftarrow> rd_be16 packet hlen;
        etype' \<leftarrow> rd_be16 packet (hlen + 2);
        vlan_loop packet cap etype' (hlen + 4) (tci AND 0x0FFF) }
      else Some (etype, hlen, v_id))"
  by pat_completeness auto
termination
  by (relation "measure (\<lambda>(packet, cap, etype, hlen, v_id). unat cap - hlen)") auto

declare vlan_loop.simps [simp del]

definition parse_ethernet_layer :: "byte list \<Rightarrow> u32 \<Rightarrow> ethernet_info option option" where
  "parse_ethernet_layer packet cap =
     (if unat cap < 14 then Some None
      else do {
        etype0 \<leftarrow> rd_be16 packet 12;
        (etype, hlen, v_id) \<leftarrow> vlan_loop packet cap etype0 14 0;
        Some (Some \<lparr>eth_header = 0, eth_header_len = hlen, eth_ether_type = etype,
                    eth_vlan_id = v_id\<rparr>) })"

section \<open>IPv4 and IPv6\<close>

definition parse_ipv4 :: "byte list \<Rightarrow> u32 \<Rightarrow> nat \<Rightarrow> ip_info option option" where
  "parse_ipv4 packet cap eth_hlen =
     (if unat cap < eth_hlen + 20 then Some None
      else do {
        b0 \<leftarrow> rd packet eth_hlen;
        let header_len = unat (b0 AND 0x0f) * 4;
        if header_len < 20 \<or> unat cap < eth_hlen + header_len then Some None
        else do {
          src \<leftarrow> rd_bytes packet (eth_hlen + 12) 4;
          dst \<leftarrow> rd_bytes packet (eth_hlen + 16) 4;
          ip_p \<leftarrow> rd packet (eth_hlen + 9);
          ttl \<leftarrow> rd packet (eth_hlen + 8);
          tos \<leftarrow> rd packet (eth_hlen + 1);
          idv \<leftarrow> rd_be16 packet (eth_hlen + 4);
          off \<leftarrow> rd_be16 packet (eth_hlen + 6);
          Some (Some \<lparr>ip_header = eth_hlen, ip_header_len = header_len,
                      ip_src = replicate 12 0 @ src, ip_dst = replicate 12 0 @ dst,
                      ip_protocol = ip_p, ip_ttl_f = ttl, ip_tos_f = tos, ip_id_f = idv,
                      ip_is_ipv6 = False,
                      ip_is_fragment = (off AND (0x2000 OR 0x1fff) \<noteq> 0)\<rparr>) } })"

definition parse_ipv6 :: "byte list \<Rightarrow> u32 \<Rightarrow> nat \<Rightarrow> ip_info option option" where
  "parse_ipv6 packet cap eth_hlen =
     (if unat cap < eth_hlen + 40 then Some None
      else do {
        src \<leftarrow> rd_bytes packet (eth_hlen + 8) 16;
        dst \<leftarrow> rd_bytes packet (eth_hlen + 24) 16;
        nxt \<leftarrow> rd packet (eth_hlen + 6);
        hlim \<leftarrow> rd packet (eth_hlen + 7);
        flow \<leftarrow> rd_be32 packet eth_hlen;
        Some (Some \<lparr>ip_header = eth_hlen, ip_header_len = 40, ip_src = src, ip_dst = dst,
                    ip_protocol = nxt, ip_ttl_f = hlim,
                    ip_tos_f = ucast (drop_bit 20 flow AND 0xFF), ip_id_f = 0,
                    ip_is_ipv6 = True, ip_is_fragment = False\<rparr>) })"

definition parse_ip_layer :: "byte list \<Rightarrow> u32 \<Rightarrow> nat \<Rightarrow> ip_info option option" where
  "parse_ip_layer packet cap eth_hlen =
     (if unat cap < eth_hlen + 1 then Some None
      else do {
        b0 \<leftarrow> rd packet eth_hlen;
        let version = drop_bit 4 b0 AND 0x0f;
        if version = 4 then parse_ipv4 packet cap eth_hlen
        else if version = 6 then parse_ipv6 packet cap eth_hlen
        else Some None })"

section \<open>TCP and UDP\<close>

definition zero_transport :: transport_info where
  "zero_transport = \<lparr>t_src_port = 0, t_dst_port = 0, t_seq = 0, t_ack = 0, t_window = 0,
     t_flags = 0, t_mss = 0, t_ws = 0, t_has_ao = False, t_payload_ptr = None, t_payload_len = 0\<rparr>"

definition parse_tcp :: "byte list \<Rightarrow> u32 \<Rightarrow> nat \<Rightarrow> ip_info \<Rightarrow> transport_info option option" where
  "parse_tcp packet cap offset ip_i =
     (if unat cap < offset + 20 then Some None
      else do {
        b12 \<leftarrow> rd packet (offset + 12);
        let hlen = unat (drop_bit 4 b12 AND 0x0f) * 4;
        if hlen < 20 \<or> unat cap < offset + hlen then Some None
        else do {
          sp \<leftarrow> rd_be16 packet offset;
          dp \<leftarrow> rd_be16 packet (offset + 2);
          sq \<leftarrow> rd_be32 packet (offset + 4);
          ak \<leftarrow> rd_be32 packet (offset + 8);
          win \<leftarrow> rd_be16 packet (offset + 14);
          fl \<leftarrow> rd packet (offset + 13);
          ip_len \<leftarrow> rd_be16 packet (ip_header ip_i + 2);
          Some (Some (zero_transport\<lparr>t_src_port := sp, t_dst_port := dp, t_seq := sq,
            t_ack := ak, t_window := win, t_flags := fl,
            t_payload_ptr := Some (offset + hlen),
            t_payload_len := int (unat ip_len) - int (ip_header_len ip_i) - int hlen\<rparr>)) } })"

definition parse_udp :: "byte list \<Rightarrow> u32 \<Rightarrow> nat \<Rightarrow> transport_info option option" where
  "parse_udp packet cap offset =
     (if unat cap < offset + 8 then Some None
      else do {
        sp \<leftarrow> rd_be16 packet offset;
        dp \<leftarrow> rd_be16 packet (offset + 2);
        ulen \<leftarrow> rd_be16 packet (offset + 4);
        Some (Some (zero_transport\<lparr>t_src_port := sp, t_dst_port := dp,
          t_payload_ptr := Some (offset + 8), t_payload_len := int (unat ulen) - 8\<rparr>)) })"

definition parse_transport_layer ::
  "byte list \<Rightarrow> u32 \<Rightarrow> nat \<Rightarrow> ip_info \<Rightarrow> transport_info option option" where
  "parse_transport_layer packet cap eth_hlen ip_i =
     (let offset = eth_hlen + ip_header_len ip_i in
      if ip_protocol ip_i = 6 then parse_tcp packet cap offset ip_i
      else if ip_protocol ip_i = 17 then parse_udp packet cap offset
      else Some (Some zero_transport))"

section \<open>Bounds\<close>

text \<open>What the VLAN loop returns on a captured prefix: every tag it consumes lies inside it.\<close>

lemma vlan_loop_bounds:
  assumes "unat cap \<le> length packet" "hlen \<le> unat cap"
  shows "\<exists>e h v. vlan_loop packet cap etype hlen v_id = Some (e, h, v) \<and>
           hlen \<le> h \<and> h \<le> unat cap \<and> (\<not> is_vlan_type e \<or> unat cap < h + 4) \<and>
           4 dvd (h - hlen) \<and> (h = hlen \<and> v = v_id \<or> unat v < 4096)"
  using assms
proof (induction packet cap etype hlen v_id rule: vlan_loop.induct)
  case (1 packet cap etype hlen v_id)
  show ?case
  proof (cases "is_vlan_type etype \<and> hlen + 4 \<le> unat cap")
    case True
    define tci where "tci = be16 (packet ! hlen) (packet ! (hlen + 1))"
    define et where "et = be16 (packet ! (hlen + 2)) (packet ! (hlen + 2 + 1))"
    have reads: "rd_be16 packet hlen = Some tci" "rd_be16 packet (hlen + 2) = Some et"
      using True "1.prems" by (simp_all add: rd_be16_Some tci_def et_def)
    have masked: "unat (tci AND 0x0FFF) < 4096"
    proof -
      have "tci AND 0x0FFF \<le> 0x0FFF" by (rule word_and_le1)
      then have "unat (tci AND 0x0FFF) \<le> unat (0x0FFF :: u16)" by (rule word_le_nat_alt [THEN iffD1])
      then show ?thesis by simp
    qed
    from "1.IH" [OF True reads] "1.prems" True obtain e h v where ehv:
      "vlan_loop packet cap et (hlen + 4) (tci AND 0x0FFF) = Some (e, h, v)"
      "hlen + 4 \<le> h" "h \<le> unat cap" "\<not> is_vlan_type e \<or> unat cap < h + 4"
      "4 dvd (h - (hlen + 4))" "h = hlen + 4 \<and> v = tci AND 0x0FFF \<or> unat v < 4096"
      by auto
    have "h - hlen = (h - (hlen + 4)) + 4" using ehv(2) by simp
    then have "4 dvd (h - hlen)" using ehv(5) by (metis dvd_add dvd_refl)
    moreover have "unat v < 4096" using ehv(6) masked by auto
    ultimately show ?thesis using True reads ehv
      by (simp add: vlan_loop.simps [of packet cap etype hlen v_id])
  next
    case False
    then show ?thesis using 1 by (auto simp: vlan_loop.simps [of packet cap etype hlen v_id])
  qed
qed

lemma parse_ethernet_bounds:
  assumes "unat cap \<le> length packet"
  obtains "unat cap < 14" "parse_ethernet_layer packet cap = Some None"
  | e where "14 \<le> unat cap" "parse_ethernet_layer packet cap = Some (Some e)"
      "14 \<le> eth_header_len e" "eth_header_len e \<le> unat cap" "4 dvd (eth_header_len e - 14)"
      "unat (eth_vlan_id e) < 4096"
      "\<not> is_vlan_type (eth_ether_type e) \<or> unat cap < eth_header_len e + 4"
proof (cases "unat cap < 14")
  case True
  then show ?thesis using that(1) by (simp add: parse_ethernet_layer_def)
next
  case False
  then obtain e h v where "vlan_loop packet cap (be16 (packet ! 12) (packet ! 13)) 14 0 = Some (e, h, v)"
    "14 \<le> h" "h \<le> unat cap" "\<not> is_vlan_type e \<or> unat cap < h + 4" "4 dvd (h - 14)"
    "unat v < 4096"
    using vlan_loop_bounds [OF assms, of 14 "be16 (packet ! 12) (packet ! 13)" 0] by fastforce
  then show ?thesis using False assms
    by (intro that(2)) (auto simp: parse_ethernet_layer_def rd_be16_Some)
qed

text \<open>The IP parser stays inside the captured bytes and so does the header it announces.\<close>

lemma parse_ipv4_bounds:
  assumes "unat cap \<le> length packet"
  shows "\<exists>r. parse_ipv4 packet cap eth_hlen = Some r \<and>
    (\<forall>i. r = Some i \<longrightarrow> ip_header i = eth_hlen \<and> 20 \<le> ip_header_len i \<and> ip_header_len i \<le> 60 \<and>
      4 dvd ip_header_len i \<and> eth_hlen + ip_header_len i \<le> unat cap \<and>
      length (ip_src i) = 16 \<and> length (ip_dst i) = 16 \<and> \<not> ip_is_ipv6 i)"
proof -
  have "(b0 :: byte) AND 0x0f \<le> 0x0f" for b0 by (rule word_and_le1)
  then have nib: "unat (b0 AND 0x0f) \<le> 15" for b0 :: byte
    using word_le_nat_alt [of "b0 AND 0x0f" "0x0f"] by simp
  show ?thesis using assms nib
    by (auto simp: parse_ipv4_def Let_def mem_simps)
qed

lemma parse_ipv6_bounds:
  assumes "unat cap \<le> length packet"
  shows "\<exists>r. parse_ipv6 packet cap eth_hlen = Some r \<and>
    (\<forall>i. r = Some i \<longrightarrow> ip_header i = eth_hlen \<and> ip_header_len i = 40 \<and>
      eth_hlen + 40 \<le> unat cap \<and>
      length (ip_src i) = 16 \<and> length (ip_dst i) = 16 \<and> ip_is_ipv6 i)"
  using assms by (auto simp: parse_ipv6_def mem_simps)

lemma parse_ip_bounds:
  assumes "unat cap \<le> length packet"
  obtains "parse_ip_layer packet cap eth_hlen = Some None"
  | i where "parse_ip_layer packet cap eth_hlen = Some (Some i)"
      "ip_header i = eth_hlen" "20 \<le> ip_header_len i" "ip_header_len i \<le> 60"
      "4 dvd ip_header_len i" "eth_hlen + ip_header_len i \<le> unat cap"
      "length (ip_src i) = 16" "length (ip_dst i) = 16" "ip_is_ipv6 i \<longrightarrow> ip_header_len i = 40"
proof (cases "unat cap < eth_hlen + 1")
  case True
  then show ?thesis using that(1) by (simp add: parse_ip_layer_def)
next
  case False
  then have b0: "rd packet eth_hlen = Some (packet ! eth_hlen)"
    using assms by (simp add: rd_def)
  obtain r4 where r4: "parse_ipv4 packet cap eth_hlen = Some r4"
    "\<forall>i. r4 = Some i \<longrightarrow> ip_header i = eth_hlen \<and> 20 \<le> ip_header_len i \<and> ip_header_len i \<le> 60 \<and>
      4 dvd ip_header_len i \<and> eth_hlen + ip_header_len i \<le> unat cap \<and>
      length (ip_src i) = 16 \<and> length (ip_dst i) = 16 \<and> \<not> ip_is_ipv6 i"
    using parse_ipv4_bounds [OF assms] by blast
  obtain r6 where r6: "parse_ipv6 packet cap eth_hlen = Some r6"
    "\<forall>i. r6 = Some i \<longrightarrow> ip_header i = eth_hlen \<and> ip_header_len i = 40 \<and>
      eth_hlen + 40 \<le> unat cap \<and> length (ip_src i) = 16 \<and> length (ip_dst i) = 16 \<and> ip_is_ipv6 i"
    using parse_ipv6_bounds [OF assms] by blast
  have "parse_ip_layer packet cap eth_hlen \<in> {Some None, Some r4, Some r6}"
    using False b0 r4(1) r6(1) by (simp add: parse_ip_layer_def Let_def)
  then consider "parse_ip_layer packet cap eth_hlen = Some None"
    | i where "parse_ip_layer packet cap eth_hlen = Some (Some i)" "r4 = Some i"
    | i where "parse_ip_layer packet cap eth_hlen = Some (Some i)" "r6 = Some i"
    by (cases r4; cases r6) auto
  then show ?thesis
  proof cases
    case 1
    then show ?thesis by (rule that(1))
  next
    case 2
    then show ?thesis using r4(2) by (intro that(2)) auto
  next
    case 3
    then show ?thesis using r6(2) by (intro that(2)) auto
  qed
qed

text \<open>The transport parser: the payload pointer it returns lies inside the captured bytes.\<close>

lemma parse_transport_bounds:
  assumes "unat cap \<le> length packet" "ip_header ip_i + 4 \<le> unat cap"
  obtains "parse_transport_layer packet cap eth_hlen ip_i = Some None"
  | t where "parse_transport_layer packet cap eth_hlen ip_i = Some (Some t)"
      "\<forall>q. t_payload_ptr t = Some q \<longrightarrow> eth_hlen + ip_header_len ip_i + 8 \<le> q \<and> q \<le> unat cap"
      "ip_protocol ip_i = 6 \<Longrightarrow> \<exists>q. t_payload_ptr t = Some q \<and>
         eth_hlen + ip_header_len ip_i + 20 \<le> q \<and> q \<le> eth_hlen + ip_header_len ip_i + 60"
      "ip_protocol ip_i = 17 \<Longrightarrow> t_payload_ptr t = Some (eth_hlen + ip_header_len ip_i + 8)"
      "ip_protocol ip_i \<noteq> 6 \<Longrightarrow> ip_protocol ip_i \<noteq> 17 \<Longrightarrow> t = zero_transport"
proof -
  have "(b :: byte) AND 0x0f \<le> 0x0f" for b by (rule word_and_le1)
  then have nib: "unat (drop_bit 4 b AND 0x0f) \<le> 15" for b :: byte
    using word_le_nat_alt [of "drop_bit 4 b AND 0x0f" "0x0f"] by simp
  define off where "off = eth_hlen + ip_header_len ip_i"
  consider (tcp) "ip_protocol ip_i = 6" | (udp) "ip_protocol ip_i = 17"
    | (other) "ip_protocol ip_i \<noteq> 6" "ip_protocol ip_i \<noteq> 17" by blast
  then show ?thesis
  proof cases
    case tcp
    have "parse_tcp packet cap off ip_i = Some None \<or>
      (\<exists>t q. parse_tcp packet cap off ip_i = Some (Some t) \<and> t_payload_ptr t = Some q \<and>
         off + 20 \<le> q \<and> q \<le> off + 60 \<and> q \<le> unat cap)"
      using assms nib by (auto simp: parse_tcp_def Let_def mem_simps)
    then show ?thesis using tcp that
      by (fastforce simp: parse_transport_layer_def Let_def off_def)
  next
    case udp
    have "parse_udp packet cap off = Some None \<or>
      (\<exists>t. parse_udp packet cap off = Some (Some t) \<and> t_payload_ptr t = Some (off + 8) \<and>
         off + 8 \<le> unat cap)"
      using assms by (auto simp: parse_udp_def mem_simps)
    then show ?thesis using udp that
      by (fastforce simp: parse_transport_layer_def Let_def off_def)
  next
    case other
    then show ?thesis using that(2)
      by (simp add: parse_transport_layer_def zero_transport_def Let_def)
  qed
qed

section \<open>What the parsers recover from well-formed headers\<close>

text \<open>A frame with any number of VLAN tags: \<^verbatim>\<open>vlan_tail\<close> is what follows the first type field.\<close>

fun vlan_type :: "(u16 \<times> u16) list \<Rightarrow> u16 \<Rightarrow> u16" where
  "vlan_type [] et = et"
| "vlan_type ((tpid, tci) # tags) et = tpid"

fun vlan_tail :: "(u16 \<times> u16) list \<Rightarrow> u16 \<Rightarrow> byte list" where
  "vlan_tail [] et = []"
| "vlan_tail ((tpid, tci) # tags) et =
     be16_bytes tci @ be16_bytes (vlan_type tags et) @ vlan_tail tags et"

fun vlan_last :: "(u16 \<times> u16) list \<Rightarrow> u16 \<Rightarrow> u16" where
  "vlan_last [] v = v"
| "vlan_last ((tpid, tci) # tags) v = vlan_last tags (tci AND 0x0FFF)"

definition tagged_frame :: "byte list \<Rightarrow> (u16 \<times> u16) list \<Rightarrow> u16 \<Rightarrow> byte list \<Rightarrow> byte list" where
  "tagged_frame macs tags et rest = macs @ be16_bytes (vlan_type tags et) @ vlan_tail tags et @ rest"

lemma length_vlan_tail [simp]: "length (vlan_tail tags et) = 4 * length tags"
  by (induction tags et rule: vlan_tail.induct) auto

lemma vlan_loop_tags:
  assumes "\<forall>(tpid, tci) \<in> set tags. is_vlan_type tpid" "\<not> is_vlan_type et"
    "length pre + 4 * length tags \<le> unat cap"
  shows "vlan_loop (pre @ vlan_tail tags et @ rest) cap (vlan_type tags et) (length pre) v =
    Some (et, length pre + 4 * length tags, vlan_last tags v)"
  using assms
proof (induction tags arbitrary: pre v)
  case Nil
  then show ?case by (simp add: vlan_loop.simps)
next
  case (Cons tag tags)
  obtain tpid tci where tag: "tag = (tpid, tci)" by (cases tag)
  define pre' where "pre' = pre @ be16_bytes tci @ be16_bytes (vlan_type tags et)"
  have pk: "pre @ vlan_tail (tag # tags) et @ rest = pre' @ vlan_tail tags et @ rest"
    by (simp add: tag pre'_def)
  have r1: "rd_be16 (pre' @ vlan_tail tags et @ rest) (length pre) = Some tci"
    using rd_be16_at [of pre tci "be16_bytes (vlan_type tags et) @ vlan_tail tags et @ rest"]
    by (simp add: pre'_def)
  have r2: "rd_be16 (pre' @ vlan_tail tags et @ rest) (length pre + 2) = Some (vlan_type tags et)"
    using rd_be16_at [of "pre @ be16_bytes tci" "vlan_type tags et" "vlan_tail tags et @ rest"]
    by (simp add: pre'_def)
  have l: "length pre' = length pre + 4" by (simp add: pre'_def)
  have "vlan_loop (pre' @ vlan_tail tags et @ rest) cap (vlan_type tags et) (length pre') (tci AND 0x0FFF) =
    Some (et, length pre' + 4 * length tags, vlan_last tags (tci AND 0x0FFF))"
    using Cons.prems l by (intro Cons.IH) (auto simp: tag)
  then show ?case using Cons.prems r1 r2 l
    unfolding pk by (simp add: tag vlan_loop.simps [of _ _ tpid "length pre"] del: rd_be16_skip)
qed

text \<open>An IPv4 header, \<^verbatim>\<open>opts\<close> its options; a TCP header; a UDP header.\<close>

definition ipv4_header ::
  "byte \<Rightarrow> u16 \<Rightarrow> u16 \<Rightarrow> u16 \<Rightarrow> byte \<Rightarrow> byte \<Rightarrow> u16 \<Rightarrow> byte list \<Rightarrow> byte list \<Rightarrow> byte list \<Rightarrow> byte list" where
  "ipv4_header tos len idv off ttl proto csum src dst opts =
     [0x40 + of_nat (5 + length opts div 4), tos] @ be16_bytes len @ be16_bytes idv @
     be16_bytes off @ [ttl, proto] @ be16_bytes csum @ src @ dst @ opts"

definition tcp_header ::
  "u16 \<Rightarrow> u16 \<Rightarrow> u32 \<Rightarrow> u32 \<Rightarrow> byte \<Rightarrow> u16 \<Rightarrow> u16 \<Rightarrow> u16 \<Rightarrow> byte list \<Rightarrow> byte list" where
  "tcp_header sp dp sq ak fl win csum urg opts =
     be16_bytes sp @ be16_bytes dp @ be32_bytes sq @ be32_bytes ak @
     [of_nat (16 * (5 + length opts div 4)), fl] @ be16_bytes win @ be16_bytes csum @
     be16_bytes urg @ opts"

definition udp_header :: "u16 \<Rightarrow> u16 \<Rightarrow> u16 \<Rightarrow> u16 \<Rightarrow> byte list" where
  "udp_header sp dp ulen csum = be16_bytes sp @ be16_bytes dp @ be16_bytes ulen @ be16_bytes csum"

lemma le10_cases:
  "(k :: nat) \<le> 10 \<Longrightarrow> k \<in> {0, 1, 2, 3, 4, 5, 6, 7, 8, 9, 10}"
  by (simp add: le_eq_less_or_eq less_Suc_eq numeral_eq_Suc)

lemma ip_version_nibbles:
  assumes "k \<le> 10"
  shows "drop_bit 4 (0x40 + of_nat (5 + k) :: byte) AND 0x0f = 4"
    "unat ((0x40 + of_nat (5 + k) :: byte) AND 0x0f) = 5 + k"
proof -
  from le10_cases [OF assms] show "drop_bit 4 (0x40 + of_nat (5 + k) :: byte) AND 0x0f = 4"
    "unat ((0x40 + of_nat (5 + k) :: byte) AND 0x0f) = 5 + k"
    by (elim insertE; simp)+
qed

lemma tcp_offset_nibble:
  assumes "k \<le> 10"
  shows "unat (drop_bit 4 (of_nat (16 * (5 + k)) :: byte) AND 0x0f) = 5 + k"
proof -
  from le10_cases [OF assms] show ?thesis by (elim insertE; simp)
qed

lemma parse_ipv4_header:
  assumes "length src = 4" "length dst = 4" "4 dvd length opts" "length opts \<le> 40"
    and "length pre + 20 + length opts \<le> unat cap"
  shows "parse_ip_layer (pre @ ipv4_header tos len idv off ttl proto csum src dst opts @ rest)
      cap (length pre) =
    Some (Some \<lparr>ip_header = length pre, ip_header_len = 20 + length opts,
      ip_src = replicate 12 0 @ src, ip_dst = replicate 12 0 @ dst, ip_protocol = proto,
      ip_ttl_f = ttl, ip_tos_f = tos, ip_id_f = idv, ip_is_ipv6 = False,
      ip_is_fragment = (off AND 0x3fff \<noteq> 0)\<rparr>)"
proof -
  obtain a b c d where src: "src = [a, b, c, d]" using assms(1) by (rule length4E)
  obtain a' b' c' d' where dst: "dst = [a', b', c', d']" using assms(2) by (rule length4E)
  obtain k where k: "length opts = 4 * k" "k \<le> 10" using assms(3,4) by (auto elim!: dvdE)
  show ?thesis using assms(5) k(1) ip_version_nibbles [OF k(2)]
    by (simp add: parse_ip_layer_def parse_ipv4_def ipv4_header_def src dst Let_def be16_bytes_def)
qed

lemma parse_tcp_header:
  assumes "4 dvd length opts" "length opts \<le> 40"
    and "length pre + 20 + length opts \<le> unat cap"
    and "rd_be16 (pre @ tcp_header sp dp sq ak fl win csum urg opts @ rest) (ip_header ip_i + 2) = Some len"
  shows "parse_tcp (pre @ tcp_header sp dp sq ak fl win csum urg opts @ rest) cap (length pre) ip_i =
    Some (Some (zero_transport\<lparr>t_src_port := sp, t_dst_port := dp, t_seq := sq, t_ack := ak,
      t_window := win, t_flags := fl, t_payload_ptr := Some (length pre + 20 + length opts),
      t_payload_len := int (unat len) - int (ip_header_len ip_i) - int (20 + length opts)\<rparr>))"
proof -
  obtain k where k: "length opts = 4 * k" "k \<le> 10" using assms(1,2) by (auto elim!: dvdE)
  show ?thesis using assms(3,4) k(1) tcp_offset_nibble [OF k(2)]
    by (simp add: parse_tcp_def tcp_header_def Let_def be16_bytes_def be32_bytes_def)
qed

text \<open>The two parsers on whole frames: VLAN tags, and a TCP segment in an IPv4 packet.\<close>

lemma parse_tagged_frame:
  assumes "length macs = 12" "\<forall>(tpid, tci) \<in> set tags. is_vlan_type tpid" "\<not> is_vlan_type et"
    and "14 + 4 * length tags \<le> unat cap"
  shows "parse_ethernet_layer (tagged_frame macs tags et rest) cap =
    Some (Some \<lparr>eth_header = 0, eth_header_len = 14 + 4 * length tags, eth_ether_type = et,
      eth_vlan_id = vlan_last tags 0\<rparr>)"
proof -
  define pre where "pre = macs @ be16_bytes (vlan_type tags et)"
  have l: "length pre = 14" using assms(1) by (simp add: pre_def)
  have frame: "tagged_frame macs tags et rest = pre @ vlan_tail tags et @ rest"
    by (simp add: tagged_frame_def pre_def)
  have "rd_be16 (tagged_frame macs tags et rest) 12 = Some (vlan_type tags et)"
    using rd_be16_at [of macs "vlan_type tags et" "vlan_tail tags et @ rest"] assms(1)
    by (simp add: tagged_frame_def)
  then show ?thesis
    using vlan_loop_tags [OF assms(2,3), of pre cap rest 0] assms(4)
    by (simp add: parse_ethernet_layer_def l frame)
qed

lemma vlan_last_eq: "vlan_last tags v = (if tags = [] then v else snd (last tags) AND 0x0FFF)"
  by (induction tags v rule: vlan_last.induct) auto

lemma parse_tcp_segment:
  assumes "length src = 4" "length dst = 4" "4 dvd length ipopts" "length ipopts \<le> 40"
    and "4 dvd length opts" "length opts \<le> 40"
    and "length pre + 40 + length ipopts + length opts \<le> unat cap"
    and "frame = pre @ ipv4_header tos len idv off ttl 6 ipsum src dst ipopts @
           tcp_header sp dp sq ak fl win csum urg opts @ rest"
    and "ip = \<lparr>ip_header = length pre, ip_header_len = 20 + length ipopts,
      ip_src = replicate 12 0 @ src, ip_dst = replicate 12 0 @ dst, ip_protocol = 6,
      ip_ttl_f = ttl, ip_tos_f = tos, ip_id_f = idv, ip_is_ipv6 = False,
      ip_is_fragment = (off AND 0x3fff \<noteq> 0)\<rparr>"
  shows "parse_ip_layer frame cap (length pre) = Some (Some ip)"
    and "parse_transport_layer frame cap (length pre) ip =
    Some (Some (zero_transport\<lparr>t_src_port := sp, t_dst_port := dp, t_seq := sq, t_ack := ak,
      t_window := win, t_flags := fl,
      t_payload_ptr := Some (length pre + 40 + length ipopts + length opts),
      t_payload_len := int (unat len) - 40 - int (length ipopts) - int (length opts)\<rparr>))"
proof -
  define hdr where "hdr = ipv4_header tos len idv off ttl 6 ipsum src dst ipopts"
  have lh: "length hdr = 20 + length ipopts"
    using assms(1,2) by (simp add: hdr_def ipv4_header_def)
  have frame: "frame = (pre @ hdr) @ tcp_header sp dp sq ak fl win csum urg opts @ rest"
    by (simp add: assms(8) hdr_def)
  show "parse_ip_layer frame cap (length pre) = Some (Some ip)"
    using parse_ipv4_header [OF assms(1-4), of pre cap tos len idv off ttl 6 ipsum] assms(7)
    by (simp add: assms(8,9))
  have "rd_be16 frame (length pre + 2) = Some len"
    by (simp add: assms(8) ipv4_header_def be16_bytes_def)
  then have len: "rd_be16 ((pre @ hdr) @ tcp_header sp dp sq ak fl win csum urg opts @ rest)
      (ip_header ip + 2) = Some len"
    by (simp add: frame assms(9))
  have "length (pre @ hdr) + 20 + length opts \<le> unat cap"
    using assms(7) lh by simp
  from parse_tcp_header [OF assms(5,6) this len]
  show "parse_transport_layer frame cap (length pre) ip =
    Some (Some (zero_transport\<lparr>t_src_port := sp, t_dst_port := dp, t_seq := sq, t_ack := ak,
      t_window := win, t_flags := fl,
      t_payload_ptr := Some (length pre + 40 + length ipopts + length opts),
      t_payload_len := int (unat len) - 40 - int (length ipopts) - int (length opts)\<rparr>))"
    by (simp add: parse_transport_layer_def Let_def frame assms(9) lh add.assoc algebra_simps)
qed

section \<open>Properties\<close>

text \<open>C22: however many bytes a frame has, on a packet array that holds all captured bytes
  the three header parsers never read outside the array, fail only by \<^verbatim>\<open>nullopt\<close>, and announce
  headers and a payload pointer that lie inside the captured bytes.\<close>

theorem header_parsers_in_bounds:
  assumes "unat cap \<le> length packet"
  shows "\<exists>e. parse_ethernet_layer packet cap = Some e \<and>
    (case e of None \<Rightarrow> unat cap < 14 | Some eth \<Rightarrow>
      14 \<le> eth_header_len eth \<and> eth_header_len eth \<le> unat cap \<and> unat (eth_vlan_id eth) < 4096 \<and>
      (\<exists>i. parse_ip_layer packet cap (eth_header_len eth) = Some i \<and>
        (case i of None \<Rightarrow> True | Some ip \<Rightarrow>
          20 \<le> ip_header_len ip \<and> eth_header_len eth + ip_header_len ip \<le> unat cap \<and>
          (\<exists>t. parse_transport_layer packet cap (eth_header_len eth) ip = Some t \<and>
            (case t of None \<Rightarrow> True | Some tr \<Rightarrow>
              \<forall>q. t_payload_ptr tr = Some q \<longrightarrow> q \<le> unat cap)))))"
proof (rule parse_ethernet_bounds [OF assms])
  assume "unat cap < 14" "parse_ethernet_layer packet cap = Some None"
  then show ?thesis by simp
next
  fix e
  assume e: "parse_ethernet_layer packet cap = Some (Some e)" "14 \<le> eth_header_len e"
    "eth_header_len e \<le> unat cap" "unat (eth_vlan_id e) < 4096"
  show ?thesis
  proof (rule parse_ip_bounds [OF assms, of "eth_header_len e"])
    assume "parse_ip_layer packet cap (eth_header_len e) = Some None"
    then show ?thesis using e by simp
  next
    fix i
    assume i: "parse_ip_layer packet cap (eth_header_len e) = Some (Some i)"
      "ip_header i = eth_header_len e" "20 \<le> ip_header_len i"
      "eth_header_len e + ip_header_len i \<le> unat cap"
    then have h: "ip_header i + 4 \<le> unat cap" by simp
    show ?thesis
      by (rule parse_transport_bounds [OF assms h, of "eth_header_len e"]) (use e i in auto)
  qed
qed

theorem header_parsers_in_bounds_witness:
  "unat (60 :: u32) \<le> length (replicate 60 (0 :: byte)) \<and>
   (\<exists>e. parse_ethernet_layer (replicate 60 0) 60 = Some e)"
  using header_parsers_in_bounds [of 60 "replicate 60 0"] by auto

text \<open>A frame with any stack of 802.1Q or 802.1ad tags is parsed to the inner Ethernet type,
  a header length of 14 bytes plus 4 per tag, and the 12-bit VLAN id of the innermost tag.\<close>

theorem parse_ethernet_tags:
  assumes "length macs = 12" "\<forall>(tpid, tci) \<in> set tags. is_vlan_type tpid" "\<not> is_vlan_type et"
    and "14 + 4 * length tags \<le> unat cap"
  shows "parse_ethernet_layer (tagged_frame macs tags et rest) cap =
    Some (Some \<lparr>eth_header = 0, eth_header_len = 14 + 4 * length tags, eth_ether_type = et,
      eth_vlan_id = (if tags = [] then 0 else snd (last tags) AND 0x0FFF)\<rparr>)"
  by (simp add: parse_tagged_frame [OF assms] vlan_last_eq)

theorem parse_ethernet_tags_example:
  "parse_ethernet_layer (tagged_frame (replicate 12 0) [(0x88a8, 0x6064), (0x8100, 0xA00C)] 0x0800 []) 22 =
    Some (Some \<lparr>eth_header = 0, eth_header_len = 22, eth_ether_type = 0x0800, eth_vlan_id = 12\<rparr>)"
  using parse_ethernet_tags [where macs = "replicate 12 0" and et = "0x0800" and cap = 22 and rest = "[]"
      and tags = "[(0x88a8, 0x6064), (0x8100, 0xA00C)]"]
  by (simp add: is_vlan_type_def)

text \<open>C23: from a TCP segment in an IPv4 packet under any stack of VLAN tags, with its headers captured
  whole, the three parsers, each started at the offset that the one before it returned, recover the
  inner type and the VLAN of the last tag, the addresses, ports, sequence and acknowledgement
  numbers, window and flags that were encoded, the payload pointer just behind the TCP options,
  and the payload length that the IP total length announces.\<close>

theorem parse_tcp_over_ipv4:
  assumes "length macs = 12" "\<forall>(tpid, tci) \<in> set tags. is_vlan_type tpid"
    and "length src = 4" "length dst = 4" "4 dvd length ipopts" "length ipopts \<le> 40"
    and "4 dvd length opts" "length opts \<le> 40"
    and "54 + 4 * length tags + length ipopts + length opts \<le> unat cap"
    and "frame = tagged_frame macs tags 0x0800 (ipv4_header tos len idv off ttl 6 ipsum src dst ipopts @
           tcp_header sp dp sq ak fl win csum urg opts @ rest)"
  shows "\<exists>eth ip t. parse_ethernet_layer frame cap = Some (Some eth) \<and>
    eth_ether_type eth = 0x0800 \<and> eth_vlan_id eth = vlan_last tags 0 \<and>
    parse_ip_layer frame cap (eth_header_len eth) = Some (Some ip) \<and>
    parse_transport_layer frame cap (eth_header_len eth) ip = Some (Some t) \<and>
    ip_src ip = replicate 12 0 @ src \<and> ip_dst ip = replicate 12 0 @ dst \<and> ip_protocol ip = 6 \<and>
    (ip_is_fragment ip \<longleftrightarrow> off AND 0x3fff \<noteq> 0) \<and>
    t_src_port t = sp \<and> t_dst_port t = dp \<and> t_seq t = sq \<and> t_ack t = ak \<and>
    t_window t = win \<and> t_flags t = fl \<and>
    t_payload_ptr t = Some (54 + 4 * length tags + length ipopts + length opts) \<and>
    t_payload_len t = int (unat len) - 40 - int (length ipopts) - int (length opts)"
proof -
  define pre where "pre = macs @ be16_bytes (vlan_type tags 0x0800) @ vlan_tail tags 0x0800"
  have l: "length pre = 14 + 4 * length tags" using assms(1) by (simp add: pre_def)
  have frame: "frame = pre @ ipv4_header tos len idv off ttl 6 ipsum src dst ipopts @
      tcp_header sp dp sq ak fl win csum urg opts @ rest"
    by (simp add: assms(10) tagged_frame_def pre_def)
  have fits: "length pre + 40 + length ipopts + length opts \<le> unat cap" using assms(9) by (simp add: l)
  have "parse_ethernet_layer frame cap = Some (Some \<lparr>eth_header = 0, eth_header_len = length pre,
      eth_ether_type = 0x0800, eth_vlan_id = vlan_last tags 0\<rparr>)"
    unfolding assms(10) l by (rule parse_tagged_frame [OF assms(1,2)]) (use assms(9) in \<open>simp_all add: is_vlan_type_def\<close>)
  then show ?thesis using parse_tcp_segment [OF assms(3-8) fits frame refl] by (simp add: l)
qed

lemma dvd_Suc4: "(4 :: nat) dvd Suc (Suc (Suc (Suc 0)))"
  by (simp add: numeral_eq_Suc)

definition sample_segment :: "byte list" where
  "sample_segment = tagged_frame (replicate 12 1) [(0x88a8, 0x6064), (0x8100, 0xA00C)] 0x0800
     (ipv4_header 0 46 7 0x4000 64 6 0 [10, 0, 0, 1] [10, 0, 0, 2] [] @ tcp_header 49152 443 1 2 0x18 512 0 0 [2, 4, 5, 180] @ [65, 66])"

theorem parse_tcp_over_ipv4_witness:
  "\<exists>eth ip t. parse_ethernet_layer sample_segment 68 = Some (Some eth) \<and> eth_vlan_id eth = vlan_last [(0x88a8, 0x6064), (0x8100, 0xA00C)] 0 \<and>
    parse_ip_layer sample_segment 68 (eth_header_len eth) = Some (Some ip) \<and>
    parse_transport_layer sample_segment 68 (eth_header_len eth) ip = Some (Some t) \<and>
    t_dst_port t = 443 \<and> t_payload_ptr t = Some 66 \<and> t_payload_len t = 2"
  using parse_tcp_over_ipv4 [OF _ _ _ _ _ _ _ _ _ sample_segment_def, of 68]
  by (simp add: dvd_Suc4 is_vlan_type_def del: vlan_last.simps) blast

end
