(* ===== verification/Tcp_Options.thy ===== *)
theory Tcp_Options
  imports Packet_Types
begin

text \<open>
  The TCP option walkers \<^verbatim>\<open>parse_tcp_options\<close> (\<^verbatim>\<open>cpp/packet_capture.cpp\<close>) and
  \<^verbatim>\<open>parse_tcp_options_extended\<close> (\<^verbatim>\<open>cpp/protocol_dissectors.cpp\<close>), and \<^verbatim>\<open>check_tcp_anomalies\<close>.
  Shown here: both walkers stop and stay inside the TCP header, the two agree on the
  fields they share, and the extended one recovers every option of a well-formed list.
\<close>

section \<open>The walkers\<close>

definition tcp_opt_basic ::
  "byte list \<Rightarrow> nat \<Rightarrow> byte \<Rightarrow> byte \<Rightarrow> transport_info \<Rightarrow> transport_info option" where
  "tcp_opt_basic opts i kind len t =
     (if kind = 2 \<and> len = 4 then do { v \<leftarrow> rd_be16 opts (i + 2); Some (t\<lparr>t_mss := v\<rparr>) }
      else if kind = 3 \<and> len = 3 then do { v \<leftarrow> rd opts (i + 2); Some (t\<lparr>t_ws := v\<rparr>) }
      else if kind = 29 then Some (t\<lparr>t_has_ao := True\<rparr>)
      else Some t)"

function tcp_opts_loop ::
  "byte list \<Rightarrow> nat \<Rightarrow> nat \<Rightarrow> transport_info \<Rightarrow> transport_info option" where
  "tcp_opts_loop opts opt_len i t =
     (if i < opt_len then do {
        kind \<leftarrow> rd opts i;
        if kind = 0 then Some t
        else if kind = 1 then tcp_opts_loop opts opt_len (i + 1) t
        else if i + 1 \<ge> opt_len then Some t
        else do {
          len \<leftarrow> rd opts (i + 1);
          if unat len < 2 \<or> i + unat len > opt_len then Some t
          else do {
            t' \<leftarrow> tcp_opt_basic opts i kind len t;
            tcp_opts_loop opts opt_len (i + unat len) t' } } }
      else Some t)"
  by pat_completeness auto
termination
  by (relation "measure (\<lambda>(opts, opt_len, i, t). opt_len - i)") auto

definition parse_tcp_options ::
  "byte list \<Rightarrow> nat \<Rightarrow> nat \<Rightarrow> transport_info \<Rightarrow> transport_info option" where
  "parse_tcp_options packet offset tcp_hlen t =
     (if tcp_hlen \<le> 20 then Some t
      else tcp_opts_loop (drop (offset + 20) packet) (tcp_hlen - 20) 0 t)"

text \<open>A plain \<^verbatim>\<open>memcpy\<close> of option bytes into \<^verbatim>\<open>uint32_t tcp_sack_edges[8]\<close>: little-endian words.\<close>

fun le32s :: "byte list \<Rightarrow> u32 list" where
  "le32s (a # b # c # d # r) = le32 a b c d # le32s r"
| "le32s _ = []"

definition tcp_opt_extended ::
  "byte list \<Rightarrow> nat \<Rightarrow> byte \<Rightarrow> byte \<Rightarrow> packet_info \<Rightarrow> packet_info option" where
  "tcp_opt_extended opts k kind l i =
     (if kind = 2 \<and> l = 4 then do { v \<leftarrow> rd_be16 opts (k + 2); Some (i\<lparr>tcp_mss := v\<rparr>) }
      else if kind = 3 \<and> l = 3 then do { v \<leftarrow> rd opts (k + 2); Some (i\<lparr>tcp_ws := v\<rparr>) }
      else if kind = 4 \<and> l = 2 then Some (i\<lparr>tcp_sack := 1\<rparr>)
      else if kind = 5 \<and> unat l \<ge> 10 then do {
        let blocks = min ((unat l - 2) div 8) 4;
        bs \<leftarrow> rd_bytes opts (k + 2) (blocks * 8);
        Some (i\<lparr>tcp_sack_edges := le32s bs @ drop (2 * blocks) (tcp_sack_edges i)\<rparr>) }
      else if kind = 8 \<and> l = 10 then do {
        v \<leftarrow> rd_be32 opts (k + 2);
        e \<leftarrow> rd_be32 opts (k + 6);
        Some (i\<lparr>tcp_ts_val := v, tcp_ts_ecr := e\<rparr>) }
      else if kind = 29 then Some (i\<lparr>has_tcp_ao := 1\<rparr>)
      else Some i)"

function tcp_opts_ext_loop ::
  "byte list \<Rightarrow> nat \<Rightarrow> nat \<Rightarrow> packet_info \<Rightarrow> packet_info option" where
  "tcp_opts_ext_loop opts len k i =
     (if k < len then do {
        kind \<leftarrow> rd opts k;
        if kind = 0 then Some i
        else if kind = 1 then tcp_opts_ext_loop opts len (k + 1) i
        else if k + 1 \<ge> len then Some i
        else do {
          l \<leftarrow> rd opts (k + 1);
          if unat l < 2 \<or> k + unat l > len then Some i
          else do {
            i' \<leftarrow> tcp_opt_extended opts k kind l i;
            tcp_opts_ext_loop opts len (k + unat l) i' } } }
      else Some i)"
  by pat_completeness auto
termination
  by (relation "measure (\<lambda>(opts, len, k, i). len - k)") auto

declare tcp_opts_loop.simps [simp del] tcp_opts_ext_loop.simps [simp del]

definition parse_tcp_options_extended ::
  "byte list \<Rightarrow> nat \<Rightarrow> nat \<Rightarrow> packet_info \<Rightarrow> packet_info option" where
  "parse_tcp_options_extended p off h i =
     (if h \<le> 20 then Some i
      else tcp_opts_ext_loop (drop (off + 20) p) (h - 20) 0 i)"

section \<open>Anomalies\<close>

definition check_tcp_anomalies :: "packet_info \<Rightarrow> transport_info \<Rightarrow> packet_info option" where
  "check_tcp_anomalies info t =
     (if t_window t = 0 \<and> t_flags t AND 0x10 \<noteq> 0 \<and> \<not> (t_flags t AND (0x02 OR 0x01 OR 0x04) \<noteq> 0)
      then do { o' \<leftarrow> snprintf (extra_info info) 128 (lit ''TCP ZeroWindow'');
                Some (info\<lparr>extra_info := o'\<rparr>) }
      else if payload_len info = 1 \<and> t_seq t + 1 = tcp_seq info \<and>
              \<not> (t_flags t AND (0x02 OR 0x01 OR 0x04) \<noteq> 0)
      then do { o' \<leftarrow> snprintf (extra_info info) 128 (lit ''TCP Keep-Alive'');
                Some (info\<lparr>extra_info := o'\<rparr>) }
      else Some info)"

section \<open>The two walkers agree\<close>

definition opts_agree :: "transport_info \<Rightarrow> packet_info \<Rightarrow> bool" where
  "opts_agree t i \<longleftrightarrow> t_mss t = tcp_mss i \<and> t_ws t = tcp_ws i \<and> (t_has_ao t \<longleftrightarrow> has_tcp_ao i = 1)"

text \<open>One option: inside the option area neither walker faults, and agreement is kept.\<close>

lemma tcp_opt_agree:
  assumes "opts_agree t i" "2 \<le> unat l" "k + unat l \<le> length opts"
  shows "\<exists>t' i'. tcp_opt_basic opts k kind l t = Some t' \<and>
     tcp_opt_extended opts k kind l i = Some i' \<and> opts_agree t' i'"
proof -
  have "(unat l - 2) div 8 * 8 \<le> unat l - 2" by simp
  then have "min ((unat l - 2) div 8) 4 * 8 \<le> unat l - 2"
    by (metis min.cobounded1 mult_le_mono1 order_trans)
  then have sack: "k + 2 + min ((unat l - 2) div 8) 4 * 8 \<le> length opts"
    using assms(2,3) by linarith
  show ?thesis
    using assms sack
    by (auto simp: tcp_opt_basic_def tcp_opt_extended_def opts_agree_def Let_def mem_simps)
qed

lemma tcp_opts_loops_agree:
  assumes "opts_agree t i" "len \<le> length opts"
  shows "\<exists>t' i'. tcp_opts_loop opts len k t = Some t' \<and>
     tcp_opts_ext_loop opts len k i = Some i' \<and> opts_agree t' i'"
  using assms
proof (induction opts len k t arbitrary: i rule: tcp_opts_loop.induct)
  case (1 opts len k t)
  note unfold = tcp_opts_loop.simps [of opts len k t] tcp_opts_ext_loop.simps [of opts len k i]
  show ?case
  proof (cases "k < len")
    case False
    then show ?thesis using "1.prems" by (simp add: unfold)
  next
    case True
    then have kind: "rd opts k = Some (opts ! k)" using "1.prems" by (simp add: rd_def)
    consider "opts ! k = 0 \<or> opts ! k \<noteq> 1 \<and> k + 1 \<ge> len" | "opts ! k = 1"
      | "opts ! k \<noteq> 0" "opts ! k \<noteq> 1" "\<not> k + 1 \<ge> len" by blast
    then show ?thesis
    proof cases
      case 1
      then show ?thesis using "1.prems" True kind by (auto simp: unfold)
    next
      case 2
      then show ?thesis using "1.IH"(1) [OF True kind] "1.prems" True kind by (simp add: unfold)
    next
      case 3
      define l where "l = opts ! (k + 1)"
      have l: "rd opts (k + 1) = Some l" using 3 "1.prems" by (simp add: rd_def l_def)
      show ?thesis
      proof (cases "unat l < 2 \<or> k + unat l > len")
        case True
        then show ?thesis using 3 l kind \<open>k < len\<close> "1.prems" by (simp add: unfold)
      next
        case False
        then obtain t' i' where step: "tcp_opt_basic opts k (opts ! k) l t = Some t'"
          "tcp_opt_extended opts k (opts ! k) l i = Some i'" "opts_agree t' i'"
          using tcp_opt_agree [OF "1.prems"(1), of l k opts] "1.prems"(2) by fastforce
        then show ?thesis
          using "1.IH"(2) [OF True kind 3 l False step(1) step(3) "1.prems"(2)] 3 l kind True False
          by (simp add: unfold)
      qed
    qed
  qed
qed

section \<open>What the extended walker keeps\<close>

lemma length_le32s: "length (le32s bs) = length bs div 4"
proof (induction bs rule: le32s.induct)
  case (1 a b c d r)
  have "length (a # b # c # d # r) = length r + 4" by simp
  then show ?case using 1 by (metis add.commute div_add_self2 le32s.simps(1) length_Cons plus_1_eq_Suc zero_neq_numeral)
qed simp_all

lemma tcp_opt_extended_keeps:
  assumes "tcp_opt_extended opts k kind l i = Some i'"
  shows "(info_ok i \<longrightarrow> info_ok i') \<and> core i' = core i"
  using assms unfolding tcp_opt_extended_def Let_def
  by (elim run_elims) (auto simp: rd_bytes_def length_le32s info_ok_def split: if_splits)

lemma tcp_opts_ext_loop_keeps:
  "tcp_opts_ext_loop opts len k i = Some i' \<Longrightarrow> (info_ok i \<longrightarrow> info_ok i') \<and> core i' = core i"
proof (induction opts len k i rule: tcp_opts_ext_loop.induct)
  case (1 opts len k i)
  then show ?case
    by (subst (asm) (3) tcp_opts_ext_loop.simps)
      (fastforce simp: bind_eq_Some_conv dest: tcp_opt_extended_keeps split: if_splits)
qed

lemma parse_tcp_options_extended_keeps:
  "parse_tcp_options_extended p off h i = Some i' \<Longrightarrow>
   (info_ok i \<longrightarrow> info_ok i') \<and> core i' = core i"
  by (auto simp: parse_tcp_options_extended_def dest: tcp_opts_ext_loop_keeps split: if_splits)

section \<open>Option lists\<close>

datatype tcp_option =
    Nop
  | Mss u16
  | Window_Scale byte
  | Sack_Permitted
  | Sack_Blocks "byte list"
  | Timestamps u32 u32
  | Auth_Option "byte list"

fun option_ok :: "tcp_option \<Rightarrow> bool" where
  "option_ok (Sack_Blocks bs) \<longleftrightarrow> 8 dvd length bs \<and> 8 \<le> length bs \<and> length bs \<le> 32"
| "option_ok (Auth_Option bs) \<longleftrightarrow> length bs \<le> 38"
| "option_ok _ \<longleftrightarrow> True"

fun option_bytes :: "tcp_option \<Rightarrow> byte list" where
  "option_bytes Nop = [1]"
| "option_bytes (Mss m) = [2, 4] @ be16_bytes m"
| "option_bytes (Window_Scale w) = [3, 3, w]"
| "option_bytes Sack_Permitted = [4, 2]"
| "option_bytes (Sack_Blocks bs) = [5, of_nat (2 + length bs)] @ bs"
| "option_bytes (Timestamps v e) = [8, 10] @ be32_bytes v @ be32_bytes e"
| "option_bytes (Auth_Option bs) = [29, of_nat (2 + length bs)] @ bs"

fun option_effect :: "tcp_option \<Rightarrow> packet_info \<Rightarrow> packet_info" where
  "option_effect Nop i = i"
| "option_effect (Mss m) i = i\<lparr>tcp_mss := m\<rparr>"
| "option_effect (Window_Scale w) i = i\<lparr>tcp_ws := w\<rparr>"
| "option_effect Sack_Permitted i = i\<lparr>tcp_sack := 1\<rparr>"
| "option_effect (Sack_Blocks bs) i =
     i\<lparr>tcp_sack_edges := le32s bs @ drop (length bs div 4) (tcp_sack_edges i)\<rparr>"
| "option_effect (Timestamps v e) i = i\<lparr>tcp_ts_val := v, tcp_ts_ecr := e\<rparr>"
| "option_effect (Auth_Option bs) i = i\<lparr>has_tcp_ao := 1\<rparr>"

fun option_len :: "tcp_option \<Rightarrow> nat" where
  "option_len Nop = 1"
| "option_len (Mss m) = 4"
| "option_len (Window_Scale w) = 3"
| "option_len Sack_Permitted = 2"
| "option_len (Sack_Blocks bs) = 2 + length bs"
| "option_len (Timestamps v e) = 10"
| "option_len (Auth_Option bs) = 2 + length bs"

lemma length_option_bytes: "length (option_bytes opt) = option_len opt"
  by (cases opt) simp_all

lemma unat_small_byte: "n < 256 \<Longrightarrow> unat (of_nat n :: byte) = n"
  by (simp add: unat_of_nat)

text \<open>One option at the head of the remaining option area.\<close>

lemma tcp_opts_ext_loop_option:
  assumes "option_ok opt" "length pre + option_len opt \<le> len"
  shows "tcp_opts_ext_loop (pre @ option_bytes opt @ rest) len (length pre) i =
    tcp_opts_ext_loop (pre @ option_bytes opt @ rest) len
      (length pre + option_len opt) (option_effect opt i)"
proof (cases opt)
  case Nop
  then show ?thesis using assms
    by (simp add: tcp_opts_ext_loop.simps [of _ _ "length pre"])
next
  case (Sack_Blocks bs)
  then obtain n where n: "length bs = 8 * n" using assms(1) by (auto elim: dvdE)
  have "n \<le> 4" "0 < n" using Sack_Blocks assms(1) n by auto
  moreover have "unat (of_nat (2 + length bs) :: byte) = 2 + 8 * n"
    using Sack_Blocks assms(1) n unat_small_byte [of "2 + length bs"] by simp
  moreover have "rd_bytes (bs @ rest) 0 (n * 8) = Some bs"
    using n by (simp add: rd_bytes_def)
  ultimately show ?thesis using assms Sack_Blocks n
    by (simp add: tcp_opts_ext_loop.simps [of _ _ "length pre"] tcp_opt_extended_def Let_def
        min_absorb1)
next
  case (Auth_Option bs)
  then have "unat (of_nat (2 + length bs) :: byte) = 2 + length bs"
    using assms(1) by (intro unat_small_byte) simp
  then show ?thesis using assms Auth_Option
    by (simp add: tcp_opts_ext_loop.simps [of _ _ "length pre"] tcp_opt_extended_def)
qed (use assms in \<open>simp_all add: tcp_opts_ext_loop.simps [of _ _ "length pre"] tcp_opt_extended_def
       be16_bytes_def be32_bytes_def\<close>)

lemma tcp_opts_ext_loop_options:
  assumes "\<forall>opt \<in> set os. option_ok opt"
  shows "tcp_opts_ext_loop (pre @ concat (map option_bytes os) @ rest)
      (length pre + length (concat (map option_bytes os))) (length pre) i = Some (fold option_effect os i)"
  using assms
proof (induction os arbitrary: pre i)
  case Nil
  then show ?case by (simp add: tcp_opts_ext_loop.simps)
next
  case (Cons opt os)
  have "length pre + option_len opt \<le> length pre + length (concat (map option_bytes (opt # os)))"
    by (simp add: length_option_bytes)
  from tcp_opts_ext_loop_option [OF _ this, of "concat (map option_bytes os) @ rest"] Cons.prems
  show ?case using Cons.IH [of "pre @ option_bytes opt" "option_effect opt i"]
    by (simp add: add.assoc length_option_bytes)
qed

definition bswap32 :: "u32 \<Rightarrow> u32" where
  "bswap32 w = le32 (ucast (drop_bit 24 w)) (ucast (drop_bit 16 w)) (ucast (drop_bit 8 w)) (ucast w)"

section \<open>Properties\<close>

text \<open>C24: on a TCP header that lies inside the packet, \<^verbatim>\<open>parse_tcp_options\<close> and
  \<^verbatim>\<open>parse_tcp_options_extended\<close> both return without an access outside the packet, and they extract
  the same maximum segment size, window scale and TCP-AO flag.\<close>

theorem tcp_option_walkers_agree:
  assumes "offset + h \<le> length packet" "opts_agree t i"
  shows "\<exists>t' i'. parse_tcp_options packet offset h t = Some t' \<and>
    parse_tcp_options_extended packet offset h i = Some i' \<and>
    t_mss t' = tcp_mss i' \<and> t_ws t' = tcp_ws i' \<and> (t_has_ao t' \<longleftrightarrow> has_tcp_ao i' = 1)"
  using tcp_opts_loops_agree [OF assms(2), of "h - 20" "drop (offset + 20) packet" 0] assms
  by (auto simp: parse_tcp_options_def parse_tcp_options_extended_def opts_agree_def)

theorem tcp_option_walkers_agree_witness:
  "\<exists>t' i'. parse_tcp_options (replicate 20 0 @ [2, 4, 5, 180]) 0 24
      \<lparr>t_src_port = 0, t_dst_port = 0, t_seq = 0, t_ack = 0, t_window = 0, t_flags = 0, t_mss = 0,
       t_ws = 0, t_has_ao = False, t_payload_ptr = None, t_payload_len = 0\<rparr> = Some t' \<and>
    parse_tcp_options_extended (replicate 20 0 @ [2, 4, 5, 180]) 0 24 zero_info = Some i' \<and>
    t_mss t' = tcp_mss i'"
  using tcp_option_walkers_agree [where packet = "replicate 20 0 @ [2, 4, 5, 180]" and offset = 0
      and h = 24 and i = zero_info and t = "\<lparr>t_src_port = 0, t_dst_port = 0, t_seq = 0, t_ack = 0,
        t_window = 0, t_flags = 0, t_mss = 0, t_ws = 0, t_has_ao = False, t_payload_ptr = None,
        t_payload_len = 0\<rparr>"]
  by (simp add: opts_agree_def zero_info_def) blast

text \<open>C25: from the encoding of any list of TCP options (maximum segment size, window scale,
  SACK permitted, SACK blocks, timestamps, TCP-AO, with NOP padding anywhere) the extended walker
  records exactly the effect of each option, in order.\<close>

theorem parse_tcp_options_extended_options:
  assumes "\<forall>opt \<in> set os. option_ok opt" "length hdr = 20" "os \<noteq> []"
  shows "parse_tcp_options_extended (pre @ hdr @ concat (map option_bytes os) @ rest) (length pre)
      (20 + length (concat (map option_bytes os))) i = Some (fold option_effect os i)"
proof -
  have "option_bytes opt \<noteq> []" for opt by (cases opt) auto
  then have "\<not> 20 + length (concat (map option_bytes os)) \<le> 20"
    using assms(3) by (cases os) auto
  moreover have "drop (length pre + 20) (pre @ hdr @ concat (map option_bytes os) @ rest) =
      concat (map option_bytes os) @ rest"
    using assms(2) by simp
  ultimately show ?thesis
    using tcp_opts_ext_loop_options [OF assms(1), of "[]" rest i]
    by (simp only: parse_tcp_options_extended_def if_False) simp
qed

theorem parse_tcp_options_extended_options_witness:
  "\<exists>i. parse_tcp_options_extended
       (replicate 20 0 @ [2, 4, 0, 180] @ [1] @ [3, 3, 7] @ [4, 2]) 0 30 zero_info = Some i \<and>
     tcp_mss i = 180 \<and> tcp_ws i = 7 \<and> tcp_sack i = 1"
  using parse_tcp_options_extended_options [where pre = "[]" and hdr = "replicate 20 0" and rest = "[]"
      and i = zero_info and os = "[Mss 180, Nop, Window_Scale 7, Sack_Permitted]"]
  by (simp add: be16_bytes_def)

text \<open>Where the dissector calls it, with \<^verbatim>\<open>info.tcp_seq\<close> just set from \<^verbatim>\<open>t.seq\<close>,
  \<^verbatim>\<open>check_tcp_anomalies\<close> reports a zero window exactly for an acknowledgement without SYN, FIN and
  RST whose window is 0, and its keep-alive branch is never taken: \<^verbatim>\<open>t.seq + 1 == t.seq\<close> fails for
  every sequence number, also at the wrap-around.\<close>

theorem check_tcp_anomalies_zero_window_only:
  assumes "wf_info info" "tcp_seq info = t_seq t"
  shows "check_tcp_anomalies info t =
    (if t_window t = 0 \<and> t_flags t AND 0x10 \<noteq> 0 \<and> t_flags t AND 0x07 = 0
     then Some (info\<lparr>extra_info := lit ''TCP ZeroWindow'' @ 0 # drop 15 (extra_info info)\<rparr>)
     else Some info)"
proof -
  have "t_seq t + 1 \<noteq> t_seq t" by simp
  moreover have "snprintf (extra_info info) 128 (lit ''TCP ZeroWindow'') =
      Some (lit ''TCP ZeroWindow'' @ 0 # drop 15 (extra_info info))"
    using assms(1) by (simp add: snprintf_eq numeral_eq_Suc)
  moreover have "(0x02 OR 0x01 OR 0x04 :: byte) = 0x07" by simp
  ultimately show ?thesis unfolding check_tcp_anomalies_def assms(2) by (simp only: simp_thms) simp
qed

theorem check_tcp_anomalies_zero_window_only_example:
  "\<exists>i. check_tcp_anomalies (zero_info\<lparr>tcp_seq := 7\<rparr>)
      \<lparr>t_src_port = 0, t_dst_port = 0, t_seq = 7, t_ack = 0, t_window = 0, t_flags = 0x10, t_mss = 0,
       t_ws = 0, t_has_ao = False, t_payload_ptr = None, t_payload_len = 0\<rparr> = Some i \<and>
     take 15 (extra_info i) = lit ''TCP ZeroWindow'' @ [0]"
  using check_tcp_anomalies_zero_window_only [where info = "zero_info\<lparr>tcp_seq := 7\<rparr>" and
      t = "\<lparr>t_src_port = 0, t_dst_port = 0, t_seq = 7, t_ack = 0, t_window = 0, t_flags = 0x10,
       t_mss = 0, t_ws = 0, t_has_ao = False, t_payload_ptr = None, t_payload_len = 0\<rparr>"]
  by (simp add: lit_def)

text \<open>The edges of a SACK block are stored with their bytes reversed: an edge that travels
  in network order is copied without \<^verbatim>\<open>ntohl\<close>, unlike the timestamps, so on a little-endian host the
  stored word is the byte swap of the edge.\<close>

theorem sack_edges_byte_swapped:
  assumes "wf_info i" "length hdr = 20"
  shows "\<exists>i'. parse_tcp_options_extended
      (pre @ hdr @ [5, 10] @ be32_bytes left @ be32_bytes right @ rest) (length pre) 30 i = Some i' \<and>
    take 2 (tcp_sack_edges i') = [bswap32 left, bswap32 right]"
proof -
  have "\<forall>opt \<in> set [Sack_Blocks (be32_bytes left @ be32_bytes right)]. option_ok opt" by simp
  from parse_tcp_options_extended_options [OF this assms(2), of pre rest i] assms
  show ?thesis by (simp add: be32_bytes_def bswap32_def)
qed

theorem sack_edges_byte_swapped_example:
  "\<exists>i'. parse_tcp_options_extended
      ([] @ replicate 20 0 @ [5, 10] @ be32_bytes 1 @ be32_bytes 2 @ []) (length ([] :: byte list)) 30
      zero_info = Some i' \<and>
    take 2 (tcp_sack_edges i') = [0x01000000, 0x02000000]"
  using sack_edges_byte_swapped [where i = zero_info and hdr = "replicate 20 0" and pre = "[]"
      and left = 1 and right = 2 and rest = "[]"]
  by (simp add: bswap32_def le32_def be32_def)

end
