(* ===== verification/Dissector_Contract.thy ===== *)
theory Dissector_Contract
  imports Packet_Types
begin

text \<open>
  What \<^verbatim>\<open>dissect_raw_packet\<close> relies on when it calls a dissector. A text dissector gets a payload
  pointer, an announced length, a buffer and its size; if the announced bytes (and the
  \<^verbatim>\<open>slack\<close> it needs behind them) are in the packet and the buffer has the announced size, it
  returns, writes inside the buffer only, and leaves it NUL-terminated. An info dissector does
  the same on a whole \<^verbatim>\<open>PacketInfo\<close>.
\<close>

locale text_dissector =
  fixes dissect :: "byte list \<Rightarrow> int \<Rightarrow> byte list \<Rightarrow> nat \<Rightarrow> byte list option"
    and slack :: nat
  assumes returns: "nat l + slack \<le> length p \<Longrightarrow> 0 < m \<Longrightarrow> m \<le> length out \<Longrightarrow>
      \<exists>out'. dissect p l out m = Some out'"
    and same_length: "dissect p l out m = Some out' \<Longrightarrow> length out' = length out"
    and terminated: "dissect p l out m = Some out' \<Longrightarrow> 0 < m \<Longrightarrow> 0 \<in> set out \<Longrightarrow> m = length out \<Longrightarrow>
      0 \<in> set out'"
begin

lemma on_packet:
  assumes "q + nat l + slack \<le> length packet" "m = length out" "0 \<in> set out"
  shows "\<exists>out'. dissect (drop q packet) l out m = Some out' \<and> length out' = length out \<and> 0 \<in> set out'"
proof -
  have "0 < m" using assms(2,3) by (cases out) auto
  moreover have "nat l + slack \<le> length (drop q packet)" using assms(1) by simp
  ultimately obtain out' where "dissect (drop q packet) l out m = Some out'"
    using returns assms(2) by blast
  then show ?thesis using same_length terminated assms \<open>0 < m\<close> by blast
qed

text \<open>A dissector applied to a text field keeps the struct well-formed and its other fields.\<close>

lemma keeps_extra_info:
  assumes "dissect p l (extra_info i) 128 = Some out" "info_ok i"
  shows "info_ok (i\<lparr>extra_info := out\<rparr>)"
proof -
  have nul: "0 \<in> set (extra_info i)" and len: "length (extra_info i) = 128"
    using assms(2) by (simp_all add: info_ok_def)
  have "0 \<in> set out" by (rule terminated [OF assms(1) _ nul len [symmetric]]) simp
  moreover have "length out = 128" using same_length [OF assms(1)] len by simp
  ultimately show ?thesis using assms(2) by (simp add: info_ok_def)
qed

end

locale info_dissector =
  fixes dissect :: "byte list \<Rightarrow> int \<Rightarrow> packet_info \<Rightarrow> packet_info option"
  assumes keeps_ok: "dissect p l i = Some i' \<Longrightarrow> info_ok i \<Longrightarrow> info_ok i'"
    and keeps_core: "dissect p l i = Some i' \<Longrightarrow> core i' = core i"
begin

text \<open>Running it after a step that gave a struct with a given core keeps that core.\<close>

lemma after_step:
  assumes "Option.bind x (dissect p l) = Some i'"
    and "\<And>j. x = Some j \<Longrightarrow> info_ok j \<and> core j = c"
  shows "info_ok i' \<and> core i' = c"
  using assms(1) by (rule bind_SomeE) (use assms(2) keeps_ok keeps_core in fastforce)

end

text \<open>Most of them return on every payload that holds the announced bytes.\<close>

locale total_info_dissector = info_dissector +
  assumes returns: "nat l \<le> length p \<Longrightarrow> info_ok i \<Longrightarrow> \<exists>i'. dissect p l i = Some i'"
begin

lemma on_packet:
  assumes "q + nat l \<le> length packet" "info_ok i"
  shows "\<exists>i'. dissect (drop q packet) l i = Some i' \<and> info_ok i' \<and> core i' = core i"
proof -
  have "nat l \<le> length (drop q packet)" using assms(1) by simp
  then obtain i' where "dissect (drop q packet) l i = Some i'" using returns assms(2) by blast
  then show ?thesis using keeps_ok keeps_core assms(2) by blast
qed

end

end
