(* ===== verification/Text_Dissectors.thy ===== *)
theory Text_Dissectors
  imports Dissector_Contract
begin

text \<open>
  The application dissectors that write a text into a \<^verbatim>\<open>char\<close> buffer: DNS, TLS SNI, HTTP and
  DHCP of \<^verbatim>\<open>cpp/protocol_dissectors.cpp\<close>; ICMP, ICMPv6, ND, OSPF, STP, GRE and the common
  application banners of \<^verbatim>\<open>cpp/packet_capture.cpp\<close>. The parameters are the source's: the
  payload pointer, the announced length (an \<^verbatim>\<open>int\<close>), the output buffer and its size. The
  result is the new contents of the buffer.
\<close>

section \<open>memmem and memcmp\<close>

function memmem_loop :: "byte list \<Rightarrow> nat \<Rightarrow> byte list \<Rightarrow> nat \<Rightarrow> nat option option" where
  "memmem_loop h lst n i =
     (if i \<le> lst then do {
        w \<leftarrow> rd_bytes h i (length n);
        if w = n then Some (Some i) else memmem_loop h lst n (i + 1) }
      else Some None)"
  by pat_completeness auto
termination
  by (relation "measure (\<lambda>(h, lst, n, i). Suc lst - i)") auto

declare memmem_loop.simps [simp del]

definition memmem :: "byte list \<Rightarrow> nat \<Rightarrow> byte list \<Rightarrow> nat option option" where
  "memmem h haystacklen n =
     (if length n = 0 then Some (Some 0)
      else if haystacklen < length n then Some None
      else memmem_loop h (haystacklen - length n) n 0)"

text \<open>\<^verbatim>\<open>memcmp(p, s, strlen(s)) == 0\<close>.\<close>

definition memcmp_eq :: "byte list \<Rightarrow> byte list \<Rightarrow> bool option" where
  "memcmp_eq p s = do { w \<leftarrow> rd_bytes p 0 (length s); Some (w = s) }"

section \<open>DNS\<close>

text \<open>\<^verbatim>\<open>for (i = 0; i < label_len && pos < len - 12 && out_pos < out_max - 1; i++)\<close>, with \<^term>\<open>k\<close>
  the rest of the label and \<^term>\<open>lim\<close> the value of \<^verbatim>\<open>len - 12\<close>.\<close>

fun dns_copy ::
  "byte list \<Rightarrow> nat \<Rightarrow> nat \<Rightarrow> nat \<Rightarrow> nat \<Rightarrow> byte list \<Rightarrow> nat \<Rightarrow> (nat \<times> byte list \<times> nat) option" where
  "dns_copy data lim out_max 0 pos out out_pos = Some (pos, out, out_pos)"
| "dns_copy data lim out_max (Suc k) pos out out_pos =
     (if pos < lim \<and> out_pos + 1 < out_max then do {
        b \<leftarrow> rd data pos;
        out' \<leftarrow> wr out out_pos b;
        dns_copy data lim out_max k (pos + 1) out' (out_pos + 1) }
      else Some (pos, out, out_pos))"

lemma dns_copy_pos:
  "dns_copy data lim m k pos out op = Some (pos', out', op') \<Longrightarrow> pos \<le> pos' \<and> op \<le> op'"
  by (induction data lim m k pos out op rule: dns_copy.induct)
    (fastforce simp: bind_eq_Some_conv split: if_splits)+

function dns_loop ::
  "byte list \<Rightarrow> nat \<Rightarrow> nat \<Rightarrow> nat \<Rightarrow> byte list \<Rightarrow> nat \<Rightarrow> (byte list \<times> nat) option" where
  "dns_loop data lim out_max pos out out_pos =
     (if pos < lim \<and> out_pos + 1 < out_max then do {
        label_len \<leftarrow> rd data pos;
        if label_len = 0 \<or> unat label_len > 63 then Some (out, out_pos)
        else do {
          (pos1, out1, op1) \<leftarrow> dns_copy data lim out_max (unat label_len) (pos + 1) out out_pos;
          if op1 + 1 < out_max then do {
            out2 \<leftarrow> wr out1 op1 0x2e;
            dns_loop data lim out_max pos1 out2 (op1 + 1) }
          else dns_loop data lim out_max pos1 out1 op1 } }
      else Some (out, out_pos))"
  by pat_completeness auto
termination
  by (relation "measure (\<lambda>(data, lim, out_max, pos, out, out_pos). lim - pos)")
    (auto dest!: dns_copy_pos)

declare dns_loop.simps [simp del]

definition dissect_dns :: "byte list \<Rightarrow> int \<Rightarrow> byte list \<Rightarrow> nat \<Rightarrow> byte list option" where
  "dissect_dns pl len out out_max =
     (if len < 12 then Some out
      else do {
        (out1, op) \<leftarrow> dns_loop (drop 12 pl) (nat (len - 12)) out_max 0 out 0;
        if op > 0 then do {
          c \<leftarrow> rd out1 (op - 1);
          wr out1 (op - (if c = 0x2e then 1 else 0)) 0 }
        else Some out1 })"

section \<open>TLS server name\<close>

function sni_loop ::
  "byte list \<Rightarrow> nat \<Rightarrow> nat \<Rightarrow> byte list \<Rightarrow> nat \<Rightarrow> byte list option" where
  "sni_loop pl ext_end pos out out_max =
     (if pos + 4 \<le> ext_end then do {
        ext_type \<leftarrow> rd_be16 pl pos;
        ext_len \<leftarrow> rd_be16 pl (pos + 2);
        if ext_type = 0 \<and> pos + 4 + 5 \<le> ext_end then do {
          name_len \<leftarrow> rd_be16 pl (pos + 4 + 3);
          if pos + 4 + 5 + unat name_len \<le> ext_end then do {
            let actual_copy = min (unat name_len) (out_max - 1);
            bs \<leftarrow> rd_bytes pl (pos + 4 + 5) actual_copy;
            out1 \<leftarrow> wr_bytes out 0 bs;
            wr out1 actual_copy 0 }
          else sni_loop pl ext_end (pos + 4 + unat ext_len) out out_max }
        else sni_loop pl ext_end (pos + 4 + unat ext_len) out out_max }
      else Some out)"
  by pat_completeness auto
termination
  by (relation "measure (\<lambda>(pl, ext_end, pos, out, out_max). ext_end - pos)") auto

declare sni_loop.simps [simp del]

definition dissect_tls_sni :: "byte list \<Rightarrow> int \<Rightarrow> byte list \<Rightarrow> nat \<Rightarrow> byte list option" where
  "dissect_tls_sni pl len out out_max =
     (if len < 43 then Some out
      else do {
        b0 \<leftarrow> rd pl 0;
        if b0 \<noteq> 0x16 then Some out else do {
        b5 \<leftarrow> rd pl 5;
        if b5 \<noteq> 0x01 then Some out else do {
        let n = nat len;
        sid_len \<leftarrow> rd pl (5 + 38);
        let pos1 = 5 + 38 + 1 + unat sid_len;
        if pos1 + 2 \<ge> n then Some out else do {
        cs_len \<leftarrow> rd_be16 pl pos1;
        let pos2 = pos1 + 2 + unat cs_len;
        if pos2 + 1 \<ge> n then Some out else do {
        comp_len \<leftarrow> rd pl pos2;
        let pos3 = pos2 + 1 + unat comp_len;
        if pos3 + 2 \<ge> n then Some out else do {
        ext_total_len \<leftarrow> rd_be16 pl pos3;
        let pos4 = pos3 + 2;
        let ext_end = min (pos4 + unat ext_total_len) n;
        sni_loop pl ext_end pos4 out out_max } } } } } })"

section \<open>HTTP\<close>

text \<open>The loop that copies a line: \<^verbatim>\<open>while (c < l && c < m - 1 && p[c] != CR && p[c] != LF)\<close>.\<close>

function copy_line :: "byte list \<Rightarrow> nat \<Rightarrow> nat \<Rightarrow> nat \<Rightarrow> byte list \<Rightarrow> (byte list \<times> nat) option" where
  "copy_line p l m c out =
     (if c < l \<and> c + 1 < m then do {
        b \<leftarrow> rd p c;
        if b \<noteq> 13 \<and> b \<noteq> 10 then do {
          out' \<leftarrow> wr out c b;
          copy_line p l m (c + 1) out' }
        else Some (out, c) }
      else Some (out, c))"
  by pat_completeness auto
termination
  by (relation "measure (\<lambda>(p, l, m, c, out). l - c)") auto

declare copy_line.simps [simp del]

definition host_marker :: "byte list" where
  "host_marker = [13, 10] @ lit ''Host: ''"

definition http_request :: "byte list \<Rightarrow> nat \<Rightarrow> byte list \<Rightarrow> nat \<Rightarrow> byte list option" where
  "http_request p l out m = do {
     (out1, c) \<leftarrow> copy_line p l m 0 out;
     out2 \<leftarrow> wr out1 c 0;
     hp \<leftarrow> memmem p l host_marker;
     case hp of
       None \<Rightarrow> Some out2
     | Some i \<Rightarrow> do {
         n \<leftarrow> strlen out2;
         host \<leftarrow> cstr_prec 32 (drop (i + 8) p);
         snprintf_at out2 n (m - n) (lit '' [Host: '' @ host @ lit '']'') } }"

fun http_loop :: "byte list list \<Rightarrow> byte list \<Rightarrow> nat \<Rightarrow> byte list \<Rightarrow> nat \<Rightarrow> byte list option" where
  "http_loop [] p l out m = Some out"
| "http_loop (s # ms) p l out m =
     (if l > length s then do {
        found \<leftarrow> memcmp_eq p s;
        if found then http_request p l out m else http_loop ms p l out m }
      else http_loop ms p l out m)"

definition http_methods :: "byte list list" where
  "http_methods = map lit [''GET '', ''POST '', ''PUT '', ''DELETE '', ''HEAD '', ''OPTIONS '']"

definition dissect_http :: "byte list \<Rightarrow> int \<Rightarrow> byte list \<Rightarrow> nat \<Rightarrow> byte list option" where
  "dissect_http p l out m =
     (if l < 10 then Some out else http_loop http_methods p (nat l) out m)"

section \<open>DHCP\<close>

definition dhcp_types :: "string list" where
  "dhcp_types = [''?'', ''DISCOVER'', ''OFFER'', ''REQUEST'', ''DECLINE'', ''ACK'', ''NAK'',
                 ''RELEASE'', ''INFORM'']"

function dhcp_loop :: "byte list \<Rightarrow> nat \<Rightarrow> nat \<Rightarrow> byte list \<Rightarrow> nat \<Rightarrow> byte list option" where
  "dhcp_loop opts lim i out m =
     (if i < lim then do {
        c \<leftarrow> rd opts i;
        if c = 255 then Some out
        else if c = 0 then dhcp_loop opts lim (i + 1) out m
        else if i + 1 \<ge> lim then Some out
        else do {
          len \<leftarrow> rd opts (i + 1);
          if i + 2 + unat len > lim then Some out
          else if c = 53 \<and> len = 1 then do {
            t \<leftarrow> rd opts (i + 2);
            if 0 < t \<and> t < 9 then snprintf out m (lit ''DHCP '' @ lit (dhcp_types ! unat t))
            else Some out }
          else dhcp_loop opts lim (i + 2 + unat len) out m } }
      else Some out)"
  by pat_completeness auto
termination
  by (relation "measure (\<lambda>(opts, lim, i, out, m). lim - i)") auto

declare dhcp_loop.simps [simp del]

definition dissect_dhcp :: "byte list \<Rightarrow> int \<Rightarrow> byte list \<Rightarrow> nat \<Rightarrow> byte list option" where
  "dissect_dhcp p l out m =
     (if l < 240 then Some out
      else do {
        a \<leftarrow> rd p 236;
        if a \<noteq> 0x63 then Some out else do {
        b \<leftarrow> rd p 237;
        if b \<noteq> 0x82 then Some out else do {
        c \<leftarrow> rd p 238;
        if c \<noteq> 0x53 then Some out else do {
        d \<leftarrow> rd p 239;
        if d \<noteq> 0x63 then Some out else
        dhcp_loop (drop 240 p) (nat (l - 240)) 0 out m } } } })"

section \<open>Banners, routing and control protocols\<close>

definition check_icmp_unreachable :: "byte \<Rightarrow> byte \<Rightarrow> byte list \<Rightarrow> nat \<Rightarrow> byte list option" where
  "check_icmp_unreachable t c out m =
     (if t = 3 then
        (if c < 8 then snprintf out m (lit ''ICMP Unreachable: '' @
           lit ([''Net'', ''Host'', ''Proto'', ''Port'', ''Frag'', ''SrcRoute'', ''DestNet'', ''DestHost'']
                ! unat c))
         else Some out)
      else Some out)"

definition dissect_app_common :: "byte list \<Rightarrow> int \<Rightarrow> byte list \<Rightarrow> nat \<Rightarrow> byte list option" where
  "dissect_app_common p l out m =
     (if l < 4 then Some out
      else do {
        ssh \<leftarrow> (if l > 7 then memcmp_eq p (lit ''SSH-'') else Some False);
        if ssh then do {
          (out1, c) \<leftarrow> copy_line p (nat l) m 0 out;
          wr out1 c 0 }
        else do {
        smtp \<leftarrow> (if l > 4 then do {
            a \<leftarrow> memcmp_eq p (lit ''220 '');
            b \<leftarrow> memcmp_eq p (lit ''HELO'');
            c \<leftarrow> memcmp_eq p (lit ''EHLO'');
            Some (a \<or> b \<or> c) } else Some False);
        if smtp then snprintf out m (lit ''SMTP Control'')
        else do {
        ftp \<leftarrow> (if l > 4 then do {
            a \<leftarrow> memcmp_eq p (lit ''USER'');
            b \<leftarrow> memcmp_eq p (lit ''PASS'');
            c \<leftarrow> memcmp_eq p (lit ''220 '');
            Some (a \<or> b \<or> c) } else Some False);
        if ftp then snprintf out m (lit ''FTP Control'')
        else do {
        p0 \<leftarrow> rd p 0;
        telnet \<leftarrow> (if p0 = 0xff then do { p1 \<leftarrow> rd p 1; Some (p1 = 0xfb) } else Some False);
        if telnet then snprintf out m (lit ''Telnet Negotiation'')
        else if p0 AND 0xc0 = 0x80 \<and> l > 12 then snprintf out m (lit ''QUIC Long Header'')
        else Some out } } } })"

definition icmp_text :: "byte \<Rightarrow> byte \<Rightarrow> string" where
  "icmp_text t c =
     (if t = 0 then ''Echo Reply''
      else if t = 3 then
        (if c = 0 then ''Net Unreachable''
         else if c = 1 then ''Host Unreachable''
         else if c = 2 then ''Proto Unreachable''
         else if c = 3 then ''Port Unreachable''
         else if c = 4 then ''Frag Required (DF set)''
         else ''Dest Unreachable'')
      else if t = 8 then ''Echo Request''
      else if t = 11 then ''Time Exceeded (TTL)''
      else ''ICMP Info'')"

definition dissect_icmp_details :: "byte \<Rightarrow> byte \<Rightarrow> byte list \<Rightarrow> nat \<Rightarrow> byte list option" where
  "dissect_icmp_details t c out m = snprintf out m (lit (icmp_text t c))"

definition icmp6_text :: "byte \<Rightarrow> string" where
  "icmp6_text t =
     (if t = 128 then ''Echo Request''
      else if t = 129 then ''Echo Reply''
      else if t = 1 then ''Dest Unreachable''
      else if t = 2 then ''Packet Too Big''
      else if t = 3 then ''Time Exceeded''
      else if t = 133 then ''Router Solicit''
      else if t = 134 then ''Router Advert''
      else if t = 135 then ''Neighbor Solicit''
      else if t = 136 then ''Neighbor Advert''
      else ''ICMPv6 Info'')"

definition dissect_icmp6_details :: "byte \<Rightarrow> byte \<Rightarrow> byte list \<Rightarrow> nat \<Rightarrow> byte list option" where
  "dissect_icmp6_details t c out m = snprintf out m (lit (icmp6_text t))"

definition dissect_nd :: "byte list \<Rightarrow> int \<Rightarrow> byte list \<Rightarrow> nat \<Rightarrow> byte list option" where
  "dissect_nd p l out m =
     (if l < 8 then Some out
      else do {
        t \<leftarrow> rd p 0;
        if t = 135 then snprintf out m (lit ''ND Neighbor Solicitation'')
        else if t = 136 then snprintf out m (lit ''ND Neighbor Advertisement'')
        else if t = 133 then snprintf out m (lit ''ND Router Solicitation'')
        else if t = 134 then snprintf out m (lit ''ND Router Advertisement'')
        else Some out })"

definition ospf_types :: "string list" where
  "ospf_types = [''?'', ''Hello'', ''DbDesc'', ''LSReq'', ''LSUpdate'', ''LSAck'']"

definition dissect_ospf :: "byte list \<Rightarrow> int \<Rightarrow> byte list \<Rightarrow> nat \<Rightarrow> byte list option" where
  "dissect_ospf p l out m =
     (if l < 24 then Some out
      else do {
        type \<leftarrow> rd p 1;
        if 0 < type \<and> type < 6 then do {
          v \<leftarrow> rd p 0;
          snprintf out m (lit ''OSPFv'' @ dec (unat v) @ lit '' '' @ lit (ospf_types ! unat type)) }
        else Some out })"

definition dissect_stp :: "byte list \<Rightarrow> int \<Rightarrow> byte list \<Rightarrow> nat \<Rightarrow> byte list option" where
  "dissect_stp p l out m =
     (if l < 35 then Some out
      else do {
        type \<leftarrow> rd p 4;
        snprintf out m (lit ''STP '' @
          lit (if type = 0x00 then ''Config'' else if type = 0x80 then ''TCN'' else ''BPDU'')) })"

definition dissect_gre :: "byte list \<Rightarrow> int \<Rightarrow> byte list \<Rightarrow> nat \<Rightarrow> byte list option" where
  "dissect_gre p l out m =
     (if l < 4 then Some out
      else do {
        w \<leftarrow> rd_be16 p 2;
        snprintf out m (lit ''GRE Tunnel (Inner: 0x'' @ hex4 w @ lit '')'') })"

section \<open>Lemmas: searching and copying\<close>

definition occurs_at :: "byte list \<Rightarrow> nat \<Rightarrow> byte list \<Rightarrow> nat \<Rightarrow> bool" where
  "occurs_at h hl n i \<longleftrightarrow> i + length n \<le> hl \<and> take (length n) (drop i h) = n"

lemma memmem_loop_spec:
  assumes "lst + length n \<le> length h"
  shows "\<exists>r. memmem_loop h lst n i = Some r \<and>
    (case r of None \<Rightarrow> \<forall>j. i \<le> j \<and> j \<le> lst \<longrightarrow> take (length n) (drop j h) \<noteq> n
     | Some k \<Rightarrow> i \<le> k \<and> k \<le> lst \<and> take (length n) (drop k h) = n \<and>
         (\<forall>j. i \<le> j \<and> j < k \<longrightarrow> take (length n) (drop j h) \<noteq> n))"
  using assms
proof (induction h lst n i rule: memmem_loop.induct)
  case (1 h lst n i)
  show ?case
  proof (cases "i \<le> lst")
    case False
    then show ?thesis by (auto simp: memmem_loop.simps)
  next
    case True
    then have rd: "rd_bytes h i (length n) = Some (take (length n) (drop i h))"
      using "1.prems" by (simp add: rd_bytes_def)
    show ?thesis
    proof (cases "take (length n) (drop i h) = n")
      case hit: True
      then show ?thesis using True rd by (auto simp: memmem_loop.simps [of h lst n i])
    next
      case miss: False
      obtain r where r: "memmem_loop h lst n (i + 1) = Some r"
        "case r of None \<Rightarrow> \<forall>j. i + 1 \<le> j \<and> j \<le> lst \<longrightarrow> take (length n) (drop j h) \<noteq> n
         | Some k \<Rightarrow> i + 1 \<le> k \<and> k \<le> lst \<and> take (length n) (drop k h) = n \<and>
             (\<forall>j. i + 1 \<le> j \<and> j < k \<longrightarrow> take (length n) (drop j h) \<noteq> n)"
        using "1.IH" [OF True rd miss] "1.prems" by blast
      have "memmem_loop h lst n i = Some r"
        using True rd miss r(1) by (simp add: memmem_loop.simps [of h lst n i])
      moreover have "i \<le> j \<Longrightarrow> j = i \<or> i + 1 \<le> j" for j by linarith
      ultimately show ?thesis using r(2) miss
        by (intro exI [of _ r]) (cases r; simp; metis Suc_leD le_Suc_eq le_antisym not_less_eq_eq)
    qed
  qed
qed

lemma memmem_spec:
  assumes "hl \<le> length h" "n \<noteq> []"
  shows "\<exists>r. memmem h hl n = Some r \<and>
    (case r of None \<Rightarrow> \<forall>j. \<not> occurs_at h hl n j
     | Some k \<Rightarrow> occurs_at h hl n k \<and> (\<forall>j<k. \<not> occurs_at h hl n j))"
proof (cases "hl < length n")
  case True
  then show ?thesis using assms(2) by (simp add: memmem_def occurs_at_def)
next
  case False
  then have "hl - length n + length n \<le> length h" using assms by simp
  from memmem_loop_spec [OF this, of 0] obtain r where
    "memmem_loop h (hl - length n) n 0 = Some r"
    "case r of None \<Rightarrow> \<forall>j. 0 \<le> j \<and> j \<le> hl - length n \<longrightarrow> take (length n) (drop j h) \<noteq> n
     | Some k \<Rightarrow> 0 \<le> k \<and> k \<le> hl - length n \<and> take (length n) (drop k h) = n \<and>
         (\<forall>j. 0 \<le> j \<and> j < k \<longrightarrow> take (length n) (drop j h) \<noteq> n)" by blast
  then show ?thesis using False assms(2)
    by (intro exI [of _ r]) (auto simp: memmem_def occurs_at_def split: option.splits)
qed

definition line_of :: "byte list \<Rightarrow> byte list" where
  "line_of = takeWhile (\<lambda>b. b \<noteq> 13 \<and> b \<noteq> 10)"

lemma copy_line_from:
  assumes "l \<le> length p" "m \<le> length out" "c \<le> l" "c < m"
  shows "copy_line p l m c out =
    (let s = line_of (take (min l (m - 1) - c) (drop c p))
     in Some (take c out @ s @ drop (c + length s) out, c + length s))"
  using assms
proof (induction p l m c out rule: copy_line.induct)
  case (1 p l m c out)
  show ?case
  proof (cases "c < l \<and> c + 1 < m")
    case False
    then have "min l (m - 1) - c = 0" using "1.prems" by auto
    then show ?thesis using False by (auto simp: copy_line.simps [of p l m c out] line_of_def Let_def)
  next
    case True
    then have rd: "rd p c = Some (p ! c)" using "1.prems" by (simp add: rd_def)
    obtain k where k: "min l (m - 1) - c = Suc k" "min l (m - 1) - (c + 1) = k"
      using True by (metis Suc_diff_Suc Suc_eq_plus1 less_diff_conv min_less_iff_conj)
    have tk: "take (Suc k) (drop c p) = p ! c # take k (drop (c + 1) p)"
      using True "1.prems"(1) by (simp add: Cons_nth_drop_Suc [symmetric])
    show ?thesis
    proof (cases "p ! c \<noteq> 13 \<and> p ! c \<noteq> 10")
      case False
      then show ?thesis using True rd tk k
        by (auto simp: copy_line.simps [of p l m c out] line_of_def Let_def)
    next
      case ok: True
      have wr: "wr out c (p ! c) = Some (out[c := p ! c])"
        using "1.prems" by (simp add: wr_def)
      from "1.IH" [OF True rd ok wr] "1.prems" True
      have "copy_line p l m (c + 1) (out[c := p ! c]) =
        (let s = line_of (take k (drop (c + 1) p))
         in Some (take (c + 1) (out[c := p ! c]) @ s @ drop (c + 1 + length s) (out[c := p ! c]),
              c + 1 + length s))"
        using k by simp
      moreover have "take (c + 1) (out[c := p ! c]) = take c out @ [p ! c]"
        using "1.prems" by (simp add: take_Suc_conv_app_nth)
      ultimately show ?thesis using True rd ok wr tk k
        by (simp add: copy_line.simps [of p l m c out] line_of_def Let_def)
    qed
  qed
qed

lemma copy_line_spec:
  assumes "l \<le> length p" "m \<le> length out" "0 < m"
  shows "copy_line p l m 0 out =
    (let s = line_of (take (min l (m - 1)) p) in Some (s @ drop (length s) out, length s))"
  using copy_line_from [OF assms(1,2), of 0] assms(3) by simp

lemma length_line_of: "length (line_of xs) \<le> length xs"
  by (simp add: line_of_def length_takeWhile_le)

section \<open>Lemmas: every dissector meets its contract\<close>

lemma list_update_0_in_set: "k < length out \<Longrightarrow> (0 :: byte) \<in> set (out[k := 0])"
  by (simp add: set_update_memI)

lemma wr_NUL: "wr out k 0 = Some out' \<Longrightarrow> (0 :: byte) \<in> set out'"
  by (auto simp: wr_def set_update_memI split: if_splits)

lemma dns_copy_returns:
  assumes "lim \<le> length data" "m \<le> length out" "op < m"
  shows "\<exists>pos' out' op'. dns_copy data lim m k pos out op = Some (pos', out', op') \<and>
     length out' = length out \<and> op \<le> op' \<and> op' < m"
  using assms
proof (induction data lim m k pos out op rule: dns_copy.induct)
  case (2 data lim m k pos out op)
  show ?case
  proof (cases "pos < lim \<and> op + 1 < m")
    case True
    then have "rd data pos = Some (data ! pos)" "wr out op (data ! pos) = Some (out[op := data ! pos])"
      using "2.prems" by (simp_all add: rd_def wr_def)
    then show ?thesis using "2.IH" [OF True] "2.prems" True by fastforce
  next
    case False
    then show ?thesis using "2.prems" by auto
  qed
qed auto

lemma dns_loop_returns:
  assumes "lim \<le> length data" "m \<le> length out" "op < m"
  shows "\<exists>out' op'. dns_loop data lim m pos out op = Some (out', op') \<and>
     length out' = length out \<and> op \<le> op' \<and> op' < m"
  using assms
proof (induction data lim m pos out op rule: dns_loop.induct)
  case (1 data lim m pos out op)
  note unfold = dns_loop.simps [of data lim m pos out op]
  show ?case
  proof (cases "pos < lim \<and> op + 1 < m")
    case False
    then show ?thesis using "1.prems" by (auto simp: unfold)
  next
    case True
    define b where "b = data ! pos"
    have rd: "rd data pos = Some b" using True "1.prems" by (simp add: rd_def b_def)
    show ?thesis
    proof (cases "b = 0 \<or> unat b > 63")
      case stop: True
      then show ?thesis using True rd "1.prems" by (auto simp: unfold)
    next
      case go: False
      obtain pos1 out1 op1 where c: "dns_copy data lim m (unat b) (pos + 1) out op = Some (pos1, out1, op1)"
        "length out1 = length out" "op \<le> op1" "op1 < m"
        using dns_copy_returns [OF "1.prems"] by blast
      show ?thesis
      proof (cases "op1 + 1 < m")
        case dot: True
        then have w: "wr out1 op1 0x2e = Some (out1[op1 := 0x2e])"
          using c "1.prems" by (simp add: wr_def)
        obtain out' op' where r: "dns_loop data lim m pos1 (out1[op1 := 0x2e]) (op1 + 1) = Some (out', op')"
          "length out' = length (out1[op1 := 0x2e])" "op1 + 1 \<le> op'" "op' < m"
          using "1.IH"(1) [OF True rd go c(1) refl refl dot w] "1.prems" dot c by auto
        have "dns_loop data lim m pos out op = Some (out', op')"
          using r(1) w dot c(1) rd go True by (simp add: unfold)
        then show ?thesis using r c by simp
      next
        case full: False
        obtain out' op' where r: "dns_loop data lim m pos1 out1 op1 = Some (out', op')"
          "length out' = length out1" "op1 \<le> op'" "op' < m"
          using "1.IH"(2) [OF True rd go c(1) refl refl full] "1.prems" c by auto
        have "dns_loop data lim m pos out op = Some (out', op')"
          using r(1) full c(1) rd go True by (simp add: unfold)
        then show ?thesis using r c by simp
      qed
    qed
  qed
qed

lemma dissect_dns_returns:
  assumes "nat len \<le> length p" "0 < m" "m \<le> length out"
  shows "\<exists>out'. dissect_dns p len out m = Some out'"
proof (cases "len < 12")
  case False
  then have lim: "nat (len - 12) \<le> length (drop 12 p)" using assms(1) by simp
  obtain out1 op where "dns_loop (drop 12 p) (nat (len - 12)) m 0 out 0 = Some (out1, op)"
    "length out1 = length out" "op < m"
    using dns_loop_returns [OF lim assms(3,2)] by blast
  then show ?thesis using assms False by (auto simp: dissect_dns_def rd_def wr_def)
qed (simp add: dissect_dns_def)

lemma dns_copy_length:
  "dns_copy data lim m k pos out op = Some (pos', out', op') \<Longrightarrow> length out' = length out"
  by (induction data lim m k pos out op rule: dns_copy.induct)
    (fastforce simp: bind_eq_Some_conv dest: wr_length split: if_splits)+

lemma dns_loop_length:
  "dns_loop data lim m pos out op = Some (out', op') \<Longrightarrow>
   length out' = length out \<and> (op' = 0 \<longrightarrow> out' = out) \<and> op \<le> op'"
proof (induction data lim m pos out op rule: dns_loop.induct)
  case (1 data lim m pos out op)
  show ?case
  proof (cases "pos < lim \<and> op + 1 < m")
    case False
    then show ?thesis using "1.prems" by (subst (asm) dns_loop.simps) (simp split: if_splits)
  next
    case True
    then obtain b where b: "rd data pos = Some b" and rest:
      "(if b = 0 \<or> unat b > 63 then Some (out, op)
        else do {
          (pos1, out1, op1) \<leftarrow> dns_copy data lim m (unat b) (pos + 1) out op;
          if op1 + 1 < m then do {
            out2 \<leftarrow> wr out1 op1 0x2e;
            dns_loop data lim m pos1 out2 (op1 + 1) }
          else dns_loop data lim m pos1 out1 op1 }) = Some (out', op')"
      using "1.prems" by (subst (asm) dns_loop.simps) (auto elim: bind_SomeE)
    show ?thesis
    proof (cases "b = 0 \<or> unat b > 63")
      case stop: True
      then show ?thesis using rest by simp
    next
      case go: False
      then obtain pos1 out1 op1 where c: "dns_copy data lim m (unat b) (pos + 1) out op = Some (pos1, out1, op1)"
        and rest': "(if op1 + 1 < m then do {
            out2 \<leftarrow> wr out1 op1 0x2e;
            dns_loop data lim m pos1 out2 (op1 + 1) }
          else dns_loop data lim m pos1 out1 op1) = Some (out', op')"
        using rest by (auto elim!: bind_SomeE)
      have l: "length out1 = length out" "op \<le> op1"
        using dns_copy_length [OF c] dns_copy_pos [OF c] by simp_all
      show ?thesis
      proof (cases "op1 + 1 < m")
        case dot: True
        with rest' obtain out2 where w: "wr out1 op1 0x2e = Some out2"
          "dns_loop data lim m pos1 out2 (op1 + 1) = Some (out', op')" by (auto elim: bind_SomeE)
        from "1.IH"(1) [OF True b go c refl refl dot w] wr_length [OF w(1)] l show ?thesis by simp
      next
        case full: False
        then have "dns_loop data lim m pos1 out1 op1 = Some (out', op')" using rest' by simp
        from "1.IH"(2) [OF True b go c refl refl full this] l full True show ?thesis by simp
      qed
    qed
  qed
qed

lemma dissect_dns_contract: "text_dissector dissect_dns 0"
proof
  fix l :: int and p out :: "byte list" and m :: nat
  assume "nat l + 0 \<le> length p" "0 < m" "m \<le> length out"
  then show "\<exists>out'. dissect_dns p l out m = Some out'" by (simp add: dissect_dns_returns)
next
  fix p l out m out'
  assume "dissect_dns p l out m = Some out'"
  then show "length out' = length out"
    unfolding dissect_dns_def
    by (elim if_SomeE bind_SomeE) (auto elim!: if_SomeE bind_SomeE dest!: dns_loop_length wr_length)
next
  fix p l out m out'
  assume "dissect_dns p l out m = Some out'" "0 \<in> set out"
  then show "0 \<in> set out'"
    unfolding dissect_dns_def
    by (elim if_SomeE bind_SomeE) (auto elim!: if_SomeE bind_SomeE dest: dns_loop_length wr_NUL)
qed

lemma sni_loop_returns:
  assumes "ext_end \<le> length p" "0 < m" "m \<le> length out"
  shows "\<exists>out'. sni_loop p ext_end pos out m = Some out'"
  using assms
proof (induction p ext_end pos out m rule: sni_loop.induct)
  case (1 p ext_end pos out m)
  note unfold = sni_loop.simps [of p ext_end pos out m]
  show ?case
  proof (cases "pos + 4 \<le> ext_end")
    case False
    then show ?thesis by (simp add: unfold)
  next
    case True
    define ty where "ty = be16 (p ! pos) (p ! (pos + 1))"
    define ln where "ln = be16 (p ! (pos + 2)) (p ! (pos + 2 + 1))"
    have rds: "rd_be16 p pos = Some ty" "rd_be16 p (pos + 2) = Some ln"
      using True "1.prems" by (simp_all add: rd_be16_Some ty_def ln_def)
    show ?thesis
    proof (cases "ty = 0 \<and> pos + 4 + 5 \<le> ext_end")
      case False
      then show ?thesis using "1.IH"(2) [OF True rds False] "1.prems" True rds
        by (auto simp: unfold)
    next
      case name: True
      define nl where "nl = be16 (p ! (pos + 4 + 3)) (p ! (pos + 4 + 3 + 1))"
      have rdn: "rd_be16 p (pos + 4 + 3) = Some nl"
        using name "1.prems" by (simp add: rd_be16_Some nl_def)
      show ?thesis
      proof (cases "pos + 4 + 5 + unat nl \<le> ext_end")
        case False
        then show ?thesis using "1.IH"(1) [OF True rds name rdn False] "1.prems" True rds name rdn
          by (simp add: unfold)
      next
        case fits: True
        define k where "k = min (unat nl) (m - Suc 0)"
        have "rd_bytes p (pos + 4 + 5) k = Some (take k (drop (pos + 4 + 5) p))"
          using fits "1.prems" by (simp add: rd_bytes_def k_def)
        moreover have "length (take k (drop (pos + 4 + 5) p)) = k" "k < length out"
          using fits "1.prems" by (simp_all add: k_def)
        ultimately show ?thesis using True rds name rdn fits
          by (simp add: unfold wr_bytes_def wr_def flip: k_def)
      qed
    qed
  qed
qed

lemma copy_terminated:
  "wr_bytes out 0 bs = Some out1 \<Longrightarrow> wr out1 k 0 = Some out' \<Longrightarrow>
   length out' = length out \<and> 0 \<in> set out'"
  by (auto dest!: wr_NUL [of out1] wr_length wr_bytes_length simp: wr_NUL)

lemma sni_loop_length:
  "sni_loop p ext_end pos out m = Some out' \<Longrightarrow>
   length out' = length out \<and> (out' = out \<or> 0 \<in> set out')"
proof (induction "ext_end - pos" arbitrary: pos rule: less_induct)
  case less
  from less.prems show ?case
    unfolding sni_loop.simps [of p ext_end pos out m] Let_def
    by (elim if_SomeE bind_SomeE)
      ((erule less.hyps [rotated], simp; fail) | (simp add: copy_terminated; fail)
        | (drule (1) copy_terminated, simp))+
qed

lemma dissect_tls_sni_contract: "text_dissector dissect_tls_sni 1"
proof
  fix l :: int and p out :: "byte list" and m :: nat
  assume a: "nat l + 1 \<le> length p" "0 < m" "m \<le> length out"
  have "\<exists>out'. sni_loop p (min e (nat l)) q out m = Some out'" for e q
    using sni_loop_returns [of "min e (nat l)" p m out q] a by simp
  moreover have "43 \<le> nat l" if "\<not> l < 43" using that by simp
  moreover have "nat l < length p" using a(1) by simp
  moreover have "p \<noteq> []" using a(1) by auto
  ultimately show "\<exists>out'. dissect_tls_sni p l out m = Some out'"
    by (cases "l < 43") (auto simp: dissect_tls_sni_def Let_def rd_Some rd_be16_Some)
next
  fix p l out m out'
  assume "dissect_tls_sni p l out m = Some out'"
  then show "length out' = length out"
    unfolding dissect_tls_sni_def Let_def by (elim if_SomeE bind_SomeE) (auto dest: sni_loop_length)
next
  fix p l out m out'
  assume "dissect_tls_sni p l out m = Some out'" "0 \<in> set out"
  then show "0 \<in> set out'"
    unfolding dissect_tls_sni_def Let_def by (elim if_SomeE bind_SomeE) (auto dest: sni_loop_length)
qed

lemma dhcp_loop_returns:
  assumes "lim \<le> length opts" "m \<le> length out"
  shows "\<exists>out'. dhcp_loop opts lim i out m = Some out'"
  using assms
proof (induction opts lim i out m rule: dhcp_loop.induct)
  case (1 opts lim i out m)
  note unfold = dhcp_loop.simps [of opts lim i out m]
  have sn: "\<exists>out'. snprintf out m s = Some out'" for s
    using snprintf_at_Some [of 0 m out s] "1.prems" by auto
  show ?case
  proof (cases "i < lim")
    case False
    then show ?thesis by (simp add: unfold)
  next
    case True
    then have c: "rd opts i = Some (opts ! i)" using "1.prems" by (simp add: rd_def)
    consider "opts ! i = 255 \<or> opts ! i \<noteq> 0 \<and> i + 1 \<ge> lim" | "opts ! i = 0"
      | "opts ! i \<noteq> 255" "opts ! i \<noteq> 0" "\<not> i + 1 \<ge> lim" by blast
    then show ?thesis
    proof cases
      case 1
      then show ?thesis using True c by (auto simp: unfold)
    next
      case 2
      then show ?thesis using True c "1.IH"(1) [OF True c] "1.prems" by (simp add: unfold)
    next
      case 3
      define n where "n = opts ! (i + 1)"
      have n: "rd opts (i + 1) = Some n" using 3 "1.prems" by (simp add: rd_def n_def)
      consider "i + 2 + unat n > lim" | "\<not> i + 2 + unat n > lim" "opts ! i = 53 \<and> n = 1"
        | "\<not> i + 2 + unat n > lim" "\<not> (opts ! i = 53 \<and> n = 1)" by blast
      then show ?thesis
      proof cases
        case 1
        then show ?thesis using True c n 3 by (simp add: unfold)
      next
        case t: 2
        then have "rd opts (i + 2) = Some (opts ! (i + 2))" using "1.prems" by (simp add: rd_def)
        then show ?thesis using True c n 3 t sn by (simp add: unfold)
      next
        case t: 3
        then show ?thesis using True c n 3 "1.IH"(2) [OF True c 3 n t] "1.prems"
          by (auto simp: unfold)
      qed
    qed
  qed
qed

lemma dhcp_loop_length:
  "dhcp_loop opts lim i out m = Some out' \<Longrightarrow>
   length out' = length out \<and> (0 < m \<longrightarrow> out' = out \<or> 0 \<in> set out')"
proof (induction "lim - i" arbitrary: i rule: less_induct)
  case less
  from less.prems show ?case
    unfolding dhcp_loop.simps [of opts lim i out m]
    by (elim if_SomeE bind_SomeE)
      ((erule less.hyps [rotated], simp; fail) | (simp; fail)
        | (frule snprintf_at_length, auto dest: snprintf_NUL; fail))+
qed

lemma dissect_dhcp_contract: "text_dissector dissect_dhcp 0"
proof
  fix l :: int and p out :: "byte list" and m :: nat
  assume a: "nat l + 0 \<le> length p" "0 < m" "m \<le> length out"
  have "\<exists>out'. dhcp_loop (drop 240 p) (nat (l - 240)) 0 out m = Some out'"
    using dhcp_loop_returns [of "nat (l - 240)" "drop 240 p" m out 0] a by simp
  then show "\<exists>out'. dissect_dhcp p l out m = Some out'"
    using a by (auto simp: dissect_dhcp_def rd_Some)
next
  fix p l out m out'
  assume "dissect_dhcp p l out m = Some out'"
  then show "length out' = length out"
    unfolding dissect_dhcp_def by (elim if_SomeE bind_SomeE) (auto dest: dhcp_loop_length)
next
  fix p l out m out'
  assume "dissect_dhcp p l out m = Some out'" "0 < m" "0 \<in> set out"
  then show "0 \<in> set out'"
    unfolding dissect_dhcp_def by (elim if_SomeE bind_SomeE) (auto dest: dhcp_loop_length)
qed

lemma memcmp_eq_returns: "length s \<le> length p \<Longrightarrow> \<exists>b. memcmp_eq p s = Some b"
  by (simp add: memcmp_eq_def rd_bytes_def)

lemma copy_line_length:
  "copy_line p l m c out = Some (out', c') \<Longrightarrow> length out' = length out"
proof (induction p l m c out rule: copy_line.induct)
  case (1 p l m c out)
  show ?case
  proof (cases "c < l \<and> c + 1 < m")
    case False
    then show ?thesis using "1.prems" by (auto simp: copy_line.simps [of p l m c out])
  next
    case True
    then obtain b where b: "rd p c = Some b" and
      rest: "(if b \<noteq> 13 \<and> b \<noteq> 10 then do { out1 \<leftarrow> wr out c b; copy_line p l m (c + 1) out1 }
        else Some (out, c)) = Some (out', c')"
      using "1.prems" by (auto simp: copy_line.simps [of p l m c out] elim: bind_SomeE)
    show ?thesis
    proof (cases "b \<noteq> 13 \<and> b \<noteq> 10")
      case go: True
      then obtain out1 where "wr out c b = Some out1" "copy_line p l m (c + 1) out1 = Some (out', c')"
        using rest by (auto elim: bind_SomeE)
      with "1.IH" [OF True b go] wr_length show ?thesis by metis
    qed (use rest in auto)
  qed
qed

lemma host_marker_length [simp]: "length host_marker = 8" "host_marker \<noteq> []"
  by (simp_all add: host_marker_def lit_def)

text \<open>The copied line is NUL-terminated inside the buffer.\<close>

lemma copy_line_terminated:
  assumes "l \<le> length p" "m \<le> length out" "0 < m"
  shows "\<exists>s. copy_line p l m 0 out = Some (s @ drop (length s) out, length s) \<and> length s < m \<and>
    wr (s @ drop (length s) out) (length s) 0 = Some (s @ 0 # drop (Suc (length s)) out) \<and>
    s = line_of (take (min l (m - 1)) p)"
proof -
  define s where "s = line_of (take (min l (m - Suc 0)) p)"
  have "length s \<le> min l (m - 1)"
    using length_line_of [of "take (min l (m - Suc 0)) p"] by (simp add: s_def)
  then have "length s < m" using assms(3) by auto
  moreover from this have "drop (length s) out = out ! length s # drop (Suc (length s)) out"
    using assms(2) by (simp add: Cons_nth_drop_Suc)
  ultimately show ?thesis
    using copy_line_spec [OF assms] assms(2)
    by (intro exI [of _ s]) (simp add: Let_def wr_def flip: s_def)
qed

lemma strlen_prefix: "strlen (s @ 0 # r) = Some k \<Longrightarrow> k \<le> length s"
  by (induction s arbitrary: k) (auto simp: strlen_def cstr_def split: if_splits)

lemma strlen_Some: "0 \<in> set out \<Longrightarrow> \<exists>k. strlen out = Some k"
  by (simp add: strlen_def cstr_def)

lemma http_request_returns:
  assumes "l + 32 \<le> length p" "m \<le> length out" "0 < m"
  shows "\<exists>out'. http_request p l out m = Some out'"
proof -
  have "l \<le> length p" using assms(1) by simp
  from copy_line_terminated [OF this assms(2,3)] obtain s where
    s: "copy_line p l m 0 out = Some (s @ drop (length s) out, length s)" "length s < m"
    "wr (s @ drop (length s) out) (length s) 0 = Some (s @ 0 # drop (Suc (length s)) out)" by blast
  define out2 where "out2 = s @ 0 # drop (Suc (length s)) out"
  obtain r where r: "memmem p l host_marker = Some r"
    "\<And>i. r = Some i \<Longrightarrow> i + 8 \<le> l"
    using memmem_spec [OF \<open>l \<le> length p\<close> host_marker_length(2)]
    by (auto simp: occurs_at_def split: option.splits)
  obtain n where n: "strlen out2 = Some n" using strlen_Some [of out2] by (auto simp: out2_def)
  then have nm: "n \<le> length s" by (metis out2_def strlen_prefix)
  have l2: "length out2 = length out" using s(2) assms(2) by (simp add: out2_def)
  have "n + (m - n) \<le> length out2" using nm s(2) assms(2) l2 by simp
  then have sn: "\<exists>out'. snprintf_at out2 n (m - n) t = Some out'" for t
    using snprintf_at_Some by blast
  have "\<exists>h. cstr_prec 32 (drop (i + 8) p) = Some h" if "r = Some i" for i
  proof -
    have "32 \<le> length (drop (i + 8) p)" using r(2) [OF that] assms(1) by simp
    then show ?thesis by (simp add: cstr_prec_def)
  qed
  then show ?thesis using s(1,3) r(1) n sn
    by (cases r) (auto simp: http_request_def out2_def [symmetric])
qed

lemma http_request_length:
  assumes "http_request p l out m = Some out'"
  shows "length out' = length out" "0 < m \<Longrightarrow> 0 \<in> set out'"
proof -
  from assms obtain out1 c out2 hp where 1: "copy_line p l m 0 out = Some (out1, c)"
    "wr out1 c 0 = Some out2" and
    2: "(case hp of None \<Rightarrow> Some out2 | Some i \<Rightarrow> do {
         n \<leftarrow> strlen out2; host \<leftarrow> cstr_prec 32 (drop (i + 8) p);
         snprintf_at out2 n (m - n) (lit '' [Host: '' @ host @ lit '']'') }) = Some out'"
    unfolding http_request_def by (auto elim!: bind_SomeE)
  have l: "length out2 = length out" "0 \<in> set out2"
    using copy_line_length [OF 1(1)] wr_length [OF 1(2)] wr_NUL [OF 1(2)] by simp_all
  show "length out' = length out"
    using 2 l by (cases hp) (auto elim!: bind_SomeE dest: snprintf_at_length)
  show "0 \<in> set out'" if "0 < m"
    using 2 l by (cases hp) (auto elim!: bind_SomeE dest: snprintf_keeps_NUL)
qed

lemma http_loop_returns:
  assumes "l + 32 \<le> length p" "m \<le> length out" "0 < m"
  shows "\<exists>out'. http_loop ms p l out m = Some out'"
proof (induction ms)
  case (Cons s ms)
  have "\<exists>b. memcmp_eq p s = Some b" if "length s < l"
    using memcmp_eq_returns [of s p] that assms(1) by simp
  then show ?case using Cons http_request_returns [OF assms] by auto
qed simp

lemma http_loop_length:
  "http_loop ms p l out m = Some out' \<Longrightarrow>
   length out' = length out \<and> (0 < m \<longrightarrow> out' = out \<or> 0 \<in> set out')"
  by (induction ms) (auto elim!: bind_SomeE dest: http_request_length split: if_splits)

lemma dissect_http_contract: "text_dissector dissect_http 32"
proof
  fix l :: int and p out :: "byte list" and m :: nat
  assume "nat l + 32 \<le> length p" "0 < m" "m \<le> length out"
  then show "\<exists>out'. dissect_http p l out m = Some out'"
    using http_loop_returns [of "nat l" p m out] by (simp add: dissect_http_def)
qed (auto simp: dissect_http_def dest: http_loop_length split: if_splits)

lemma snprintf_returns: "m \<le> length out \<Longrightarrow> \<exists>out'. snprintf out m s = Some out'"
  using snprintf_at_Some [of 0 m out s] by auto

lemma dissect_app_common_cases:
  assumes "dissect_app_common p l out m = Some out'"
  obtains "out' = out" | s where "snprintf out m s = Some out'"
  | out1 c where "copy_line p (nat l) m 0 out = Some (out1, c)" "wr out1 c 0 = Some out'"
proof -
  note step = bind_SomeE [where x = "if _ then _ else _"] bind_SomeE [where x = "rd _ _"]
    bind_SomeE [where x = "copy_line _ _ _ _ _"]
  show thesis using assms unfolding dissect_app_common_def
    by (elim step if_branch_SomeE; use that in auto)
qed

lemma dissect_app_common_contract: "text_dissector dissect_app_common 0"
proof
  fix l :: int and p out :: "byte list" and m :: nat
  assume a: "nat l + 0 \<le> length p" "0 < m" "m \<le> length out"
  show "\<exists>out'. dissect_app_common p l out m = Some out'"
  proof (cases "l < 4")
    case False
    then have "4 \<le> length p" using a(1) by linarith
    then have rd: "rd p 0 = Some (p ! 0)" "rd p 1 = Some (p ! 1)"
      "\<And>s. length s = 4 \<Longrightarrow> memcmp_eq p s = Some (take 4 p = s)"
      by (auto simp: rd_low memcmp_eq_def rd_bytes_def)
    obtain s where s: "copy_line p (nat l) m 0 out = Some (s @ drop (length s) out, length s)"
      "wr (s @ drop (length s) out) (length s) 0 = Some (s @ 0 # drop (Suc (length s)) out)"
      using copy_line_terminated [of "nat l" p m out] a by auto
    have sn: "snprintf out m t \<noteq> None" for t using snprintf_returns [OF a(3), of t] by auto
    obtain b1 where b1: "(if l > 7 then memcmp_eq p (lit ''SSH-'') else Some False) = Some b1"
      by (cases "l > 7") (auto simp: rd)
    obtain b2 where b2: "(if l > 4 then do {
            a \<leftarrow> memcmp_eq p (lit ''220 ''); b \<leftarrow> memcmp_eq p (lit ''HELO'');
            c \<leftarrow> memcmp_eq p (lit ''EHLO''); Some (a \<or> b \<or> c) } else Some False) = Some b2"
      by (cases "l > 4") (auto simp: rd)
    obtain b3 where b3: "(if l > 4 then do {
            a \<leftarrow> memcmp_eq p (lit ''USER''); b \<leftarrow> memcmp_eq p (lit ''PASS'');
            c \<leftarrow> memcmp_eq p (lit ''220 ''); Some (a \<or> b \<or> c) } else Some False) = Some b3"
      by (cases "l > 4") (auto simp: rd)
    obtain b4 where b4: "(if p ! 0 = 0xff then do { p1 \<leftarrow> rd p 1; Some (p1 = 0xfb) } else Some False) = Some b4"
      by (cases "p ! 0 = 0xff") (auto simp: rd simp del: One_nat_def)
    have "dissect_app_common p l out m \<noteq> None"
      unfolding dissect_app_common_def b1 b2 b3
      by (intro if_returns bind_returns [OF b1] bind_returns [OF b2] bind_returns [OF b3]
          bind_returns [OF rd(1)] bind_returns [OF b4] bind_returns [OF refl] sn)
        (simp_all add: s)
    then show ?thesis by blast
  qed (simp add: dissect_app_common_def)
next
  fix p l out m out'
  assume "dissect_app_common p l out m = Some out'"
  then show "length out' = length out"
    by (rule dissect_app_common_cases)
      (auto dest!: snprintf_at_length copy_line_length wr_length)
next
  fix p l out m out'
  assume run: "dissect_app_common p l out m = Some out'" and NUL: "0 < m" "0 \<in> set out"
  from run show "0 \<in> set out'"
    by (rule dissect_app_common_cases) (use NUL in \<open>auto dest: snprintf_NUL wr_NUL\<close>)
qed

lemma dissect_nd_contract: "text_dissector dissect_nd 0"
proof
  fix l :: int and p out :: "byte list" and m :: nat
  assume a: "nat l + 0 \<le> length p" "0 < m" "m \<le> length out"
  then have len: "\<not> l < 8 \<Longrightarrow> 8 \<le> length p" by linarith
  show "\<exists>out'. dissect_nd p l out m = Some out'"
    using a snprintf_returns [OF a(3)] len
    by (cases "l < 8") (simp_all add: dissect_nd_def rd_low [of 8])
qed (auto simp: dissect_nd_def elim!: bind_SomeE dest: snprintf_at_length snprintf_NUL split: if_splits)

lemma dissect_ospf_contract: "text_dissector dissect_ospf 0"
proof
  fix l :: int and p out :: "byte list" and m :: nat
  assume a: "nat l + 0 \<le> length p" "0 < m" "m \<le> length out"
  then have len: "\<not> l < 24 \<Longrightarrow> 24 \<le> length p" by linarith
  show "\<exists>out'. dissect_ospf p l out m = Some out'"
    using a snprintf_returns [OF a(3)] len
    by (cases "l < 24") (simp_all add: dissect_ospf_def rd_low [of 24])
qed (auto simp: dissect_ospf_def elim!: bind_SomeE dest: snprintf_at_length snprintf_NUL split: if_splits)

lemma dissect_stp_contract: "text_dissector dissect_stp 0"
proof
  fix l :: int and p out :: "byte list" and m :: nat
  assume a: "nat l + 0 \<le> length p" "0 < m" "m \<le> length out"
  then have len: "\<not> l < 35 \<Longrightarrow> 35 \<le> length p" by linarith
  show "\<exists>out'. dissect_stp p l out m = Some out'"
    using a snprintf_returns [OF a(3)] len
    by (cases "l < 35") (simp_all add: dissect_stp_def rd_low [of 35])
qed (auto simp: dissect_stp_def elim!: bind_SomeE dest: snprintf_at_length snprintf_NUL split: if_splits)

lemma dissect_gre_contract: "text_dissector dissect_gre 0"
proof
  fix l :: int and p out :: "byte list" and m :: nat
  assume a: "nat l + 0 \<le> length p" "0 < m" "m \<le> length out"
  then have len: "\<not> l < 4 \<Longrightarrow> 4 \<le> length p" by linarith
  show "\<exists>out'. dissect_gre p l out m = Some out'"
    using a snprintf_returns [OF a(3)] len
    by (cases "l < 4") (simp_all add: dissect_gre_def rd_be16_def rd_low [of 4])
qed (auto simp: dissect_gre_def elim!: bind_SomeE dest: snprintf_at_length snprintf_NUL split: if_splits)

interpretation dns: text_dissector dissect_dns 0
  by (rule dissect_dns_contract)

interpretation tls: text_dissector dissect_tls_sni 1
  by (rule dissect_tls_sni_contract)

interpretation http: text_dissector dissect_http 32
  by (rule dissect_http_contract)

interpretation dhcp: text_dissector dissect_dhcp 0
  by (rule dissect_dhcp_contract)

interpretation app_common: text_dissector dissect_app_common 0
  by (rule dissect_app_common_contract)

interpretation nd: text_dissector dissect_nd 0
  by (rule dissect_nd_contract)

interpretation ospf: text_dissector dissect_ospf 0
  by (rule dissect_ospf_contract)

interpretation stp: text_dissector dissect_stp 0
  by (rule dissect_stp_contract)

interpretation gre: text_dissector dissect_gre 0
  by (rule dissect_gre_contract)

section \<open>Lemmas: what the dissectors extract\<close>

definition dns_wire :: "byte list list \<Rightarrow> byte list" where
  "dns_wire labels = concat (map (\<lambda>l. of_nat (length l) # l) labels) @ [0]"

definition dns_name :: "byte list list \<Rightarrow> byte list" where
  "dns_name labels = concat (map (\<lambda>l. l @ [0x2e]) labels)"

definition label_ok :: "byte list \<Rightarrow> bool" where
  "label_ok l \<longleftrightarrow> 0 < length l \<and> length l \<le> 63"

lemma dns_copy_label:
  assumes "pos + k \<le> lim" "lim \<le> length data" "length w + k < m" "m \<le> length w + length out"
  shows "dns_copy data lim m k pos (w @ out) (length w) =
    Some (pos + k, w @ take k (drop pos data) @ drop k out, length w + k)"
  using assms
proof (induction k arbitrary: pos w out)
  case (Suc k)
  then obtain x out1 where out: "out = x # out1" by (cases out) auto
  have rd: "rd data pos = Some (data ! pos)" using Suc.prems by (simp add: rd_def)
  have wr: "wr (w @ out) (length w) (data ! pos) = Some ((w @ [data ! pos]) @ out1)"
    by (simp add: wr_def out)
  have "drop pos data = data ! pos # drop (Suc pos) data"
    using Suc.prems by (simp add: Cons_nth_drop_Suc)
  then show ?case
    using Suc.IH [of "Suc pos" "w @ [data ! pos]" out1] Suc.prems rd wr by (simp add: out)
qed simp

lemma dns_loop_labels:
  assumes "\<forall>l \<in> set labels. label_ok l"
    and "length pre + length (dns_wire labels) \<le> lim"
    and "lim \<le> length (pre @ dns_wire labels @ rest)"
    and "length w + length (dns_name labels) < m" "m \<le> length w + length out"
  shows "dns_loop (pre @ dns_wire labels @ rest) lim m (length pre) (w @ out) (length w) =
    Some (w @ dns_name labels @ drop (length (dns_name labels)) out,
          length w + length (dns_name labels))"
  using assms
proof (induction labels arbitrary: pre w out)
  case Nil
  then show ?case by (simp add: dns_loop.simps dns_wire_def dns_name_def)
next
  case (Cons l labels)
  define data where "data = pre @ dns_wire (l # labels) @ rest"
  have data: "data = (pre @ [of_nat (length l)]) @ l @ dns_wire labels @ rest"
    by (simp add: data_def dns_wire_def)
  have data': "data = (pre @ of_nat (length l) # l) @ dns_wire labels @ rest"
    by (simp add: data_def dns_wire_def)
  have ok: "0 < length l" "length l \<le> 63" using Cons.prems(1) by (simp_all add: label_ok_def)
  then have n: "unat (of_nat (length l) :: byte) = length l" by (simp add: unat_of_nat)
  then have nz: "(of_nat (length l) :: byte) \<noteq> 0" using ok(1) by (metis unat_0 less_irrefl)
  have ln: "length (dns_name (l # labels)) = length l + 1 + length (dns_name labels)"
    "length (dns_wire (l # labels)) = 1 + length l + length (dns_wire labels)"
    by (simp_all add: dns_name_def dns_wire_def)
  have lim: "lim \<le> length data" using Cons.prems(3) by (simp only: data_def)
  have r: "rd data (length pre) = Some (of_nat (length l))"
    using rd_at [of pre "of_nat (length l)" "l @ dns_wire labels @ rest"] by (simp add: data)
  have tk: "take (length l) (drop (length pre + 1) data) = l" by (simp add: data)
  have c: "dns_copy data lim m (length l) (length pre + 1) (w @ out) (length w) =
      Some (length pre + 1 + length l, w @ l @ drop (length l) out, length w + length l)"
    using dns_copy_label [of "length pre + 1" "length l" lim data w m out] Cons.prems ln lim tk
    by simp
  obtain x out1 where out: "drop (length l) out = x # out1"
    using Cons.prems(4,5) ln by (cases "drop (length l) out") auto
  have wr: "wr (w @ l @ drop (length l) out) (length w + length l) 0x2e = Some ((w @ l @ [0x2e]) @ out1)"
    using out by (simp add: wr_def list_update_append)
  have guard: "length pre < lim \<and> length w + 1 < m" "length w + length l + 1 < m"
    using Cons.prems ln by simp_all
  have IH: "dns_loop data lim m (length (pre @ of_nat (length l) # l)) ((w @ l @ [0x2e]) @ out1)
      (length (w @ l @ [0x2e])) =
    Some ((w @ l @ [0x2e]) @ dns_name labels @ drop (length (dns_name labels)) out1,
      length (w @ l @ [0x2e]) + length (dns_name labels))"
    unfolding data' using Cons.prems ln lim data' out
    by (intro Cons.IH) (auto simp: length_Cons dest: arg_cong [of _ _ length])
  have "drop (length l + 1 + k) out = drop k out1" for k
    using out by (metis add.assoc add.commute drop_Suc_Cons drop_drop plus_1_eq_Suc)
  then show ?case
    using r c wr guard IH ok n nz ln
    unfolding data_def [symmetric]
    by (simp add: dns_loop.simps [of data lim m "length pre"] dns_name_def)
qed

lemma http_loop_request:
  assumes "l \<le> length p" "\<exists>s \<in> set ms. length s < l \<and> take (length s) p = s"
  shows "http_loop ms p l out m = http_request p l out m"
  using assms(2)
proof (induction ms)
  case (Cons s ms)
  have "memcmp_eq p s = Some (take (length s) p = s)" if "length s < l"
    using that assms(1) by (simp add: memcmp_eq_def rd_bytes_def)
  then show ?case using Cons by auto
qed simp

text \<open>The text a request leaves in the buffer; \<^term>\<open>hp\<close> is where the \<^verbatim>\<open>Host\<close> header was found.\<close>

definition http_text :: "byte list \<Rightarrow> nat \<Rightarrow> nat \<Rightarrow> nat option \<Rightarrow> byte list" where
  "http_text p l m hp =
     (let line = line_of (take (min l (m - 1)) p)
      in case hp of None \<Rightarrow> line
         | Some i \<Rightarrow> take (m - 1) (line @ lit '' [Host: '' @
             takeWhile (\<lambda>b. b \<noteq> 0) (take 32 (drop (i + 8) p)) @ lit '']''))"

lemma NUL_notin_lit: "0 \<notin> set (map of_char s :: byte list) \<Longrightarrow> 0 \<notin> set (lit s)"
  by (simp add: lit_def)

lemma http_request_text:
  assumes "l + 32 \<le> length p" "m \<le> length out" "0 < m" "memmem p l host_marker = Some hp"
    and "0 \<notin> set (line_of (take (min l (m - 1)) p))" "\<And>i. hp = Some i \<Longrightarrow> i + 8 \<le> l"
  shows "\<exists>out'. http_request p l out m = Some out' \<and> cstr out' = Some (http_text p l m hp)"
proof -
  have l: "l \<le> length p" using assms(1) by simp
  define line where "line = line_of (take (min l (m - 1)) p)"
  define out2 where "out2 = line @ 0 # drop (Suc (length line)) out"
  have c: "copy_line p l m 0 out = Some (line @ drop (length line) out, length line)"
    "length line < m" "wr (line @ drop (length line) out) (length line) 0 = Some out2"
    using copy_line_terminated [OF l assms(2,3)] by (auto simp: line_def out2_def)
  have nz: "0 \<notin> set line" using assms(5) by (simp add: line_def)
  have n: "strlen out2 = Some (length line)"
    using cstr_terminated [OF nz] by (simp add: strlen_def out2_def)
  show ?thesis
  proof (cases hp)
    case None
    then have "http_text p l m hp = line" by (simp add: http_text_def line_def)
    then show ?thesis using None c assms(4) cstr_terminated [OF nz]
      by (simp add: http_request_def out2_def)
  next
    case (Some i)
    define host where "host = takeWhile (\<lambda>b. b \<noteq> 0) (take 32 (drop (i + 8) p))"
    define t where "t = lit '' [Host: '' @ host @ lit '']''"
    define k where "k = m - length line - 1"
    have "32 \<le> length (drop (i + 8) p)" using assms(6) [OF Some] assms(1) by simp
    then have h: "cstr_prec 32 (drop (i + 8) p) = Some host" by (simp add: cstr_prec_def host_def)
    have nt: "0 \<notin> set (take k t)"
      using set_take_subset [of k t] by (auto simp: t_def host_def lit_def dest: set_takeWhileD)
    have "m - length line = Suc k" using c(2) by (simp add: k_def)
    moreover have "length line + length (take k t @ [0]) \<le> length out2"
      using c(2) assms(2) by (simp add: out2_def k_def)
    ultimately have sn: "snprintf_at out2 (length line) (m - length line) t =
        Some (line @ take k t @ 0 # drop (length line + Suc (length (take k t))) out2)"
      by (simp add: snprintf_at_def wr_bytes_def out2_def)
    have "take (m - 1) (line @ t) = line @ take k t"
      using c(2) by (simp add: k_def)
    then have text_eq: "http_text p l m hp = line @ take k t"
      unfolding http_text_def Some Let_def option.case line_def [symmetric] host_def [symmetric]
        t_def [symmetric] .
    have "http_request p l out m =
        Some ((line @ take k t) @ 0 # drop (length line + Suc (length (take k t))) out2)"
      using c assms(4) n h sn by (simp add: http_request_def Some flip: t_def)
    moreover have "0 \<notin> set (line @ take k t)" using nz nt by simp
    ultimately show ?thesis using text_eq cstr_terminated by metis
  qed
qed

lemma dns_name_last:
  "labels \<noteq> [] \<Longrightarrow> dns_name labels \<noteq> [] \<and> last (dns_name labels) = 0x2e"
  by (induction labels) (auto simp: dns_name_def)

section \<open>Properties\<close>

text \<open>C27: the \<^verbatim>\<open>memmem\<close> of the sources finds the first occurrence of the needle inside the
  haystack, and reports none exactly when there is none.\<close>

theorem memmem_first_occurrence:
  assumes "hl \<le> length h" "n \<noteq> []"
  shows "\<exists>r. memmem h hl n = Some r \<and>
    (case r of None \<Rightarrow> \<forall>j. \<not> occurs_at h hl n j
     | Some k \<Rightarrow> occurs_at h hl n k \<and> (\<forall>j<k. \<not> occurs_at h hl n j))"
  using memmem_spec [OF assms] .

theorem memmem_first_occurrence_witness:
  "\<exists>r. memmem [1, 2, 1, 2, 3] 5 [2, 3] = Some r \<and>
    (case r of None \<Rightarrow> \<forall>j. \<not> occurs_at [1, 2, 1, 2, 3] 5 [2, 3] j
     | Some k \<Rightarrow> occurs_at [1, 2, 1, 2, 3] 5 [2, 3] k \<and> (\<forall>j<k. \<not> occurs_at [1, 2, 1, 2, 3] 5 [2, 3] j))"
  using memmem_first_occurrence [of 5 "[1, 2, 1, 2, 3]" "[2, 3]"] by simp

text \<open>C26: from a DNS message whose question is an encoded list of labels, \<^verbatim>\<open>dissect_dns\<close>
  writes the dotted name, without the final dot and NUL-terminated, if it fits the buffer.\<close>

theorem dissect_dns_name:
  assumes "length hdr = 12" "labels \<noteq> []" "\<forall>l \<in> set labels. label_ok l"
    and "msg = hdr @ dns_wire labels @ rest"
    and "12 + int (length (dns_wire labels)) \<le> len" "len \<le> int (length msg)"
    and "length (dns_name labels) < m" "m \<le> length out"
  shows "dissect_dns msg len out m =
    Some (butlast (dns_name labels) @ 0 # drop (length (dns_name labels)) out)"
proof -
  define name where "name = dns_name labels"
  have loop: "dns_loop (drop 12 msg) (nat (len - 12)) m 0 out 0 =
      Some (name @ drop (length name) out, length name)"
    using dns_loop_labels [OF assms(3), of "[]" "nat (len - 12)" rest "[]" m out] assms
    by (simp add: name_def)
  have ne: "name \<noteq> []" "last name = 0x2e"
    using dns_name_last [OF assms(2)] by (simp_all add: name_def)
  then obtain k where k: "length name = Suc k" by (cases name) auto
  have "name ! k = 0x2e" using ne k by (simp add: last_conv_nth)
  moreover have "name = butlast name @ [0x2e]" using ne by (metis append_butlast_last_id)
  then have "(name @ drop (length name) out)[k := 0] = butlast name @ 0 # drop (length name) out"
    using k by (metis append.assoc append_Cons append_Nil length_butlast diff_Suc_1 list_update_length)
  ultimately show ?thesis using assms(5-8) loop k ne(1)
    by (simp add: dissect_dns_def rd_def wr_def nth_append name_def [symmetric])
qed

theorem dissect_dns_name_witness:
  "dissect_dns (replicate 12 0 @ dns_wire [[97, 98], [99]] @ [0, 1]) 20 (replicate 64 0) 64 =
     Some ([97, 98, 0x2e, 99] @ 0 # replicate 59 0)"
  using dissect_dns_name [of "replicate 12 0" "[[97, 98], [99]]" _ "[0, 1]" 20 64 "replicate 64 0", OF _ _ _ refl]
  by (simp add: label_ok_def dns_wire_def dns_name_def)

text \<open>C28: on a payload that starts with a known method, has no NUL in its first line and is followed
  by 32 more bytes in the buffer, \<^verbatim>\<open>dissect_http\<close> writes the request line cut at the buffer size, followed, when the payload has a Host header, by the 32 bytes that
  come after \<^verbatim>\<open>Host: \<close> up to a NUL: the text does not stop at the end of the header line.\<close>

theorem dissect_http_text:
  assumes "10 \<le> l" "nat l + 32 \<le> length p" "m \<le> length out" "0 < m"
    and "\<exists>s \<in> set http_methods. length s < nat l \<and> take (length s) p = s"
    and "0 \<notin> set (line_of (take (min (nat l) (m - 1)) p))"
  shows "\<exists>hp out'. memmem p (nat l) host_marker = Some hp \<and>
    dissect_http p l out m = Some out' \<and> cstr out' = Some (http_text p (nat l) m hp)"
proof -
  have len: "nat l \<le> length p" using assms(2) by simp
  obtain hp where hp: "memmem p (nat l) host_marker = Some hp" "\<And>i. hp = Some i \<Longrightarrow> i + 8 \<le> nat l"
    using memmem_spec [OF len host_marker_length(2)]
    by (auto simp: occurs_at_def split: option.splits)
  then show ?thesis
    using http_request_text [OF assms(2-4) hp(1) assms(6) hp(2)] http_loop_request [OF len assms(5)] assms(1)
    by (simp add: dissect_http_def)
qed

theorem dissect_http_text_witness:
  "\<exists>hp out'. memmem (lit ''GET / HTTP/1.1'' @ [13, 10] @ replicate 40 0) 16 host_marker = Some hp \<and>
    dissect_http (lit ''GET / HTTP/1.1'' @ [13, 10] @ replicate 40 0) 16 (replicate 128 0) 128 = Some out' \<and>
    cstr out' = Some (http_text (lit ''GET / HTTP/1.1'' @ [13, 10] @ replicate 40 0) 16 128 hp)"
  using dissect_http_text [of 16 "lit ''GET / HTTP/1.1'' @ [13, 10] @ replicate 40 0" 128 "replicate 128 0"]
  by (simp add: http_methods_def lit_def line_of_def)

text \<open>After the two ICMP calls of the dissector the text of a destination-unreachable
  message with one of the eight named codes is the one of \<^verbatim>\<open>check_icmp_unreachable\<close>: the more
  specific text that \<^verbatim>\<open>dissect_icmp_details\<close> wrote first never survives.\<close>

theorem icmp_unreachable_text:
  assumes "c < 8" "length out = 128"
  shows "\<exists>out1 out2. dissect_icmp_details 3 c out 128 = Some out1 \<and>
    check_icmp_unreachable 3 c out1 128 = Some out2 \<and>
    cstr out2 = Some (lit ''ICMP Unreachable: '' @
      lit ([''Net'', ''Host'', ''Proto'', ''Port'', ''Frag'', ''SrcRoute'', ''DestNet'', ''DestHost'']
           ! unat c))"
proof -
  have "unat c < 8" using assms(1) by (simp add: word_less_nat_alt)
  then have c8: "unat c \<in> {0, 1, 2, 3, 4, 5, 6, 7}" by auto
  obtain out1 where out1: "dissect_icmp_details 3 c out 128 = Some out1" "length out1 = 128"
    using snprintf_at_Some [of 0 128 out "lit (icmp_text 3 c)"] assms(2)
    by (auto simp: dissect_icmp_details_def)
  let ?r = "[''Net'', ''Host'', ''Proto'', ''Port'', ''Frag'', ''SrcRoute'', ''DestNet'', ''DestHost''] ! unat c"
  have "length ?r < 10" "0 \<notin> set (lit ?r)" "0 \<notin> set (lit ''ICMP Unreachable: '')"
    using c8 by (elim insertE; simp add: lit_def)+
  then obtain out2 where "snprintf out1 128 (lit ''ICMP Unreachable: '' @ lit ?r) = Some out2"
    "cstr out2 = Some (lit ''ICMP Unreachable: '' @ lit ?r)"
    using snprintf_cstr [of 128 out1 "lit ''ICMP Unreachable: '' @ lit ?r"] out1(2) by auto
  then show ?thesis using out1(1) assms(1) by (simp add: check_icmp_unreachable_def)
qed

theorem icmp_unreachable_text_example:
  "\<exists>out1 out2. dissect_icmp_details 3 4 (replicate 128 0) 128 = Some out1 \<and>
    check_icmp_unreachable 3 4 out1 128 = Some out2 \<and>
    cstr out2 = Some (lit ''ICMP Unreachable: '' @ lit ''Frag'')"
  using icmp_unreachable_text [of 4 "replicate 128 0"] by simp

end
