(* ===== verification/Info_Dissectors.thy ===== *)
theory Info_Dissectors
  imports Dissector_Contract
begin

text \<open>
  The dissectors of \<^verbatim>\<open>cpp/protocol_dissectors.cpp\<close> that write several fields of a \<^verbatim>\<open>PacketInfo\<close>:
  NTP, LLDP, IGMP and VXLAN.
\<close>

definition ntp_modes :: "string list" where
  "ntp_modes = [''Res'', ''SymA'', ''SymP'', ''Cli'', ''Srv'', ''Bcast'', ''Ctrl'', ''Priv'']"

definition dissect_ntp :: "byte list \<Rightarrow> int \<Rightarrow> packet_info \<Rightarrow> packet_info option" where
  "dissect_ntp p l i =
     (if l < 48 then Some i
      else do {
        b0 \<leftarrow> rd p 0;
        b1 \<leftarrow> rd p 1;
        let i1 = i\<lparr>ntp_mode := b0 AND 0x07, ntp_stratum := b1\<rparr>;
        out \<leftarrow> snprintf (app_layer_info i1) 128
          (lit ''NTP '' @ lit (ntp_modes ! (unat (ntp_mode i1) mod 8)) @ lit '' (Stratum '' @
           dec (unat (ntp_stratum i1)) @ lit '')'');
        Some (i1\<lparr>app_layer_info := out\<rparr>) })"

definition dissect_ntp_core :: "byte list \<Rightarrow> int \<Rightarrow> packet_info \<Rightarrow> packet_info option" where
  "dissect_ntp_core p l i =
     (if l < 48 then Some i
      else do {
        b0 \<leftarrow> rd p 0;
        let mode = b0 AND 0x07;
        stratum \<leftarrow> rd p 1;
        n \<leftarrow> strlen (app_layer_info i);
        out \<leftarrow> snprintf_at (app_layer_info i) n (128 - n)
          (lit '' [Mode: '' @ lit (ntp_modes ! (unat mode mod 8)) @ lit '', Stratum: '' @
           dec (unat stratum) @ lit '']'');
        Some (i\<lparr>app_layer_info := out\<rparr>) })"

text \<open>The chassis and port strings of LLDP. For a TLV of length 0 the source computes
  \<^verbatim>\<open>sl = min((int)len - 1, 31) = -1\<close> and calls \<^verbatim>\<open>memcpy\<close> with it: undefined behaviour.\<close>

definition lldp_string :: "byte list \<Rightarrow> byte list \<Rightarrow> nat \<Rightarrow> nat \<Rightarrow> byte list option" where
  "lldp_string buf p off len =
     (if len = 0 then None
      else do {
        let sl = min (len - 1) 31;
        bs \<leftarrow> rd_bytes p (off + 1) sl;
        buf1 \<leftarrow> wr_bytes buf 0 bs;
        wr buf1 sl 0 })"

definition lldp_type :: "u16 \<Rightarrow> u16" where
  "lldp_type tlv = drop_bit 9 tlv"

definition lldp_len :: "u16 \<Rightarrow> nat" where
  "lldp_len tlv = unat (tlv AND 0x01FF)"

function lldp_loop :: "byte list \<Rightarrow> nat \<Rightarrow> nat \<Rightarrow> packet_info \<Rightarrow> packet_info option" where
  "lldp_loop p l off i =
     (if off + 2 \<le> l then do {
        tlv \<leftarrow> rd_be16 p off;
        if off + 2 + lldp_len tlv > l then Some i
        else if lldp_type tlv = 1 then do {
          s \<leftarrow> lldp_string (lldp_chassis i) p (off + 2) (lldp_len tlv);
          lldp_loop p l (off + 2 + lldp_len tlv) (i\<lparr>lldp_chassis := s\<rparr>) }
        else if lldp_type tlv = 2 then do {
          s \<leftarrow> lldp_string (lldp_port i) p (off + 2) (lldp_len tlv);
          lldp_loop p l (off + 2 + lldp_len tlv) (i\<lparr>lldp_port := s\<rparr>) }
        else if lldp_type tlv = 0 then Some i
        else lldp_loop p l (off + 2 + lldp_len tlv) i }
      else Some i)"
  by pat_completeness auto
termination
  by (relation "measure (\<lambda>(p, l, off, i). l - off)") auto

declare lldp_loop.simps [simp del]

definition dissect_lldp :: "byte list \<Rightarrow> int \<Rightarrow> packet_info \<Rightarrow> packet_info option" where
  "dissect_lldp p l i = do {
     i1 \<leftarrow> lldp_loop p (nat l) 0 i;
     c \<leftarrow> cstr (lldp_chassis i1);
     q \<leftarrow> cstr (lldp_port i1);
     out \<leftarrow> snprintf (app_layer_info i1) 128 (lit ''LLDP '' @ c @ lit ''/'' @ q);
     Some (i1\<lparr>app_layer_info := out\<rparr>) }"

definition igmp_text :: "byte \<Rightarrow> string" where
  "igmp_text t =
     (if t = 0x11 then ''Query''
      else if t = 0x12 then ''v1 Report''
      else if t = 0x16 then ''v2 Report''
      else if t = 0x17 then ''v2 Leave''
      else if t = 0x22 then ''v3 Report''
      else ''?'')"

definition dissect_igmp :: "byte list \<Rightarrow> int \<Rightarrow> packet_info \<Rightarrow> packet_info option" where
  "dissect_igmp p l i =
     (if l < 8 then Some i
      else do {
        t \<leftarrow> rd p 0;
        g \<leftarrow> rd_bytes p 4 4;
        let i1 = i\<lparr>igmp_type := t, igmp_group := g\<rparr>;
        out \<leftarrow> snprintf (extra_info i1) 128
          (lit ''IGMP '' @ lit (igmp_text t) @ lit '' Group '' @
           dec (unat (g ! 0)) @ lit ''.'' @ dec (unat (g ! 1)) @ lit ''.'' @
           dec (unat (g ! 2)) @ lit ''.'' @ dec (unat (g ! 3)));
        Some (i1\<lparr>extra_info := out\<rparr>) })"

definition dissect_vxlan :: "byte list \<Rightarrow> int \<Rightarrow> packet_info \<Rightarrow> packet_info option" where
  "dissect_vxlan p l i =
     (if l < 8 then Some i
      else do {
        a \<leftarrow> rd p 4;
        b \<leftarrow> rd p 5;
        c \<leftarrow> rd p 6;
        let vni = push_bit 16 (ucast a) OR push_bit 8 (ucast b) OR ucast c;
        out \<leftarrow> snprintf (app_layer_info i) 128 (lit ''VXLAN VNI: '' @ dec (unat vni));
        Some (i\<lparr>vxlan_vni := vni, app_layer_info := out\<rparr>) })"

section \<open>Contracts\<close>

lemma snprintf_text:
  "snprintf_at out off m t = Some out' \<Longrightarrow> length out' = length out \<and> (0 \<in> set out \<longrightarrow> 0 \<in> set out')"
  by (auto dest: snprintf_at_length snprintf_keeps_NUL)

lemma dissect_ntp_keeps:
  "dissect_ntp p l i = Some i' \<Longrightarrow> (info_ok i \<longrightarrow> info_ok i') \<and> core i' = core i"
  unfolding dissect_ntp_def Let_def
  by (elim if_SomeE bind_SomeE) (auto dest!: snprintf_text simp: info_ok_def)

lemma dissect_ntp_core_keeps:
  "dissect_ntp_core p l i = Some i' \<Longrightarrow> (info_ok i \<longrightarrow> info_ok i') \<and> core i' = core i"
  unfolding dissect_ntp_core_def Let_def
  by (elim if_SomeE bind_SomeE) (auto dest!: snprintf_text simp: info_ok_def)

lemma dissect_igmp_keeps:
  "dissect_igmp p l i = Some i' \<Longrightarrow> (info_ok i \<longrightarrow> info_ok i') \<and> core i' = core i"
  unfolding dissect_igmp_def Let_def
  by (elim if_SomeE bind_SomeE) (auto dest!: snprintf_text simp: info_ok_def rd_bytes_def split: if_splits)

lemma dissect_vxlan_keeps:
  "dissect_vxlan p l i = Some i' \<Longrightarrow> (info_ok i \<longrightarrow> info_ok i') \<and> core i' = core i"
  unfolding dissect_vxlan_def Let_def
  by (elim if_SomeE bind_SomeE) (auto dest!: snprintf_text simp: info_ok_def)

lemma lldp_string_length: "lldp_string buf p off len = Some s \<Longrightarrow> length s = length buf"
  unfolding lldp_string_def Let_def
  by (elim if_SomeE bind_SomeE) (auto dest!: wr_length wr_bytes_length)

lemma lldp_string_NUL: "lldp_string buf p off len = Some s \<Longrightarrow> 0 \<in> set s"
  unfolding lldp_string_def Let_def
  by (elim if_SomeE bind_SomeE) (auto simp: wr_def set_update_memI split: if_splits)

lemma lldp_loop_keeps:
  "lldp_loop p l off i = Some i' \<Longrightarrow>
   (info_ok i \<longrightarrow> info_ok i') \<and> core i' = core i \<and> app_layer_info i' = app_layer_info i"
proof (induction "l - off" arbitrary: off i rule: less_induct)
  case less
  from less.prems show ?case
    unfolding lldp_loop.simps [of p l off i]
    by (elim if_SomeE bind_SomeE)
      ((simp; fail) | (drule less.hyps [rotated], simp, frule lldp_string_length, drule lldp_string_NUL,
         simp add: info_ok_def; fail)
       | (drule less.hyps [rotated], simp, simp; fail))+
qed

lemma dissect_lldp_keeps:
  "dissect_lldp p l i = Some i' \<Longrightarrow> (info_ok i \<longrightarrow> info_ok i') \<and> core i' = core i"
  unfolding dissect_lldp_def
  by (elim bind_SomeE) (auto dest!: snprintf_text lldp_loop_keeps simp: info_ok_def)

lemma snprintf_app_layer:
  assumes "info_ok i" "n \<le> 128"
  shows "\<exists>out. snprintf_at (app_layer_info i) n (128 - n) t = Some out"
  using snprintf_at_Some [of n "128 - n" "app_layer_info i" t] assms by (auto simp: info_ok_def)

lemma dissect_ntp_returns:
  "nat l \<le> length p \<Longrightarrow> info_ok i \<Longrightarrow> \<exists>i'. dissect_ntp p l i = Some i'"
  using snprintf_app_layer [of i 0] by (auto simp: dissect_ntp_def Let_def rd_def bind_ret_iff)

lemma dissect_ntp_core_returns:
  assumes "nat l \<le> length p" "info_ok i"
  shows "\<exists>i'. dissect_ntp_core p l i = Some i'"
proof -
  obtain s where s: "cstr (app_layer_info i) = Some s" using assms(2) by (auto simp: info_ok_def cstr_def)
  have "length (app_layer_info i) = 128" using assms(2) by (simp add: info_ok_wf)
  then have "length s \<le> 128" using cstr_split [OF s] by fastforce
  then show ?thesis using assms s snprintf_app_layer [OF assms(2)]
    by (auto simp: dissect_ntp_core_def Let_def rd_def strlen_def bind_ret_iff)
qed

lemma dissect_vxlan_returns:
  "nat l \<le> length p \<Longrightarrow> info_ok i \<Longrightarrow> \<exists>i'. dissect_vxlan p l i = Some i'"
  using snprintf_app_layer [of i 0] by (auto simp: dissect_vxlan_def Let_def rd_def bind_ret_iff)

lemma dissect_igmp_returns:
  assumes "nat l \<le> length p" "info_ok i"
  shows "\<exists>i'. dissect_igmp p l i = Some i'"
proof -
  have "\<exists>out. snprintf (extra_info i) 128 t = Some out" for t
    using snprintf_at_Some [of 0 128 "extra_info i" t] assms(2) by (auto simp: info_ok_def)
  then show ?thesis using assms(1) by (auto simp: dissect_igmp_def Let_def rd_def rd_bytes_def bind_ret_iff)
qed

interpretation ntp: total_info_dissector dissect_ntp
  by unfold_locales (auto dest: dissect_ntp_keeps dissect_ntp_returns)

interpretation ntp_core: total_info_dissector dissect_ntp_core
  by unfold_locales (auto dest: dissect_ntp_core_keeps dissect_ntp_core_returns)

interpretation igmp: total_info_dissector dissect_igmp
  by unfold_locales (auto dest: dissect_igmp_keeps dissect_igmp_returns)

interpretation vxlan: total_info_dissector dissect_vxlan
  by unfold_locales (auto dest: dissect_vxlan_keeps dissect_vxlan_returns)

interpretation lldp: info_dissector dissect_lldp
  by unfold_locales (auto dest: dissect_lldp_keeps)

section \<open>Lemmas: TLVs and texts\<close>

lemma unat_be32: "unat (be32 a b c d) = 16777216 * unat a + 65536 * unat b + 256 * unat c + unat d"
proof -
  have "be32 a b c d = push_bit 16 (ucast (be16 a b)) OR ucast (be16 c d)"
  proof (rule bit_word_eqI)
    fix n
    assume "n < LENGTH(32)"
    then consider "n < 8" | "8 \<le> n" "n < 16" | "16 \<le> n" "n < 24" | "24 \<le> n" "n < 32"
      by fastforce
    moreover have b: "8 \<le> k \<Longrightarrow> \<not> bit x k" for x :: byte and k
      using bit_imp_le_length [of x k] by auto
    ultimately show "bit (be32 a b c d) n = bit (push_bit 16 (ucast (be16 a b)) OR ucast (be16 c d) :: u32) n"
      by cases (auto simp: be32_def be16_def bit_simps b)
  qed
  moreover have "push_bit 16 (ucast (be16 a b) :: u32) AND ucast (be16 c d) = 0"
    by (rule bit_eqI) (auto simp: bit_simps dest: bit_imp_le_length)
  ultimately have "be32 a b c d = push_bit 16 (ucast (be16 a b)) + ucast (be16 c d)"
    by (simp add: disjunctive_add_eq_or)
  moreover have u16: "unat w < 65536" for w :: u16
    using unsigned_less [of w] by simp
  moreover have "take_bit 32 (unat w) = unat w" for w :: u16
    using less_trans [OF u16 [of w], of 4294967296] by (simp add: take_bit_nat_eq_self_iff)
  moreover have "unat (be16 a b) * 65536 + unat (be16 c d) < 4294967296"
    using u16 [of "be16 a b"] u16 [of "be16 c d"] by linarith
  ultimately have "unat (be32 a b c d) = unat (be16 a b) * 65536 + unat (be16 c d)"
    by (simp add: push_bit_eq_mult unat_word_ariths unsigned_ucast_eq)
  then show ?thesis by (simp add: unat_be16)
qed

definition lldp_tlv :: "nat \<Rightarrow> byte list \<Rightarrow> byte list" where
  "lldp_tlv ty data = be16_bytes (of_nat (512 * ty + length data)) @ data"

lemma lldp_len_mod: "lldp_len w = unat w mod 512"
proof -
  have "(0x01FF :: u16) = mask 9" by (simp add: mask_eq_exp_minus_1)
  then have "w AND 0x01FF = take_bit 9 w" by (simp add: take_bit_eq_mask)
  then show ?thesis by (simp add: lldp_len_def take_bit_eq_mod unat_mod)
qed

lemma lldp_type_div: "unat (lldp_type w) = unat w div 512"
  by (simp add: lldp_type_def drop_bit_eq_div unat_div)

lemma lldp_tlv_header:
  assumes "ty < 128" "length data < 512"
  shows "lldp_len (of_nat (512 * ty + length data)) = length data"
    "lldp_type (of_nat (512 * ty + length data)) = of_nat ty"
proof -
  have u: "unat (of_nat (512 * ty + length data) :: u16) = 512 * ty + length data"
    using assms by (simp add: unat_of_nat del: of_nat_add of_nat_mult)
  show "lldp_len (of_nat (512 * ty + length data)) = length data"
    unfolding lldp_len_mod u using assms by simp
  have "unat (lldp_type (of_nat (512 * ty + length data))) = ty"
    unfolding lldp_type_div u using assms by simp
  then show "lldp_type (of_nat (512 * ty + length data)) = of_nat ty"
    by (metis of_nat_unat ucast_id)
qed

text \<open>One TLV with a non-empty value at the head of what is left.\<close>

lemma lldp_string_value:
  assumes "length buf = 32"
  shows "lldp_string buf (pre @ (x # v) @ rest) (length pre) (Suc (length v)) =
    Some (take 31 v @ 0 # drop (Suc (min (length v) 31)) buf)"
proof -
  have "rd_bytes (pre @ (x # v) @ rest) (length pre + 1) (min (length v) 31) = Some (take 31 v)"
    by (simp add: rd_bytes_def min_le_iff_disj) (simp add: min_def)
  moreover have "length (take 31 v) < 32" by simp
  moreover have "drop (min (length v) 31) buf =
      buf ! min (length v) 31 # drop (Suc (min (length v) 31)) buf"
    using assms by (simp add: Cons_nth_drop_Suc)
  ultimately show ?thesis using assms
    by (simp add: lldp_string_def Let_def wr_bytes_def wr_def list_update_append)
qed

lemma lldp_loop_tlv:
  assumes "ty < 128" "length data < 512" "length pre + 2 + length data \<le> l"
  shows "lldp_loop (pre @ lldp_tlv ty data @ rest) l (length pre) i =
    (if ty = 1 then do {
       s \<leftarrow> lldp_string (lldp_chassis i) (pre @ lldp_tlv ty data @ rest) (length pre + 2) (length data);
       lldp_loop (pre @ lldp_tlv ty data @ rest) l (length pre + 2 + length data) (i\<lparr>lldp_chassis := s\<rparr>) }
     else if ty = 2 then do {
       s \<leftarrow> lldp_string (lldp_port i) (pre @ lldp_tlv ty data @ rest) (length pre + 2) (length data);
       lldp_loop (pre @ lldp_tlv ty data @ rest) l (length pre + 2 + length data) (i\<lparr>lldp_port := s\<rparr>) }
     else if ty = 0 then Some i
     else lldp_loop (pre @ lldp_tlv ty data @ rest) l (length pre + 2 + length data) i)"
proof -
  define p where "p = pre @ lldp_tlv ty data @ rest"
  define w :: u16 where "w = of_nat (512 * ty + length data)"
  have "rd_be16 p (length pre) = Some w"
    unfolding w_def p_def lldp_tlv_def append_assoc by (rule rd_be16_at)
  moreover have "(of_nat ty = (1 :: u16)) = (ty = 1)" "(of_nat ty = (2 :: u16)) = (ty = 2)"
    "(of_nat ty = (0 :: u16)) = (ty = 0)"
    using assms(1) by (simp_all add: word_unat_eq_iff unat_of_nat)
  ultimately show ?thesis
    using assms lldp_tlv_header [OF assms(1,2)] unfolding p_def [symmetric] w_def [symmetric]
    by (simp add: lldp_loop.simps [of p l "length pre" i])
qed

section \<open>Properties\<close>

text \<open>C32: an LLDP frame with a chassis id TLV, a port id TLV and the end TLV is dissected to the two
  ids (their subtype byte removed, cut at 31 bytes) and to the text \<^verbatim>\<open>LLDP chassis/port\<close>.\<close>

theorem dissect_lldp_ids:
  assumes "wf_info i" "length c < 511" "length q < 511" "0 \<notin> set c" "0 \<notin> set q"
    and "p = lldp_tlv 1 (x # c) @ lldp_tlv 2 (y # q) @ lldp_tlv 0 [] @ rest"
    and "l = int (length p - length rest)"
  shows "\<exists>i'. dissect_lldp p l i = Some i' \<and> cstr (lldp_chassis i') = Some (take 31 c) \<and>
    cstr (lldp_port i') = Some (take 31 q) \<and>
    cstr (app_layer_info i') = Some (lit ''LLDP '' @ take 31 c @ lit ''/'' @ take 31 q)"
proof -
  define s1 where "s1 = take 31 c @ 0 # drop (Suc (min (length c) 31)) (lldp_chassis i)"
  define s2 where "s2 = take 31 q @ 0 # drop (Suc (min (length q) 31)) (lldp_port i)"
  define i1 where "i1 = i\<lparr>lldp_chassis := s1, lldp_port := s2\<rparr>"
  have nl: "nat l = 8 + length c + length q"
    using assms(6,7) by (simp add: lldp_tlv_def)
  let ?p2 = "lldp_tlv 1 (x # c)" and ?p3 = "lldp_tlv 1 (x # c) @ lldp_tlv 2 (y # q)"
  have lens: "length ?p2 = 3 + length c" "length ?p3 = 6 + length c + length q"
    by (simp_all add: lldp_tlv_def)
  have step1: "lldp_loop p (nat l) 0 i = lldp_loop p (nat l) (length ?p2) (i\<lparr>lldp_chassis := s1\<rparr>)"
    using lldp_loop_tlv [of 1 "x # c" "[]" "nat l" "lldp_tlv 2 (y # q) @ lldp_tlv 0 [] @ rest" i]
      lldp_string_value [of "lldp_chassis i" "be16_bytes (of_nat (512 * 1 + length (x # c)))" x c
        "lldp_tlv 2 (y # q) @ lldp_tlv 0 [] @ rest"] assms nl lens(1)
    by (simp add: s1_def lldp_tlv_def)
  have step2: "lldp_loop p (nat l) (length ?p2) (i\<lparr>lldp_chassis := s1\<rparr>) = lldp_loop p (nat l) (length ?p3) i1"
    using lldp_loop_tlv [of 2 "y # q" ?p2 "nat l" "lldp_tlv 0 [] @ rest" "i\<lparr>lldp_chassis := s1\<rparr>"]
      lldp_string_value [of "lldp_port i" "?p2 @ be16_bytes (of_nat (512 * 2 + length (y # q)))" y q
        "lldp_tlv 0 [] @ rest"] assms nl lens
    by (simp add: s2_def i1_def lldp_tlv_def)
  have step3: "lldp_loop p (nat l) (length ?p3) i1 = Some i1"
    using lldp_loop_tlv [of 0 "[]" ?p3 "nat l" rest i1] assms(6) nl lens by simp
  have loop: "lldp_loop p (nat l) 0 i = Some i1" using step1 step2 step3 by simp
  have nz: "0 \<notin> set (take 31 c)" "0 \<notin> set (take 31 q)"
    using assms(4,5) by (meson in_set_takeD)+
  then have c: "cstr (lldp_chassis i1) = Some (take 31 c)" "cstr (lldp_port i1) = Some (take 31 q)"
    by (simp_all add: i1_def s1_def s2_def cstr_terminated)
  have "length (lit ''LLDP '' @ take 31 c @ lit ''/'' @ take 31 q) < 128"
    "0 \<notin> set (lit ''LLDP '' @ take 31 c @ lit ''/'' @ take 31 q)"
    using nz by (simp_all add: lit_def)
  from snprintf_cstr [OF _ _ this, of "app_layer_info i1"] obtain out where "snprintf (app_layer_info i1) 128 (lit ''LLDP '' @ take 31 c @ lit ''/'' @ take 31 q) = Some out"
    "cstr out = Some (lit ''LLDP '' @ take 31 c @ lit ''/'' @ take 31 q)"
    using assms(1) by (auto simp: i1_def)
  then show ?thesis using loop c by (simp add: dissect_lldp_def)
qed

theorem dissect_lldp_ids_witness:
  "\<exists>i'. dissect_lldp (lldp_tlv 1 [4, 97, 98] @ lldp_tlv 2 [5, 99] @ lldp_tlv 0 [] @ []) 11 zero_info = Some i' \<and>
    cstr (lldp_chassis i') = Some [97, 98] \<and> cstr (lldp_port i') = Some [99]"
  using dissect_lldp_ids [of zero_info "[97, 98]" "[99]" _ 4 5 "[]" 11, OF _ _ _ _ _ refl]
  by (auto simp: lldp_tlv_def)

text \<open>A chassis id or port id TLV of length 0 makes \<^verbatim>\<open>dissect_lldp\<close> copy \<^verbatim>\<open>(size_t)-1\<close> bytes:
  the run has no defined result, wherever in the frame the TLV stands at the head of the loop.\<close>

theorem lldp_empty_id_undefined:
  assumes "ty = 1 \<or> ty = 2" "length pre + 2 \<le> l"
  shows "lldp_loop (pre @ lldp_tlv ty [] @ rest) l (length pre) i = None"
  using lldp_loop_tlv [of ty "[]" pre l rest i] assms by (auto simp: lldp_string_def)

theorem lldp_empty_id_undefined_example:
  "dissect_lldp ([] @ lldp_tlv 1 [] @ [0, 0]) 4 zero_info = None"
  using lldp_empty_id_undefined [of 1 "[]" 4 "[0, 0]" zero_info] by (simp add: dissect_lldp_def)

text \<open>On an NTP packet the two calls of the dissector leave the mode and stratum of the header
  in their fields and the text \<^verbatim>\<open>NTP mode (Stratum n) [Mode: mode, Stratum: n]\<close>.\<close>

theorem dissect_ntp_text:
  assumes "wf_info i" "48 \<le> l" "2 \<le> length p"
  shows "\<exists>i1 i2. dissect_ntp p l i = Some i1 \<and> dissect_ntp_core p l i1 = Some i2 \<and>
    ntp_mode i2 = p ! 0 AND 0x07 \<and> ntp_stratum i2 = p ! 1 \<and>
    cstr (app_layer_info i2) = Some
      (let mode = lit (ntp_modes ! (unat (p ! 0 AND 0x07) mod 8)); stratum = dec (unat (p ! 1)) in
       (lit ''NTP '' @ mode @ lit '' (Stratum '' @ stratum @ lit '')'') @
       lit '' [Mode: '' @ mode @ lit '', Stratum: '' @ stratum @ lit '']'')"
proof -
  define k where "k = unat (p ! 0 AND 0x07) mod 8"
  define mode where "mode = lit (ntp_modes ! k)"
  define stratum where "stratum = dec (unat (p ! 1))"
  define t1 where "t1 = lit ''NTP '' @ mode @ lit '' (Stratum '' @ stratum @ lit '')''"
  define t2 where "t2 = lit '' [Mode: '' @ mode @ lit '', Stratum: '' @ stratum @ lit '']''"
  define i1 where "i1 = i\<lparr>ntp_mode := p ! 0 AND 0x07, ntp_stratum := p ! 1\<rparr>"
  have "k < 8" by (simp add: k_def)
  then have "k \<in> {0, 1, 2, 3, 4, 5, 6, 7}" by auto
  then have m: "length mode \<le> 5" "0 \<notin> set mode"
    unfolding mode_def ntp_modes_def by (elim insertE; simp add: lit_def)+
  have s: "length stratum \<le> 3" "0 \<notin> set stratum"
    by (simp_all add: stratum_def dec_NUL dec_length_byte)
  have t: "length t1 + length t2 < 128" "0 \<notin> set t1" "0 \<notin> set t2"
    using m s by (simp_all add: t1_def t2_def lit_def)
  have rd: "rd p 0 = Some (p ! 0)" "rd p 1 = Some (p ! 1)"
    using assms(3) by (simp_all add: rd_low [of 2])
  obtain out1 where o1: "snprintf (app_layer_info i) 128 t1 = Some out1" "length out1 = 128"
    "cstr out1 = Some t1"
    using snprintf_cstr [of 128 "app_layer_info i" t1] t assms(1) by auto
  then obtain out2 where o2: "snprintf_at out1 (length t1) (128 - length t1) t2 = Some out2"
    "cstr out2 = Some (t1 @ t2)"
    using snprintf_append_cstr [of out1 t1 t2 128] t by auto
  have 1: "dissect_ntp p l i = Some (i1\<lparr>app_layer_info := out1\<rparr>)"
    using o1(1) rd assms(2)
    by (simp add: dissect_ntp_def i1_def t1_def mode_def stratum_def k_def)
  have "strlen out1 = Some (length t1)" using o1(3) by (simp add: strlen_def)
  then have 2: "dissect_ntp_core p l (i1\<lparr>app_layer_info := out1\<rparr>) =
      Some (i1\<lparr>app_layer_info := out1, app_layer_info := out2\<rparr>)"
    using o2(1) rd assms(2)
    by (simp add: dissect_ntp_core_def t2_def mode_def stratum_def k_def Let_def)
  show ?thesis
    by (rule exI, rule exI, intro conjI, rule 1, rule 2)
      (simp_all add: i1_def o2(2) Let_def t1_def t2_def mode_def stratum_def k_def)
qed

theorem dissect_ntp_text_example:
  "\<exists>i1 i2. dissect_ntp (0x24 # 2 # replicate 46 0) 48 zero_info = Some i1 \<and>
    dissect_ntp_core (0x24 # 2 # replicate 46 0) 48 i1 = Some i2 \<and> ntp_mode i2 = 4 \<and> ntp_stratum i2 = 2"
  using dissect_ntp_text [of zero_info 48 "0x24 # 2 # replicate 46 0"] by auto

text \<open>The VXLAN network identifier is the 24-bit big-endian number in bytes 4 to 6 of the
  header.\<close>

theorem dissect_vxlan_vni:
  assumes "wf_info i" "8 \<le> l" "8 \<le> length p"
  shows "\<exists>i'. dissect_vxlan p l i = Some i' \<and>
    unat (vxlan_vni i') = 65536 * unat (p ! 4) + 256 * unat (p ! 5) + unat (p ! 6)"
proof -
  define vni :: u32 where "vni = push_bit 16 (ucast (p ! 4)) OR push_bit 8 (ucast (p ! 5)) OR ucast (p ! 6)"
  obtain out where out: "snprintf (app_layer_info i) 128 (lit ''VXLAN VNI: '' @ dec (unat vni)) = Some out"
    using snprintf_at_Some [of 0 128 "app_layer_info i"] assms(1) by (auto simp: )
  have "vni = be32 0 (p ! 4) (p ! 5) (p ! 6)" by (simp add: vni_def be32_def)
  then show ?thesis
    using assms out unat_be32 [of 0 "p ! 4" "p ! 5" "p ! 6"]
    by (simp add: dissect_vxlan_def rd_low [of 8] flip: vni_def)
qed

theorem dissect_vxlan_vni_example:
  "\<exists>i'. dissect_vxlan [8, 0, 0, 0, 1, 2, 3, 0] 8 zero_info = Some i' \<and> unat (vxlan_vni i') = 66051"
  using dissect_vxlan_vni [of zero_info 8 "[8, 0, 0, 0, 1, 2, 3, 0]"] by simp

end
