(* ===== verification/Byte_Stats.thy ===== *)
theory Byte_Stats
  imports Packet_Types Complex_Main
begin

text \<open>
  \<^verbatim>\<open>calculate_byte_stats\<close> and \<^verbatim>\<open>calculate_entropy_scaled\<close> of \<^verbatim>\<open>cpp/protocol_dissectors.cpp\<close>.
  The entropy is computed in \<^verbatim>\<open>double\<close>: the floating-point operations are the fields of
  \<^verbatim>\<open>fp_ops\<close>, a parameter of the definition, and \<^verbatim>\<open>real_fp\<close> is the exact arithmetic that IEEE
  doubles round.
\<close>

section \<open>Byte frequencies\<close>

text \<open>The counters \<^verbatim>\<open>counts[256]\<close> as a function of the byte; \<^term>\<open>bs\<close> is what is left of
  \<^verbatim>\<open>d[0..l)\<close>.\<close>

fun byte_stats_loop :: "byte list \<Rightarrow> (byte \<Rightarrow> u32) \<Rightarrow> u32 \<Rightarrow> byte \<Rightarrow> u32 \<times> byte" where
  "byte_stats_loop [] counts max_f tb = (max_f, tb)"
| "byte_stats_loop (b # bs) counts max_f tb =
     (let counts' = counts(b := counts b + 1) in
      if counts' b > max_f then byte_stats_loop bs counts' (counts' b) b
      else byte_stats_loop bs counts' max_f tb)"

definition calculate_byte_stats :: "byte list \<Rightarrow> int \<Rightarrow> packet_info \<Rightarrow> packet_info option" where
  "calculate_byte_stats d l i =
     (if l \<le> 0 then Some i
      else do {
        bs \<leftarrow> rd_bytes d 0 (nat l);
        let (max_f, tb) = byte_stats_loop bs (\<lambda>_. 0) 0 (top_byte i);
        Some (i\<lparr>top_byte := tb, top_byte_freq := ucast ((max_f * 100) div word_of_int l)\<rparr>) })"

section \<open>Entropy\<close>

record 'd fp_ops =
  fp_of_int :: "int \<Rightarrow> 'd"
  fp_div :: "'d \<Rightarrow> 'd \<Rightarrow> 'd"
  fp_mul :: "'d \<Rightarrow> 'd \<Rightarrow> 'd"
  fp_sub :: "'d \<Rightarrow> 'd \<Rightarrow> 'd"
  fp_log2 :: "'d \<Rightarrow> 'd"
  fp_to_u32 :: "'d \<Rightarrow> u32"

fun histogram :: "byte list \<Rightarrow> (byte \<Rightarrow> int) \<Rightarrow> (byte \<Rightarrow> int)" where
  "histogram [] f = f"
| "histogram (b # bs) f = histogram bs (f(b := f b + 1))"

fun entropy_loop :: "'d fp_ops \<Rightarrow> (byte \<Rightarrow> int) \<Rightarrow> int \<Rightarrow> nat list \<Rightarrow> 'd \<Rightarrow> 'd" where
  "entropy_loop fp f l [] e = e"
| "entropy_loop fp f l (k # ks) e =
     (if f (of_nat k) > 0
      then let p = fp_div fp (fp_of_int fp (f (of_nat k))) (fp_of_int fp l)
           in entropy_loop fp f l ks (fp_sub fp e (fp_mul fp p (fp_log2 fp p)))
      else entropy_loop fp f l ks e)"

definition calculate_entropy_scaled :: "'d fp_ops \<Rightarrow> byte list \<Rightarrow> int \<Rightarrow> u32 option" where
  "calculate_entropy_scaled fp d l =
     (if l \<le> 0 then Some 0
      else do {
        bs \<leftarrow> rd_bytes d 0 (nat l);
        let e = entropy_loop fp (histogram bs (\<lambda>_. 0)) l [0..<256] (fp_of_int fp 0);
        Some (fp_to_u32 fp (fp_mul fp e (fp_of_int fp 1000))) })"

definition real_fp :: "real fp_ops" where
  "real_fp = \<lparr>fp_of_int = of_int, fp_div = (/), fp_mul = (*), fp_sub = (-), fp_log2 = log 2,
              fp_to_u32 = (\<lambda>x. word_of_int \<lfloor>x\<rfloor>)\<rparr>"

section \<open>Lemmas: the most frequent byte\<close>

lemma byte_stats_loop_max:
  assumes "\<forall>b. counts b = of_nat (c b)" "max_f = of_nat mx"
    and "\<forall>b. c b + count_list bs b < 2 ^ 32" "\<forall>b. c b \<le> mx" "mx = 0 \<or> c tb = mx" "mx < 2 ^ 32"
  shows "\<exists>mx' tb'. byte_stats_loop bs counts max_f tb = (of_nat mx', tb') \<and> mx' < 2 ^ 32 \<and>
    (\<forall>b. c b + count_list bs b \<le> mx') \<and> (mx' = 0 \<or> c tb' + count_list bs tb' = mx')"
  using assms
proof (induction bs arbitrary: c counts max_f mx tb)
  case Nil
  then show ?case by auto
next
  case (Cons b bs)
  define c' where "c' = c(b := c b + 1)"
  have cnt: "c' x + count_list bs x = c x + count_list (b # bs) x" for x
    by (simp add: c'_def)
  have lt: "c b + 1 < 2 ^ 32" using spec [OF Cons.prems(3), of b] by simp
  have counts': "\<forall>x. (counts(b := counts b + 1)) x = of_nat (c' x)"
    using Cons.prems(1) by (simp add: c'_def)
  have cmp: "counts b + 1 > max_f \<longleftrightarrow> c b + 1 > mx"
  proof -
    have "counts b + 1 = of_nat (c b + 1)" using Cons.prems(1) by simp
    then have "unat (counts b + 1) = c b + 1" using lt by (simp add: unat_of_nat del: of_nat_Suc of_nat_add)
    moreover have "unat max_f = mx" using Cons.prems(2,6) by (simp add: unat_of_nat)
    ultimately show ?thesis by (simp add: word_less_nat_alt)
  qed
  have bound: "\<forall>x. c' x + count_list bs x < 2 ^ 32" unfolding cnt by (rule Cons.prems(3))
  show ?case
  proof (cases "c b + 1 > mx")
    case True
    have val: "counts b + 1 = of_nat (c b + 1)" using Cons.prems(1) by simp
    have top: "c' x \<le> c b + 1" for x
      using spec [OF Cons.prems(4), of x] True by (simp add: c'_def)
    have tb: "c b + 1 = 0 \<or> c' b = c b + 1" by (simp add: c'_def)
    have step: "byte_stats_loop (b # bs) counts max_f tb =
        byte_stats_loop bs (counts(b := counts b + 1)) (counts b + 1) b"
      using cmp True by (simp add: Let_def)
    show ?thesis
      using Cons.IH [OF counts' val bound allI [OF top] tb lt] unfolding step cnt .
  next
    case False
    have top: "\<forall>x. c' x \<le> mx" and tb: "mx = 0 \<or> c' tb = mx"
      using Cons.prems(4,5) False by (auto simp: c'_def)
    have step: "byte_stats_loop (b # bs) counts max_f tb =
        byte_stats_loop bs (counts(b := counts b + 1)) max_f tb"
      using cmp False by (simp add: Let_def)
    show ?thesis
      using Cons.IH [OF counts' Cons.prems(2) bound top tb Cons.prems(6)] unfolding step cnt .
  qed
qed

lemma count_list_length_le: "count_list xs x \<le> length xs"
  by (induction xs) auto


lemma histogram_count: "histogram bs f b = f b + int (count_list bs b)"
  by (induction bs arbitrary: f) auto

section \<open>Lemmas: the entropy of a byte string\<close>

text \<open>The Shannon entropy, in bits per byte, of the distribution of the bytes of a non-empty string:
  what the C++ loop is meant to compute.\<close>

definition byte_prob :: "byte list \<Rightarrow> byte \<Rightarrow> real" where
  "byte_prob bs b = real (count_list bs b) / real (length bs)"

definition shannon :: "byte list \<Rightarrow> real" where
  "shannon bs = (\<Sum>b\<in>set bs. - (byte_prob bs b * log 2 (byte_prob bs b)))"

lemma of_nat_unat_ucast: "(ucast (w :: u32) :: byte) = of_nat (unat w)"
  by simp

lemma byte_of_nat_inj: "j < 256 \<Longrightarrow> k < 256 \<Longrightarrow> (of_nat j :: byte) = of_nat k \<longleftrightarrow> j = k"
  by (auto simp: word_unat_eq_iff unat_of_nat)

lemma entropy_loop_real:
  assumes "\<forall>b. f b = int (count_list bs b)" "distinct ks" "\<forall>k\<in>set ks. k < 256" "l = int (length bs)"
  shows "entropy_loop real_fp f l ks e =
    e + (\<Sum>b\<in>set bs \<inter> of_nat ` set ks. - (byte_prob bs b * log 2 (byte_prob bs b)))"
  using assms(2,3)
proof (induction ks arbitrary: e)
  case Nil
  then show ?case by simp
next
  case (Cons k ks)
  have "of_nat k \<noteq> (of_nat j :: byte)" if "j \<in> set ks" for j
    using Cons.prems that byte_of_nat_inj [of k j] by auto
  then have new: "of_nat k \<notin> (of_nat ` set ks :: byte set)" by auto
  show ?case
  proof (cases "(of_nat k :: byte) \<in> set bs")
    case True
    then have "set bs \<inter> of_nat ` set (k # ks) = insert (of_nat k) (set bs \<inter> of_nat ` set ks)" by auto
    moreover have "f (of_nat k) > 0" using True assms(1) by (auto simp: count_list_0_iff intro: Suc_leI gr0I)
    ultimately show ?thesis using new Cons assms(1,4)
      by (simp add: Let_def real_fp_def byte_prob_def)
  next
    case False
    then have "set bs \<inter> of_nat ` set (k # ks) = set bs \<inter> (of_nat ` set ks :: byte set)"
      "f (of_nat k) = 0"
      using assms(1) by auto
    then show ?thesis using Cons by simp
  qed
qed

lemma bytes_of_nat: "(of_nat ` {0..<256} :: byte set) = UNIV"
proof -
  have "b = of_nat (unat b)" "unat b \<in> {0..<256}" for b :: byte
    using unat_byte [of b] by auto
  then show ?thesis by blast
qed

lemma entropy_loop_shannon:
  assumes "l = int (length bs)"
  shows "entropy_loop real_fp (histogram bs (\<lambda>_. 0)) l [0..<256] 0 = shannon bs"
  using entropy_loop_real [of "histogram bs (\<lambda>_. 0)" bs "[0..<256]" l 0] assms
  by (simp add: histogram_count bytes_of_nat shannon_def)

lemma byte_prob_pos: "b \<in> set bs \<Longrightarrow> 0 < byte_prob bs b"
  by (auto simp: byte_prob_def count_list_0_iff zero_less_divide_iff intro!: gr0I)

lemma byte_prob_le_1: "byte_prob bs b \<le> 1"
  using count_list_length_le [of bs b] by (auto simp: byte_prob_def divide_le_eq)

lemma byte_prob_sum: "bs \<noteq> [] \<Longrightarrow> (\<Sum>b\<in>set bs. byte_prob bs b) = 1"
  using sum_count_set [of bs "set bs"]
  by (simp add: byte_prob_def flip: sum_divide_distrib of_nat_sum)

lemma shannon_nonneg: "0 \<le> shannon bs"
  unfolding shannon_def using byte_prob_pos byte_prob_le_1
  by (intro sum_nonneg) (simp add: mult_nonneg_nonpos less_imp_le)

text \<open>Gibbs' inequality against the uniform distribution on the 256 bytes.\<close>

lemma entropy_term_le:
  fixes p :: real
  assumes "0 < p"
  shows "- (p * log 2 p) \<le> 8 * p + (1 / 256 - p) / ln 2"
proof -
  have "ln (1 / (256 * p)) \<le> 1 / (256 * p) - 1"
    using assms by (intro ln_le_minus_one) simp
  moreover have "ln (1 / (256 * p)) = - ln 256 - ln p"
    using assms by (simp add: ln_div ln_mult)
  moreover have "ln (256 :: real) = 8 * ln 2"
    using ln_realpow [of 2 8] by simp
  ultimately have "- ln p \<le> 8 * ln 2 + (1 / (256 * p) - 1)" by simp
  then have "p * - ln p \<le> p * (8 * ln 2 + (1 / (256 * p) - 1))"
    using assms by (intro mult_left_mono) simp_all
  also have "\<dots> = 8 * p * ln 2 + (1 / 256 - p)"
    using assms by (simp add: field_simps)
  finally have "(p * - ln p) / ln 2 \<le> (8 * p * ln 2 + (1 / 256 - p)) / ln 2"
    by (intro divide_right_mono) simp_all
  then show ?thesis by (simp add: log_def add_divide_distrib)
qed

lemma shannon_le_8:
  assumes "bs \<noteq> []"
  shows "shannon bs \<le> 8"
proof -
  have "shannon bs \<le> (\<Sum>b\<in>set bs. 8 * byte_prob bs b + (1 / 256 - byte_prob bs b) / ln 2)"
    unfolding shannon_def by (intro sum_mono entropy_term_le byte_prob_pos)
  also have "\<dots> = 8 + (real (card (set bs)) / 256 - 1) / ln 2"
    using byte_prob_sum [OF assms]
    by (simp add: sum.distrib sum_subtractf flip: sum_distrib_left sum_divide_distrib)
  also have "\<dots> \<le> 8"
  proof -
    have "card (set bs) \<le> card (UNIV :: byte set)" by (rule card_mono) simp_all
    then have "real (card (set bs)) / 256 - 1 \<le> 0" by (simp add: card_word)
    then show ?thesis by (simp add: divide_nonpos_pos)
  qed
  finally show ?thesis .
qed

section \<open>Properties\<close>

text \<open>C30: On a readable range of 0 < l bytes (\<^term>\<open>l < 2 ^ 25\<close>, so that \<^verbatim>\<open>max_f * 100\<close> does not wrap)
  \<^verbatim>\<open>calculate_byte_stats\<close> sets \<^verbatim>\<open>top_byte\<close> to a byte that no other byte of the range outnumbers, sets
  \<^verbatim>\<open>top_byte_freq\<close> to its share of the range in whole percent, at most 100 and so not truncated by
  the cast to \<^verbatim>\<open>uint8_t\<close>, and changes no other field.\<close>

theorem calculate_byte_stats_top:
  assumes "0 < l" "nat l \<le> length d" "l < 2 ^ 25"
  shows "\<exists>tb. calculate_byte_stats d l i = Some (i\<lparr>top_byte := tb,
      top_byte_freq := of_nat (100 * count_list (take (nat l) d) tb div nat l)\<rparr>) \<and>
    (\<forall>b. count_list (take (nat l) d) b \<le> count_list (take (nat l) d) tb) \<and>
    100 * count_list (take (nat l) d) tb div nat l \<le> 100"
proof -
  define bs where "bs = take (nat l) d"
  have len: "length bs = nat l" using assms(2) by (simp add: bs_def)
  obtain mx tb where loop: "byte_stats_loop bs (\<lambda>_. 0) 0 (top_byte i) = (of_nat mx, tb)"
    and max: "\<forall>b. count_list bs b \<le> mx" and hit: "mx = 0 \<or> count_list bs tb = mx"
    using byte_stats_loop_max [of "\<lambda>_. 0" "\<lambda>_. 0" 0 0 bs "top_byte i"]
      count_list_length_le [of bs] len assms(3) by (force intro: le_less_trans)
  have mx: "mx = count_list bs tb"
    using hit max by (metis le_zero_eq)
  have le: "mx \<le> nat l" using count_list_length_le [of bs tb] mx len by simp
  have "of_nat mx * 100 = (of_nat (100 * mx) :: u32)" by simp
  moreover have "word_of_int l = (of_nat (nat l) :: u32)" using assms(1) by simp
  ultimately have "unat (of_nat mx * 100 div (word_of_int l :: u32)) = 100 * mx div nat l"
    using le assms by (simp add: unat_div unat_of_nat del: of_nat_mult of_nat_nat)
  then have "(ucast (of_nat mx * 100 div (word_of_int l :: u32)) :: byte) = of_nat (100 * mx div nat l)"
    by (metis of_nat_unat_ucast)
  moreover have "100 * mx div nat l \<le> 100" using le assms(1)
    by (metis div_le_mono div_mult_self_is_m mult_le_mono2 zero_less_nat_eq)
  ultimately show ?thesis
    using assms loop max mx unfolding calculate_byte_stats_def bs_def
    by (intro exI [of _ tb]) (simp add: rd_bytes_def not_le)
qed

theorem calculate_byte_stats_top_witness:
  "\<exists>tb. calculate_byte_stats [7, 9, 7] 3 zero_info = Some (zero_info\<lparr>top_byte := tb,
      top_byte_freq := of_nat (100 * count_list (take (nat 3) [7, 9, 7]) tb div nat 3)\<rparr>) \<and>
    (\<forall>b. count_list (take (nat 3) [7, 9, 7]) (b :: byte) \<le> count_list (take (nat 3) [7, 9, 7]) tb) \<and>
    100 * count_list (take (nat 3) [7, 9, 7]) tb div nat 3 \<le> 100"
  by (rule calculate_byte_stats_top) simp_all

text \<open>C31: In exact arithmetic \<^verbatim>\<open>calculate_entropy_scaled\<close> returns the Shannon entropy of the range
  in thousandths of a bit per byte, rounded down. It lies between 0 and 8000, so the conversion to
  \<^verbatim>\<open>uint32_t\<close> is defined and loses nothing; a range of one repeated byte gives 0.\<close>

theorem calculate_entropy_scaled_shannon:
  assumes "0 < l" "nat l \<le> length d"
  shows "\<exists>e. calculate_entropy_scaled real_fp d l = Some e \<and>
    int (unat e) = \<lfloor>1000 * shannon (take (nat l) d)\<rfloor> \<and> unat e \<le> 8000 \<and>
    (card (set (take (nat l) d)) = 1 \<longrightarrow> e = 0)"
proof -
  define bs where "bs = take (nat l) d"
  have len: "l = int (length bs)" and ne: "bs \<noteq> []" using assms by (auto simp: bs_def)
  define v where "v = \<lfloor>1000 * shannon bs\<rfloor>"
  have v: "0 \<le> v" "v \<le> 8000"
    using shannon_nonneg [of bs] shannon_le_8 [OF ne] unfolding v_def by (simp, linarith)
  have "calculate_entropy_scaled real_fp d l = Some (word_of_int v)"
    using assms entropy_loop_shannon [OF len]
    by (simp add: calculate_entropy_scaled_def rd_bytes_def bs_def [symmetric] v_def mult.commute)
       (simp add: real_fp_def mult.commute)
  moreover have "int (unat (word_of_int v :: u32)) = v"
    using v by (simp add: uint_word_of_int_eq take_bit_int_eq_self flip: uint_nat)
  moreover have "v = 0" if one: "card (set bs) = 1"
  proof -
    obtain b where b: "set bs = {b}" using card_1_singletonE [OF one] by blast
    then have "byte_prob bs b = 1" using byte_prob_sum [OF ne] by simp
    then show ?thesis using b by (simp add: v_def shannon_def)
  qed
  moreover have "unat (word_of_int v :: u32) \<le> 8000" using calculation(2) v by linarith
  ultimately show ?thesis unfolding bs_def [symmetric] v_def [symmetric] by auto
qed

theorem calculate_entropy_scaled_shannon_witness:
  "\<exists>e. calculate_entropy_scaled real_fp [5, 5] 2 = Some e \<and>
    int (unat e) = \<lfloor>1000 * shannon (take (nat 2) [5, 5])\<rfloor> \<and> unat e \<le> 8000 \<and>
    (card (set (take (nat 2) [5 :: byte, 5])) = 1 \<longrightarrow> e = 0)"
  by (rule calculate_entropy_scaled_shannon) simp_all

end
