(* ===== verification/Dissect_Raw.thy ===== *)
theory Dissect_Raw
  imports Header_Parsers Tcp_Options Text_Dissectors Info_Dissectors Byte_Stats
begin

text \<open>
  \<^verbatim>\<open>dissect_raw_packet\<close> of \<^verbatim>\<open>cpp/packet_capture.cpp\<close>: the composition of the header parsers,
  the option walkers, the dissectors and the byte statistics into the \<^verbatim>\<open>PacketInfo\<close> that is sent.
  Each block of the function is one definition; \<^verbatim>\<open>packet\<close> is the array \<^verbatim>\<open>raw.data\<close>,
  \<^verbatim>\<open>cap\<close> is \<^verbatim>\<open>pkthdr->caplen\<close>. The result \<^term>\<open>None\<close> is an access outside an array. The
  \<^verbatim>\<open>uint8_t\<close> truncations of \<^verbatim>\<open>l3_offset\<close> and \<^verbatim>\<open>l4_offset\<close> and the conversion of the
  \<^verbatim>\<open>uint32_t\<close> length differences to \<^verbatim>\<open>int\<close> are kept.
\<close>

section \<open>The blocks of the function\<close>

text \<open>The bytes behind a pointer into the packet; nothing is readable behind the null pointer.\<close>

definition at_ptr :: "byte list \<Rightarrow> nat option \<Rightarrow> byte list" where
  "at_ptr packet q = (case q of None \<Rightarrow> [] | Some k \<Rightarrow> drop k packet)"

text \<open>A call that writes to \<^verbatim>\<open>info.extra_info\<close>.\<close>

definition on_extra :: "(byte list \<Rightarrow> byte list option) \<Rightarrow> packet_info \<Rightarrow> packet_info option" where
  "on_extra f i = do { o' \<leftarrow> f (extra_info i); Some (i\<lparr>extra_info := o'\<rparr>) }"

definition link_fields :: "raw_packet \<Rightarrow> ethernet_info \<Rightarrow> packet_info option" where
  "link_fields raw eth = do {
     let h = pkthdr raw;
     smac \<leftarrow> rd_bytes (rp_data raw) (eth_header eth + 6) 6;
     dmac \<leftarrow> rd_bytes (rp_data raw) (eth_header eth) 6;
     Some (zero_info\<lparr>timestamp := word_of_int (tv_sec h * 1000000 + tv_usec h),
       delta_time := rp_delta_time raw, src_mac := smac, dst_mac := dmac,
       l3_offset := of_nat (eth_header_len eth), vlan_id := eth_vlan_id eth,
       wire_len := wlen h\<rparr>) }"

definition ip_fields :: "nat \<Rightarrow> ip_info \<Rightarrow> packet_info \<Rightarrow> packet_info" where
  "ip_fields eth_hlen ip_i i =
     i\<lparr>src_ip := ip_src ip_i, dst_ip := ip_dst ip_i, protocol := ip_protocol ip_i,
       l4_offset := of_nat (eth_hlen + ip_header_len ip_i), ip_ttl := ip_ttl_f ip_i,
       ip_tos := ip_tos_f ip_i, ip_id := ip_id_f ip_i,
       is_ipv6 := (if ip_is_ipv6 ip_i then 1 else 0),
       is_fragment := (if ip_is_fragment ip_i then 1 else 0)\<rparr>"

text \<open>The walk over the IPv6 extension headers. It counts in \<^verbatim>\<open>info.ipv6_ext_count\<close>.\<close>

function ipv6_ext_loop ::
  "byte list \<Rightarrow> u32 \<Rightarrow> nat \<Rightarrow> byte \<Rightarrow> packet_info \<Rightarrow> (byte \<times> packet_info) option" where
  "ipv6_ext_loop packet cap v6_off nxt i =
     (if ipv6_ext_count i < 10 then
        if nxt = 0 \<or> nxt = 43 \<or> nxt = 60 then
          if int v6_off + 8 > sint cap then Some (nxt, i)
          else do {
            nxt' \<leftarrow> rd packet v6_off;
            len \<leftarrow> rd packet (v6_off + 1);
            ipv6_ext_loop packet cap (v6_off + (unat len + 1) * 8) nxt'
              (i\<lparr>ipv6_ext_count := ipv6_ext_count i + 1\<rparr>) }
        else if nxt = 44 then do {
          nxt' \<leftarrow> rd packet v6_off;
          ipv6_ext_loop packet cap (v6_off + 8) nxt'
            (i\<lparr>is_fragment := 1, ipv6_ext_count := ipv6_ext_count i + 1\<rparr>) }
        else Some (nxt, i)
      else Some (nxt, i))"
  by pat_completeness auto
termination
  by (relation "measure (\<lambda>(packet, cap, v6_off, nxt, i). 10 - unat (ipv6_ext_count i))")
     (auto simp: word_less_nat_alt unat_word_ariths)

declare ipv6_ext_loop.simps [simp del]

definition ipv6_block :: "byte list \<Rightarrow> u32 \<Rightarrow> ip_info \<Rightarrow> packet_info \<Rightarrow> packet_info option" where
  "ipv6_block packet cap ip_i i =
     (if is_ipv6 i \<noteq> 0 then do {
        flow \<leftarrow> rd_be32 packet (ip_header ip_i);
        nxt \<leftarrow> rd packet (ip_header ip_i + 6);
        (nxt', i') \<leftarrow> ipv6_ext_loop packet cap (unat (l3_offset i) + 40) nxt
                       (i\<lparr>ipv6_flow := flow AND 0x0FFFFF\<rparr>);
        Some (i'\<lparr>protocol := nxt'\<rparr>) }
      else Some i)"

definition icmp_block :: "byte list \<Rightarrow> u32 \<Rightarrow> packet_info \<Rightarrow> packet_info option" where
  "icmp_block packet cap i =
     (if protocol i = 1 \<or> protocol i = 58 then
        if protocol i = 1 \<and> unat (l4_offset i) + 8 \<le> unat cap then do {
          t \<leftarrow> rd packet (unat (l4_offset i));
          c \<leftarrow> rd packet (unat (l4_offset i) + 1);
          i' \<leftarrow> on_extra (\<lambda>o'. dissect_icmp_details t c o' 128) (i\<lparr>icmp_type := t, icmp_code := c\<rparr>);
          on_extra (\<lambda>o'. check_icmp_unreachable t c o' 128) i' }
        else if protocol i = 58 \<and> unat (l4_offset i) + 8 \<le> unat cap then do {
          t \<leftarrow> rd packet (unat (l4_offset i));
          c \<leftarrow> rd packet (unat (l4_offset i) + 1);
          on_extra (\<lambda>o'. dissect_icmp6_details t c o' 128) (i\<lparr>icmp_type := t, icmp_code := c\<rparr>) }
        else Some i
      else Some i)"

definition tcp_payload_block :: "byte list \<Rightarrow> transport_info \<Rightarrow> packet_info \<Rightarrow> packet_info option" where
  "tcp_payload_block packet t i =
     (let p = at_ptr packet (t_payload_ptr t); l = t_payload_len t in
      if t_payload_ptr t \<noteq> None \<and> l > 0 then
        if src_port i = 80 \<or> dst_port i = 80 then on_extra (\<lambda>o'. dissect_http p l o' 128) i
        else if src_port i = 4789 \<or> dst_port i = 4789 then dissect_vxlan p l i
        else do {
          s0 \<leftarrow> rd (tls_sni i) 0;
          if s0 = 0 then on_extra (\<lambda>o'. dissect_app_common p l o' 128) i
          else do { s \<leftarrow> dissect_tls_sni p l (tls_sni i) 64; Some (i\<lparr>tls_sni := s\<rparr>) } }
      else Some i)"

definition tcp_block ::
  "byte list \<Rightarrow> ip_info \<Rightarrow> transport_info \<Rightarrow> packet_info \<Rightarrow> packet_info option" where
  "tcp_block packet ip_i t i =
     (let i1 = i\<lparr>tcp_flags := t_flags t, tcp_seq := t_seq t, tcp_ack := t_ack t,
                 tcp_win := t_window t\<rparr>;
          off = unat (l3_offset i) + ip_header_len ip_i;
          h = (case t_payload_ptr t of Some q \<Rightarrow> q - off | None \<Rightarrow> 20)
      in do {
        i2 \<leftarrow> parse_tcp_options_extended packet off h i1;
        i3 \<leftarrow> check_tcp_anomalies i2 t;
        tcp_payload_block packet t i3 })"

definition udp_block :: "byte list \<Rightarrow> transport_info \<Rightarrow> packet_info \<Rightarrow> packet_info option" where
  "udp_block packet t i =
     (let p = at_ptr packet (t_payload_ptr t); l = t_payload_len t in
      if (src_port i = 53 \<or> dst_port i = 53) \<and> t_payload_ptr t \<noteq> None then do {
        s \<leftarrow> dissect_dns p l (dns_query i) 64;
        Some (i\<lparr>dns_query := s\<rparr>) }
      else if src_port i = 67 \<or> dst_port i = 67 \<or> src_port i = 68 \<or> dst_port i = 68
      then on_extra (\<lambda>o'. dissect_dhcp p l o' 128) i
      else if src_port i = 123 \<or> dst_port i = 123 then do {
        i' \<leftarrow> dissect_ntp p l i;
        dissect_ntp_core p l i' }
      else Some i)"

text \<open>\<^verbatim>\<open>packet + info.l4_offset\<close> and \<^verbatim>\<open>pkthdr->caplen - info.l4_offset\<close> as an \<^verbatim>\<open>int\<close>.\<close>

definition other_block :: "byte list \<Rightarrow> u32 \<Rightarrow> packet_info \<Rightarrow> packet_info option" where
  "other_block packet cap i =
     (let p = drop (unat (l4_offset i)) packet; l = sint (cap - ucast (l4_offset i)) in do {
        i1 \<leftarrow> (if protocol i = 89 then on_extra (\<lambda>o'. dissect_ospf p l o' 128) i else Some i);
        i2 \<leftarrow> (if protocol i1 = 47 then on_extra (\<lambda>o'. dissect_gre p l o' 128) i1 else Some i1);
        if protocol i2 = 2 then dissect_igmp p l i2 else Some i2 })"

definition transport_block ::
  "byte list \<Rightarrow> u32 \<Rightarrow> nat \<Rightarrow> ip_info \<Rightarrow> packet_info \<Rightarrow> packet_info option" where
  "transport_block packet cap eth_hlen ip_i i = do {
     t_opt \<leftarrow> parse_transport_layer packet cap eth_hlen ip_i;
     case t_opt of
       None \<Rightarrow> Some i
     | Some t \<Rightarrow> do {
         let i0 = i\<lparr>src_port := t_src_port t, dst_port := t_dst_port t\<rparr>;
         i1 \<leftarrow> (if protocol i0 = 6 then tcp_block packet ip_i t i0
               else if protocol i0 = 17 then udp_block packet t i0
               else Some i0);
         other_block packet cap i1 } }"

definition ip_block :: "byte list \<Rightarrow> u32 \<Rightarrow> nat \<Rightarrow> packet_info \<Rightarrow> packet_info option" where
  "ip_block packet cap eth_hlen i = do {
     ip_opt \<leftarrow> parse_ip_layer packet cap eth_hlen;
     case ip_opt of
       None \<Rightarrow> Some i
     | Some ip_i \<Rightarrow> do {
         i1 \<leftarrow> ipv6_block packet cap ip_i (ip_fields eth_hlen ip_i i);
         i2 \<leftarrow> icmp_block packet cap i1;
         transport_block packet cap eth_hlen ip_i i2 } }"

definition arp_block :: "byte list \<Rightarrow> u32 \<Rightarrow> nat \<Rightarrow> packet_info \<Rightarrow> packet_info option" where
  "arp_block packet cap eth_hlen i0 =
     (let i = i0\<lparr>protocol := 200\<rparr> in
      if unat cap \<ge> eth_hlen + 28 then do {
        pro \<leftarrow> rd_be16 packet (eth_hlen + 2);
        hln \<leftarrow> rd packet (eth_hlen + 4);
        pln \<leftarrow> rd packet (eth_hlen + 5);
        if pro = 0x0800 \<and> pln = 4 then do {
          let arp_ptr = eth_hlen + 8 + 2 * unat hln;
          a \<leftarrow> rd_bytes packet arp_ptr 4;
          s \<leftarrow> wr_bytes (src_ip i) 12 a;
          b \<leftarrow> rd_bytes packet (arp_ptr + 4 + unat hln) 4;
          d \<leftarrow> wr_bytes (dst_ip i) 12 b;
          Some (i\<lparr>src_ip := s, dst_ip := d\<rparr>) }
        else Some i }
      else Some i)"

definition stp_block ::
  "byte list \<Rightarrow> u32 \<Rightarrow> ethernet_info \<Rightarrow> packet_info \<Rightarrow> packet_info option" where
  "stp_block packet cap eth i = do {
     dhost \<leftarrow> rd_bytes packet (eth_header eth) 6;
     if dhost = [0x01, 0x80, 0xC2, 0x00, 0x00, 0x00]
     then on_extra (\<lambda>o'. dissect_stp (drop (eth_header_len eth) packet)
                          (sint (cap - of_nat (eth_header_len eth))) o' 128) (i\<lparr>protocol := 202\<rparr>)
     else Some i }"

text \<open>The last lines: payload, entropy and byte statistics.\<close>

definition payload_tail :: "'d fp_ops \<Rightarrow> byte list \<Rightarrow> u32 \<Rightarrow> packet_info \<Rightarrow> packet_info option" where
  "payload_tail fp packet cap i =
     (let capture_len = (if cap < of_nat MAX_PAYLOAD_SIZE then cap else of_nat MAX_PAYLOAD_SIZE) in do {
        e \<leftarrow> calculate_entropy_scaled fp packet (sint capture_len);
        i' \<leftarrow> calculate_byte_stats packet (sint capture_len)
                (i\<lparr>payload_len := ucast capture_len, entropy_scaled := e\<rparr>);
        bs \<leftarrow> rd_bytes packet 0 (unat capture_len);
        pl \<leftarrow> wr_bytes (payload i') 0 bs;
        Some (i'\<lparr>payload := pl\<rparr>) })"

definition dissect_raw_packet :: "'d fp_ops \<Rightarrow> raw_packet \<Rightarrow> packet_info \<Rightarrow> packet_info option" where
  "dissect_raw_packet fp raw info =
     (let packet = rp_data raw; cap = caplen (pkthdr raw) in do {
        eth_opt \<leftarrow> parse_ethernet_layer packet cap;
        case eth_opt of
          None \<Rightarrow> Some info
        | Some eth \<Rightarrow> do {
            i \<leftarrow> link_fields raw eth;
            let et = eth_ether_type eth;
            let hlen = eth_header_len eth;
            if et = 0x0800 \<or> et = 0x86DD
            then do { i' \<leftarrow> ip_block packet cap hlen i; payload_tail fp packet cap i' }
            else if et = 0x0806
            then do { i' \<leftarrow> arp_block packet cap hlen i; payload_tail fp packet cap i' }
            else if et \<le> 1500
            then do { i' \<leftarrow> stp_block packet cap eth i; payload_tail fp packet cap i' }
            else if et = 0x88cc
            then do { i' \<leftarrow> dissect_lldp (drop hlen packet) (sint (cap - of_nat hlen)) i;
                      payload_tail fp packet cap i' }
            else Some i } })"

section \<open>What the blocks keep\<close>

text \<open>\<^verbatim>\<open>dissect_raw_packet\<close> clears the struct before it fills it, so at every later point the
  SNI field is still zero, which makes the branch that calls \<^verbatim>\<open>dissect_tls_sni\<close> dead, and
  until the last lines so are the payload bytes.\<close>

definition clean :: "packet_info \<Rightarrow> bool" where
  "clean i \<longleftrightarrow> info_ok i \<and> tls_sni i = replicate 64 0 \<and> payload i = replicate 256 0"

lemma clean_ok: "clean i \<Longrightarrow> info_ok i"
  by (simp add: clean_def)

lemma core_fixed:
  assumes "core i = core j"
  shows "tls_sni i = tls_sni j" "payload i = payload j" "protocol i = protocol j"
    "l4_offset i = l4_offset j" "l3_offset i = l3_offset j" "src_port i = src_port j"
    "dst_port i = dst_port j" "timestamp i = timestamp j" "delta_time i = delta_time j"
    "src_mac i = src_mac j" "dst_mac i = dst_mac j" "vlan_id i = vlan_id j"
    "wire_len i = wire_len j" "src_ip i = src_ip j" "dst_ip i = dst_ip j" "ip_ttl i = ip_ttl j"
    "ip_tos i = ip_tos j" "ip_id i = ip_id j" "is_ipv6 i = is_ipv6 j"
    "is_fragment i = is_fragment j" "tcp_flags i = tcp_flags j" "tcp_seq i = tcp_seq j"
    "tcp_ack i = tcp_ack j" "tcp_win i = tcp_win j" "icmp_type i = icmp_type j"
    "icmp_code i = icmp_code j" "ipv6_ext_count i = ipv6_ext_count j"
    "payload_len i = payload_len j"
  using arg_cong [OF assms, of tls_sni] arg_cong [OF assms, of payload]
    arg_cong [OF assms, of protocol] arg_cong [OF assms, of l4_offset]
    arg_cong [OF assms, of l3_offset] arg_cong [OF assms, of src_port]
    arg_cong [OF assms, of dst_port] arg_cong [OF assms, of timestamp]
    arg_cong [OF assms, of delta_time] arg_cong [OF assms, of src_mac]
    arg_cong [OF assms, of dst_mac] arg_cong [OF assms, of vlan_id]
    arg_cong [OF assms, of wire_len] arg_cong [OF assms, of src_ip] arg_cong [OF assms, of dst_ip]
    arg_cong [OF assms, of ip_ttl] arg_cong [OF assms, of ip_tos] arg_cong [OF assms, of ip_id]
    arg_cong [OF assms, of is_ipv6] arg_cong [OF assms, of is_fragment]
    arg_cong [OF assms, of tcp_flags] arg_cong [OF assms, of tcp_seq]
    arg_cong [OF assms, of tcp_ack] arg_cong [OF assms, of tcp_win]
    arg_cong [OF assms, of icmp_type] arg_cong [OF assms, of icmp_code]
    arg_cong [OF assms, of ipv6_ext_count] arg_cong [OF assms, of payload_len]
  by (simp_all add: core_def)

lemma keeps_clean: "info_ok i' \<Longrightarrow> core i' = core i \<Longrightarrow> clean i \<Longrightarrow> clean i'"
  using core_fixed(1,2) [of i' i] by (simp add: clean_def)

context text_dissector
begin

lemma on_extra_keeps:
  assumes "on_extra (\<lambda>o'. dissect p l o' 128) i = Some i'" "info_ok i"
  shows "info_ok i' \<and> core i' = core i"
  using assms(1) unfolding on_extra_def
  by (rule bind_SomeE) (use keeps_extra_info [OF _ assms(2)] in auto)

lemma on_extra_returns:
  assumes "q + nat l + slack \<le> length packet" "info_ok i"
  shows "\<exists>i'. on_extra (\<lambda>o'. dissect (drop q packet) l o' 128) i = Some i' \<and>
    info_ok i' \<and> core i' = core i"
proof -
  have "0 \<in> set (extra_info i)" "length (extra_info i) = 128"
    using assms(2) by (auto simp: info_ok_def)
  then obtain out where "dissect (drop q packet) l (extra_info i) 128 = Some out"
    using on_packet [OF assms(1), of 128 "extra_info i"] by auto
  then have "on_extra (\<lambda>o'. dissect (drop q packet) l o' 128) i = Some (i\<lparr>extra_info := out\<rparr>)"
    by (simp add: on_extra_def)
  then show ?thesis using on_extra_keeps assms(2) by blast
qed

end

lemma snprintf_extra:
  assumes "info_ok i" "snprintf (extra_info i) 128 s = Some out"
  shows "info_ok (i\<lparr>extra_info := out\<rparr>)"
  using assms snprintf_text [OF assms(2)] by (auto simp: info_ok_def)

lemma snprintf_extra_returns:
  assumes "info_ok i"
  shows "\<exists>out. snprintf (extra_info i) 128 s = Some out"
  using snprintf_at_Some [of 0 128 "extra_info i" s] assms by (auto simp: info_ok_def)

lemma check_tcp_anomalies_step:
  assumes "info_ok i"
  shows "\<exists>i'. check_tcp_anomalies i t = Some i' \<and> info_ok i' \<and> core i' = core i"
proof -
  obtain o1 o2 where "snprintf (extra_info i) 128 (lit ''TCP ZeroWindow'') = Some o1"
    "snprintf (extra_info i) 128 (lit ''TCP Keep-Alive'') = Some o2"
    using snprintf_extra_returns [OF assms] by blast
  then show ?thesis using assms snprintf_extra [OF assms]
    unfolding check_tcp_anomalies_def by simp
qed

lemma icmp_calls_step:
  assumes "info_ok i"
  shows "\<exists>i'. on_extra (\<lambda>o'. dissect_icmp_details t c o' 128) i = Some i' \<and> info_ok i' \<and> core i' = core i"
    and "\<exists>i'. on_extra (\<lambda>o'. check_icmp_unreachable t c o' 128) i = Some i' \<and> info_ok i' \<and> core i' = core i"
    and "\<exists>i'. on_extra (\<lambda>o'. dissect_icmp6_details t c o' 128) i = Some i' \<and> info_ok i' \<and> core i' = core i"
proof -
  have one: "\<exists>i'. on_extra (\<lambda>o'. snprintf o' 128 s) i = Some i' \<and> info_ok i' \<and> core i' = core i" for s
    using snprintf_extra_returns [OF assms, of s] snprintf_extra [OF assms]
    by (auto simp: on_extra_def)
  then show "\<exists>i'. on_extra (\<lambda>o'. dissect_icmp_details t c o' 128) i = Some i' \<and> info_ok i' \<and> core i' = core i"
    "\<exists>i'. on_extra (\<lambda>o'. dissect_icmp6_details t c o' 128) i = Some i' \<and> info_ok i' \<and> core i' = core i"
    by (simp_all add: dissect_icmp_details_def dissect_icmp6_details_def)
  have "on_extra (\<lambda>o'. Some o') i = Some i" by (simp add: on_extra_def)
  then show "\<exists>i'. on_extra (\<lambda>o'. check_icmp_unreachable t c o' 128) i = Some i' \<and> info_ok i' \<and> core i' = core i"
    using one assms unfolding check_icmp_unreachable_def by (cases "t = 3"; cases "c < 8") simp_all
qed

lemma info_ok_updates [simp]:
  "info_ok (i\<lparr>protocol := v0\<rparr>) = info_ok i"
  "info_ok (i\<lparr>l4_offset := v1\<rparr>) = info_ok i"
  "info_ok (i\<lparr>ip_ttl := v2\<rparr>) = info_ok i"
  "info_ok (i\<lparr>ip_tos := v3\<rparr>) = info_ok i"
  "info_ok (i\<lparr>ip_id := v4\<rparr>) = info_ok i"
  "info_ok (i\<lparr>is_ipv6 := v5\<rparr>) = info_ok i"
  "info_ok (i\<lparr>is_fragment := v6\<rparr>) = info_ok i"
  "info_ok (i\<lparr>ipv6_flow := v7\<rparr>) = info_ok i"
  "info_ok (i\<lparr>ipv6_ext_count := v8\<rparr>) = info_ok i"
  "info_ok (i\<lparr>icmp_type := v9\<rparr>) = info_ok i"
  "info_ok (i\<lparr>icmp_code := v10\<rparr>) = info_ok i"
  "info_ok (i\<lparr>src_port := v11\<rparr>) = info_ok i"
  "info_ok (i\<lparr>dst_port := v12\<rparr>) = info_ok i"
  "info_ok (i\<lparr>tcp_flags := v13\<rparr>) = info_ok i"
  "info_ok (i\<lparr>tcp_seq := v14\<rparr>) = info_ok i"
  "info_ok (i\<lparr>tcp_ack := v15\<rparr>) = info_ok i"
  "info_ok (i\<lparr>tcp_win := v16\<rparr>) = info_ok i"
  "info_ok (i\<lparr>payload_len := v17\<rparr>) = info_ok i"
  "info_ok (i\<lparr>entropy_scaled := v18\<rparr>) = info_ok i"
  "info_ok (i\<lparr>top_byte := v19\<rparr>) = info_ok i"
  "info_ok (i\<lparr>top_byte_freq := v20\<rparr>) = info_ok i"
  "info_ok (i\<lparr>timestamp := v21\<rparr>) = info_ok i"
  "info_ok (i\<lparr>delta_time := v22\<rparr>) = info_ok i"
  "info_ok (i\<lparr>l3_offset := v23\<rparr>) = info_ok i"
  "info_ok (i\<lparr>vlan_id := v24\<rparr>) = info_ok i"
  "info_ok (i\<lparr>wire_len := v25\<rparr>) = info_ok i"
  by (simp_all add: info_ok_def)

lemma clean_updates [simp]:
  "clean (i\<lparr>protocol := v0\<rparr>) = clean i"
  "clean (i\<lparr>l4_offset := v1\<rparr>) = clean i"
  "clean (i\<lparr>ip_ttl := v2\<rparr>) = clean i"
  "clean (i\<lparr>ip_tos := v3\<rparr>) = clean i"
  "clean (i\<lparr>ip_id := v4\<rparr>) = clean i"
  "clean (i\<lparr>is_ipv6 := v5\<rparr>) = clean i"
  "clean (i\<lparr>is_fragment := v6\<rparr>) = clean i"
  "clean (i\<lparr>ipv6_flow := v7\<rparr>) = clean i"
  "clean (i\<lparr>ipv6_ext_count := v8\<rparr>) = clean i"
  "clean (i\<lparr>icmp_type := v9\<rparr>) = clean i"
  "clean (i\<lparr>icmp_code := v10\<rparr>) = clean i"
  "clean (i\<lparr>src_port := v11\<rparr>) = clean i"
  "clean (i\<lparr>dst_port := v12\<rparr>) = clean i"
  "clean (i\<lparr>tcp_flags := v13\<rparr>) = clean i"
  "clean (i\<lparr>tcp_seq := v14\<rparr>) = clean i"
  "clean (i\<lparr>tcp_ack := v15\<rparr>) = clean i"
  "clean (i\<lparr>tcp_win := v16\<rparr>) = clean i"
  "clean (i\<lparr>payload_len := v17\<rparr>) = clean i"
  "clean (i\<lparr>entropy_scaled := v18\<rparr>) = clean i"
  "clean (i\<lparr>top_byte := v19\<rparr>) = clean i"
  "clean (i\<lparr>top_byte_freq := v20\<rparr>) = clean i"
  "clean (i\<lparr>timestamp := v21\<rparr>) = clean i"
  "clean (i\<lparr>delta_time := v22\<rparr>) = clean i"
  "clean (i\<lparr>l3_offset := v23\<rparr>) = clean i"
  "clean (i\<lparr>vlan_id := v24\<rparr>) = clean i"
  "clean (i\<lparr>wire_len := v25\<rparr>) = clean i"
  by (simp_all add: clean_def)

lemma ipv6_ext_loop_keeps:
  "ipv6_ext_loop packet cap off nxt i = Some (nxt', i') \<Longrightarrow>
   \<exists>f c. i' = i\<lparr>is_fragment := f, ipv6_ext_count := c\<rparr> \<and>
     (ipv6_ext_count i \<le> 10 \<longrightarrow> ipv6_ext_count i \<le> c \<and> c \<le> 10)"
proof (induction packet cap off nxt i rule: ipv6_ext_loop.induct)
  case (1 packet cap off nxt i)
  have up: "c < 10 \<Longrightarrow> c \<le> c + 1 \<and> c + 1 \<le> (10 :: byte)" for c
    by (simp add: word_le_nat_alt word_less_nat_alt unat_word_ariths)
  have id: "\<exists>f c. i = i\<lparr>is_fragment := f, ipv6_ext_count := c\<rparr> \<and>
      (ipv6_ext_count i \<le> 10 \<longrightarrow> ipv6_ext_count i \<le> c \<and> c \<le> 10)"
    by (rule exI [of _ "is_fragment i"], rule exI [of _ "ipv6_ext_count i"]) simp
  from "1.prems" show ?case
    unfolding ipv6_ext_loop.simps [of packet cap off nxt i]
  proof (elim if_SomeE bind_SomeE, goal_cases)
    case (2 a len)
    obtain f c where "i' = i\<lparr>ipv6_ext_count := ipv6_ext_count i + 1, is_fragment := f, ipv6_ext_count := c\<rparr>"
      "ipv6_ext_count i + 1 \<le> 10 \<longrightarrow> ipv6_ext_count i + 1 \<le> c \<and> c \<le> 10"
      using "1.IH"(1) [OF 2(1,2,3,4,5,6)] by auto
    then show ?case using up [OF 2(1)] order_trans by (intro exI [of _ f] exI [of _ c]) auto
  next
    case (3 a)
    obtain f c where "i' = i\<lparr>is_fragment := 1, ipv6_ext_count := ipv6_ext_count i + 1, is_fragment := f, ipv6_ext_count := c\<rparr>"
      "ipv6_ext_count i + 1 \<le> 10 \<longrightarrow> ipv6_ext_count i + 1 \<le> c \<and> c \<le> 10"
      using "1.IH"(2) [OF 3(1,2,3,4,5)] by auto
    then show ?case using up [OF 3(1)] order_trans by (intro exI [of _ f] exI [of _ c]) auto
  qed (use id in auto)
qed

lemma ipv6_block_keeps:
  assumes "ipv6_block packet cap ip_i i = Some i'"
  shows "\<exists>fl f c pr. i' = i\<lparr>ipv6_flow := fl, is_fragment := f, ipv6_ext_count := c, protocol := pr\<rparr>"
proof (cases "is_ipv6 i \<noteq> 0")
  case True
  with assms show ?thesis unfolding ipv6_block_def
    by (auto elim!: bind_SomeE dest!: ipv6_ext_loop_keeps split: prod.splits)
next
  case False
  then have "i' = i\<lparr>ipv6_flow := ipv6_flow i, is_fragment := is_fragment i,
      ipv6_ext_count := ipv6_ext_count i, protocol := protocol i\<rparr>"
    using assms by (simp add: ipv6_block_def)
  then show ?thesis by blast
qed

lemma icmp_block_keeps:
  assumes "icmp_block packet cap i = Some i'" "info_ok i"
  shows "info_ok i' \<and> (\<exists>t c. core i' = core (i\<lparr>icmp_type := t, icmp_code := c\<rparr>))"
proof -
  have same: "\<exists>t c. core i = core (i\<lparr>icmp_type := t, icmp_code := c\<rparr>)"
    by (rule exI [of _ "icmp_type i"], rule exI [of _ "icmp_code i"]) simp
  have ok: "info_ok (i\<lparr>icmp_type := t, icmp_code := c\<rparr>)" for t c using assms(2) by simp
  show ?thesis using assms(1) unfolding icmp_block_def
  proof (elim if_SomeE bind_SomeE, goal_cases)
    case (1 t c i1)
    then have "info_ok i1 \<and> core i1 = core (i\<lparr>icmp_type := t, icmp_code := c\<rparr>)"
      using icmp_calls_step(1) [OF ok [of c t], of t c] by simp
    then show ?case using 1 icmp_calls_step(2) [of i1 t c] by auto
  next
    case (2 t c)
    then show ?case using icmp_calls_step(3) [OF ok [of c t], of t c] by auto
  qed (use same assms(2) in auto)
qed

lemma tcp_payload_block_keeps:
  assumes "tcp_payload_block packet t i = Some i'" "clean i"
  shows "clean i' \<and> core i' = core i"
proof -
  have ok: "info_ok i" and sni: "rd (tls_sni i) 0 = Some 0"
    using assms(2) by (simp_all add: clean_def rd_def)
  have "info_ok i' \<and> core i' = core i"
    using assms(1) ok unfolding tcp_payload_block_def Let_def sni
    by (auto split: if_splits dest: http.on_extra_keeps app_common.on_extra_keeps
        vxlan.keeps_ok vxlan.keeps_core)
  then show ?thesis using assms(2) keeps_clean by blast
qed

lemma tcp_block_keeps:
  assumes "tcp_block packet ip_i t i = Some i'" "clean i"
  shows "clean i' \<and>
    core i' = core (i\<lparr>tcp_flags := t_flags t, tcp_seq := t_seq t, tcp_ack := t_ack t, tcp_win := t_window t\<rparr>)"
proof -
  define i1 where "i1 = i\<lparr>tcp_flags := t_flags t, tcp_seq := t_seq t, tcp_ack := t_ack t, tcp_win := t_window t\<rparr>"
  have c1: "clean i1" using assms(2) by (simp add: i1_def)
  obtain off h i2 i3 where "parse_tcp_options_extended packet off h i1 = Some i2"
    "check_tcp_anomalies i2 t = Some i3" and last: "tcp_payload_block packet t i3 = Some i'"
    using assms(1) unfolding tcp_block_def Let_def i1_def by (auto elim!: bind_SomeE)
  then have "info_ok i3 \<and> core i3 = core i1"
    using parse_tcp_options_extended_keeps [of packet off h i1 i2] check_tcp_anomalies_step [of i2 t]
      clean_ok [OF c1] by auto
  then show ?thesis
    using tcp_payload_block_keeps [OF last] keeps_clean c1 unfolding i1_def by auto
qed

lemma udp_block_keeps:
  assumes "udp_block packet t i = Some i'" "clean i"
  shows "clean i' \<and> core i' = core i"
proof -
  have ok: "info_ok i" using assms(2) by (rule clean_ok)
  have dns: "info_ok (i\<lparr>dns_query := s\<rparr>)" if "dissect_dns p l (dns_query i) 64 = Some s" for p l s
  proof -
    have nul: "0 \<in> set (dns_query i)" and len: "length (dns_query i) = 64"
      using ok by (simp_all add: info_ok_def)
    have "0 \<in> set s" by (rule dns.terminated [OF that _ nul len [symmetric]]) simp
    then show ?thesis using dns.same_length [OF that] ok by (simp add: info_ok_def)
  qed
  have "info_ok i' \<and> core i' = core i"
    using assms(1) unfolding udp_block_def Let_def
  proof (elim if_SomeE bind_SomeE, goal_cases)
    case (1 s)
    then show ?case using dns by auto
  next
    case 2
    then show ?case using dhcp.on_extra_keeps ok by blast
  next
    case (3 j)
    then show ?case using ntp.keeps_ok ntp.keeps_core ntp_core.keeps_ok ntp_core.keeps_core ok by metis
  next
    case 4
    then show ?case using ok by simp
  qed
  then show ?thesis using assms(2) keeps_clean by blast
qed

lemma other_block_keeps:
  assumes "other_block packet cap i = Some i'" "clean i"
  shows "clean i' \<and> core i' = core i"
proof -
  define p l where "p = drop (unat (l4_offset i)) packet" and "l = sint (cap - ucast (l4_offset i))"
  obtain i1 i2 where 1: "(if protocol i = 89 then on_extra (\<lambda>o'. dissect_ospf p l o' 128) i else Some i) = Some i1"
    and 2: "(if protocol i1 = 47 then on_extra (\<lambda>o'. dissect_gre p l o' 128) i1 else Some i1) = Some i2"
    and 3: "(if protocol i2 = 2 then dissect_igmp p l i2 else Some i2) = Some i'"
    using assms(1) unfolding other_block_def Let_def p_def l_def by (elim bind_SomeE)
  have "info_ok i1 \<and> core i1 = core i"
    using 1 ospf.on_extra_keeps clean_ok [OF assms(2)] by (auto split: if_splits)
  then have "info_ok i2 \<and> core i2 = core i"
    using 2 gre.on_extra_keeps [of p l i1 i2] by (auto split: if_splits)
  then have "info_ok i' \<and> core i' = core i"
    using 3 igmp.keeps_ok igmp.keeps_core by (auto split: if_splits)
  then show ?thesis using assms(2) keeps_clean by blast
qed

lemma transport_block_keeps:
  assumes "transport_block packet cap hlen ip_i i = Some i'" "clean i"
  shows "clean i'"
proof -
  from assms(1) obtain t_opt where "(case t_opt of
       None \<Rightarrow> Some i
     | Some t \<Rightarrow> do {
         let i0 = i\<lparr>src_port := t_src_port t, dst_port := t_dst_port t\<rparr>;
         i1 \<leftarrow> (if protocol i0 = 6 then tcp_block packet ip_i t i0
               else if protocol i0 = 17 then udp_block packet t i0
               else Some i0);
         other_block packet cap i1 }) = Some i'"
    unfolding transport_block_def by (elim bind_SomeE)
  then show ?thesis using assms(2)
    by (cases t_opt) (auto simp: Let_def elim!: bind_SomeE split: if_splits
        dest!: tcp_block_keeps udp_block_keeps other_block_keeps)
qed

lemma clean_ip_fields:
  assumes "clean i" "length (ip_src ip_i) = 16" "length (ip_dst ip_i) = 16"
  shows "clean (ip_fields hlen ip_i i)"
  using assms by (simp add: clean_def info_ok_def ip_fields_def)

lemma parse_ip_layer_lengths:
  assumes "parse_ip_layer packet cap hlen = Some (Some ip_i)"
  shows "length (ip_src ip_i) = 16" "length (ip_dst ip_i) = 16"
  using assms unfolding parse_ip_layer_def parse_ipv4_def parse_ipv6_def Let_def
  by (auto elim!: bind_SomeE simp: rd_bytes_def split: if_splits)

lemma ip_block_keeps:
  assumes "ip_block packet cap hlen i = Some i'" "clean i"
  shows "clean i'"
proof -
  from assms(1) obtain ip_opt where ip: "parse_ip_layer packet cap hlen = Some ip_opt"
    and run: "(case ip_opt of None \<Rightarrow> Some i
     | Some ip_i \<Rightarrow> do {
         i1 \<leftarrow> ipv6_block packet cap ip_i (ip_fields hlen ip_i i);
         i2 \<leftarrow> icmp_block packet cap i1;
         transport_block packet cap hlen ip_i i2 }) = Some i'"
    unfolding ip_block_def by (elim bind_SomeE)
  show ?thesis
  proof (cases ip_opt)
    case None
    then show ?thesis using run assms(2) by simp
  next
    case (Some ip_i)
    then obtain i1 i2 where r: "ipv6_block packet cap ip_i (ip_fields hlen ip_i i) = Some i1"
      "icmp_block packet cap i1 = Some i2" "transport_block packet cap hlen ip_i i2 = Some i'"
      using run by (auto elim!: bind_SomeE)
    have "clean (ip_fields hlen ip_i i)"
      using clean_ip_fields [OF assms(2)] parse_ip_layer_lengths ip Some by simp
    then have c1: "clean i1" using ipv6_block_keeps [OF r(1)] by auto
    then have "clean i2"
      using icmp_block_keeps [OF r(2) clean_ok [OF c1]] keeps_clean by (metis clean_updates(10,11))
    then show ?thesis by (rule transport_block_keeps [OF r(3)])
  qed
qed

lemma arp_block_keeps:
  assumes "arp_block packet cap hlen i = Some i'" "clean i"
  shows "clean i'"
  using assms unfolding arp_block_def Let_def
  by (auto elim!: bind_SomeE split: if_splits dest!: wr_bytes_length simp: clean_def info_ok_def)

lemma stp_block_keeps:
  assumes "stp_block packet cap eth i = Some i'" "clean i"
  shows "clean i'"
proof -
  have "info_ok (i\<lparr>protocol := 202\<rparr>)" "clean (i\<lparr>protocol := 202\<rparr>)"
    using assms(2) by (simp_all add: clean_ok)
  then have "clean j" if "on_extra (\<lambda>o'. dissect_stp p l o' 128) (i\<lparr>protocol := 202\<rparr>) = Some j" for p l j
    using stp.on_extra_keeps [OF that] keeps_clean by blast
  then show ?thesis using assms unfolding stp_block_def
    by (elim bind_SomeE if_SomeE) auto
qed

text \<open>The last lines copy the first \<^verbatim>\<open>min(caplen, 256)\<close> bytes; the struct stays sendable.\<close>

definition capture_len :: "u32 \<Rightarrow> nat" where
  "capture_len cap = min (unat cap) 256"

lemma capture_len_word:
  fixes cap :: u32
  defines "c \<equiv> (if cap < of_nat MAX_PAYLOAD_SIZE then cap else of_nat MAX_PAYLOAD_SIZE)"
  shows "unat c = capture_len cap" "sint c = int (capture_len cap)" "ucast c = (of_nat (capture_len cap) :: u16)"
proof -
  show u: "unat c = capture_len cap"
    by (simp add: c_def capture_len_def MAX_PAYLOAD_SIZE_def word_less_nat_alt)
  have "c = of_nat (unat c)" by simp
  then have "c = of_nat (capture_len cap)" unfolding u .
  moreover have "capture_len cap \<le> 256" by (simp add: capture_len_def)
  ultimately show "sint c = int (capture_len cap)"
    by (simp add: signed_of_nat signed_take_bit_int_eq_self)
  show "ucast c = (of_nat (capture_len cap) :: u16)" 
    unfolding u [symmetric] by simp
qed

lemma payload_same: "payload i = v \<Longrightarrow> i\<lparr>payload := v\<rparr> = i"
  by auto

lemma payload_tail_fills:
  assumes "payload_tail fp packet cap i = Some i'" "clean i" "length packet = 256"
  shows "info_ok i' \<and> tls_sni i' = replicate 64 0 \<and>
    payload_len i' = of_nat (capture_len cap) \<and>
    payload i' = take (capture_len cap) packet @ replicate (256 - capture_len cap) 0 \<and>
    core (i'\<lparr>payload := payload i, payload_len := payload_len i, entropy_scaled := entropy_scaled i,
      top_byte := top_byte i, top_byte_freq := top_byte_freq i\<rparr>) = core i"
proof -
  have le: "capture_len cap \<le> 256" by (simp add: capture_len_def)
  show ?thesis
    using assms le unfolding payload_tail_def calculate_byte_stats_def Let_def capture_len_word
    by (auto elim!: bind_SomeE split: if_splits prod.splits
        simp: clean_def info_ok_def rd_bytes_def wr_bytes_def payload_same)
qed

lemma link_fields_clean:
  assumes "link_fields raw eth = Some i"
  shows "clean i"
proof -
  have "clean zero_info"
    by (simp add: clean_def zero_info_def [THEN arg_cong, of tls_sni]
        zero_info_def [THEN arg_cong, of payload] MAX_PAYLOAD_SIZE_def)
  then show ?thesis using assms unfolding link_fields_def Let_def
    by (auto elim!: bind_SomeE simp: rd_bytes_def clean_def info_ok_def split: if_splits)
qed

section \<open>When the blocks return\<close>

lemma parse_tcp_options_extended_returns:
  assumes "off + h \<le> length packet"
  shows "\<exists>i'. parse_tcp_options_extended packet off h i = Some i'"
proof -
  have "opts_agree (zero_transport\<lparr>t_mss := tcp_mss i, t_ws := tcp_ws i, t_has_ao := (has_tcp_ao i = 1)\<rparr>) i"
    by (simp add: opts_agree_def)
  moreover have "h - 20 \<le> length (drop (off + 20) packet)" using assms by simp
  ultimately show ?thesis unfolding parse_tcp_options_extended_def
    using tcp_opts_loops_agree by (metis (no_types))
qed

lemma tcp_payload_block_returns:
  assumes "clean i" "t_payload_ptr t = Some q" "q + nat (t_payload_len t) + 32 \<le> length packet"
  shows "\<exists>i'. tcp_payload_block packet t i = Some i'"
proof -
  have ok: "info_ok i" and sni: "rd (tls_sni i) 0 = Some 0"
    using assms(1) by (simp_all add: clean_def rd_def)
  have fits: "q + nat (t_payload_len t) \<le> length packet" using assms(3) by simp
  show ?thesis
    using http.on_extra_returns [OF assms(3) ok] vxlan.on_packet [OF fits ok]
      app_common.on_extra_returns [OF _ ok, of q "t_payload_len t" packet] fits sni
    by (auto simp: tcp_payload_block_def at_ptr_def assms(2) Let_def)
qed

lemma tcp_block_returns:
  assumes "clean i" "t_payload_ptr t = Some q" "q + nat (t_payload_len t) + 32 \<le> length packet"
    and "unat (l3_offset i) + ip_header_len ip_i \<le> q"
  shows "\<exists>i'. tcp_block packet ip_i t i = Some i'"
proof -
  define i1 where "i1 = i\<lparr>tcp_flags := t_flags t, tcp_seq := t_seq t, tcp_ack := t_ack t, tcp_win := t_window t\<rparr>"
  define off where "off = unat (l3_offset i) + ip_header_len ip_i"
  have c1: "clean i1" using assms(1) by (simp add: i1_def)
  have "off + (q - off) \<le> length packet" using assms(3,4) by (simp add: off_def)
  then obtain i2 where i2: "parse_tcp_options_extended packet off (q - off) i1 = Some i2"
    using parse_tcp_options_extended_returns by blast
  have ok2: "info_ok i2" "core i2 = core i1"
    using parse_tcp_options_extended_keeps [OF i2] clean_ok [OF c1] by auto
  obtain i3 where i3: "check_tcp_anomalies i2 t = Some i3" "info_ok i3" "core i3 = core i2"
    using check_tcp_anomalies_step [OF ok2(1)] by blast
  have "clean i3" using keeps_clean [OF i3(2) _ c1] i3(3) ok2(2) by simp
  from tcp_payload_block_returns [OF this assms(2,3)] show ?thesis
    using i2 i3(1) assms(2) by (simp add: tcp_block_def Let_def i1_def off_def)
qed

lemma udp_block_returns:
  assumes "clean i" "t_payload_ptr t = Some q" "q + nat (t_payload_len t) \<le> length packet"
  shows "\<exists>i'. udp_block packet t i = Some i'"
proof -
  have ok: "info_ok i" using assms(1) by (rule clean_ok)
  have "0 \<in> set (dns_query i)" "64 = length (dns_query i)" using ok by (auto simp: info_ok_def)
  then have "\<exists>s. dissect_dns (drop q packet) (t_payload_len t) (dns_query i) 64 = Some s"
    using dns.on_packet [of q "t_payload_len t" packet] assms(3) by fastforce
  moreover have "\<exists>j. dissect_ntp (drop q packet) (t_payload_len t) i = Some j \<and>
      (\<exists>j'. dissect_ntp_core (drop q packet) (t_payload_len t) j = Some j')"
    using ntp.on_packet [OF assms(3) ok] ntp_core.on_packet [OF assms(3)] by blast
  moreover have "\<exists>j. on_extra (\<lambda>o'. dissect_dhcp (drop q packet) (t_payload_len t) o' 128) i = Some j"
    using dhcp.on_extra_returns [OF _ ok, of q "t_payload_len t" packet] assms(3) by auto
  ultimately show ?thesis
    by (auto simp: udp_block_def at_ptr_def assms(2) Let_def)
qed

lemma sint_small_nat: "n \<le> 256 \<Longrightarrow> sint (of_nat n :: u32) = int n"
  by (simp add: signed_of_nat signed_take_bit_int_eq_self)

lemma l4_rest:
  fixes cap :: u32 and b :: byte
  assumes "unat b \<le> unat cap" "unat cap \<le> 256"
  shows "unat b + nat (sint (cap - ucast b)) \<le> unat cap"
proof -
  have "unat (ucast b :: u32) = unat b"
    using unat_byte [of b] by (simp add: unsigned_ucast_eq take_bit_nat_eq_self_iff del: unat_byte)
  then have "unat (cap - ucast b) = unat cap - unat b"
    using assms(1) by (simp add: unat_sub word_le_nat_alt)
  moreover have "sint w = int (unat w)" if "unat w \<le> 256" for w :: u32
    using sint_small_nat [OF that] by simp
  ultimately show ?thesis using assms by simp
qed

lemma other_block_returns:
  assumes "clean i" "unat (l4_offset i) \<le> unat cap" "unat cap \<le> 256" "length packet = 256"
  shows "\<exists>i'. other_block packet cap i = Some i'"
proof -
  define q l where "q = unat (l4_offset i)" and "l = sint (cap - ucast (l4_offset i))"
  have fits: "q + nat l \<le> length packet" using l4_rest [OF assms(2,3)] assms(3,4) by (simp add: q_def l_def)
  then have fits0: "q + nat l + 0 \<le> length packet" by simp
  obtain i1 where 1: "(if protocol i = 89 then on_extra (\<lambda>o'. dissect_ospf (drop q packet) l o' 128) i
      else Some i) = Some i1" "info_ok i1"
    using ospf.on_extra_returns [OF fits0 clean_ok [OF assms(1)]] clean_ok [OF assms(1)]
    by (cases "protocol i = 89") auto
  obtain i2 where 2: "(if protocol i1 = 47 then on_extra (\<lambda>o'. dissect_gre (drop q packet) l o' 128) i1
      else Some i1) = Some i2" "info_ok i2"
    using gre.on_extra_returns [OF fits0 1(2)] 1(2) by (cases "protocol i1 = 47") auto
  obtain i3 where 3: "(if protocol i2 = 2 then dissect_igmp (drop q packet) l i2 else Some i2) = Some i3"
    using igmp.on_packet [OF fits 2(2)] by (cases "protocol i2 = 2") auto
  show ?thesis using 1(1) 2(1) 3 unfolding other_block_def Let_def q_def l_def by simp
qed

lemma icmp_block_returns:
  assumes "info_ok i" "unat cap \<le> length packet"
  shows "\<exists>i'. icmp_block packet cap i = Some i'"
proof -
  have ok: "info_ok (i\<lparr>icmp_type := t, icmp_code := c\<rparr>)" for t c using assms(1) by simp
  have two: "\<exists>i2. Option.bind (on_extra (\<lambda>o'. dissect_icmp_details t c o' 128) (i\<lparr>icmp_type := t, icmp_code := c\<rparr>))
      (on_extra (\<lambda>o'. check_icmp_unreachable t c o' 128)) = Some i2" for t c
    using icmp_calls_step(1) [OF ok [of c t], of t c] icmp_calls_step(2) by fastforce
  have "\<exists>i2. on_extra (\<lambda>o'. dissect_icmp6_details t c o' 128) (i\<lparr>icmp_type := t, icmp_code := c\<rparr>) = Some i2" for t c
    using icmp_calls_step(3) [OF ok [of c t], of t c] by blast
  then show ?thesis using two assms(2) by (auto simp: icmp_block_def mem_simps)
qed

lemma payload_tail_returns:
  assumes "clean i" "length packet = 256"
  shows "\<exists>i'. payload_tail fp packet cap i = Some i'"
proof -
  have "capture_len cap \<le> 256" by (simp add: capture_len_def)
  then show ?thesis using assms
    unfolding payload_tail_def calculate_byte_stats_def calculate_entropy_scaled_def Let_def capture_len_word
    by (auto simp: rd_bytes_def wr_bytes_def clean_def split: prod.splits)
qed

lemma unat_of_nat_le: "unat (of_nat n :: byte) \<le> n"
  by (simp add: unat_of_nat)

lemma transport_block_returns:
  assumes "clean i" "unat cap \<le> 256" "length packet = 256"
    and "ip_header ip_i = hlen" "20 \<le> ip_header_len ip_i" "hlen + ip_header_len ip_i \<le> unat cap"
    and "l3_offset i = of_nat hlen" "l4_offset i = of_nat (hlen + ip_header_len ip_i)"
    and "protocol i = ip_protocol ip_i"
    and honest: "\<And>t q. parse_transport_layer packet cap hlen ip_i = Some (Some t) \<Longrightarrow>
      t_payload_ptr t = Some q \<Longrightarrow> q + nat (t_payload_len t) + 32 \<le> 256"
  shows "\<exists>i'. transport_block packet cap hlen ip_i i = Some i'"
proof -
  have cap: "unat cap \<le> length packet" using assms(2,3) by simp
  have l4: "unat (l4_offset i) \<le> unat cap"
    using assms(6) le_trans [OF unat_of_nat_le, of "hlen + ip_header_len ip_i"] unfolding assms(8) by blast
  have l3: "unat (l3_offset i) \<le> hlen" unfolding assms(7) by (rule unat_of_nat_le)
  have h: "ip_header ip_i + 4 \<le> unat cap" using assms(4-6) by simp
  show ?thesis
  proof (rule parse_transport_bounds [OF cap h, of hlen])
    assume "parse_transport_layer packet cap hlen ip_i = Some None"
    then show ?thesis by (simp add: transport_block_def)
  next
    fix t
    assume t: "parse_transport_layer packet cap hlen ip_i = Some (Some t)"
      and tcp: "ip_protocol ip_i = 6 \<Longrightarrow> \<exists>q. t_payload_ptr t = Some q \<and>
         hlen + ip_header_len ip_i + 20 \<le> q \<and> q \<le> hlen + ip_header_len ip_i + 60"
      and udp: "ip_protocol ip_i = 17 \<Longrightarrow> t_payload_ptr t = Some (hlen + ip_header_len ip_i + 8)"
    define i0 where "i0 = i\<lparr>src_port := t_src_port t, dst_port := t_dst_port t\<rparr>"
    have c0: "clean i0" and same: "l3_offset i0 = l3_offset i" "l4_offset i0 = l4_offset i"
      "protocol i0 = protocol i" using assms(1) by (simp_all add: i0_def)
    obtain i1 where i1: "(if protocol i0 = 6 then tcp_block packet ip_i t i0
        else if protocol i0 = 17 then udp_block packet t i0 else Some i0) = Some i1"
      "clean i1" "l4_offset i1 = l4_offset i"
    proof -
      consider (tcp) "ip_protocol ip_i = 6" | (udp) "ip_protocol ip_i = 17"
        | (other) "ip_protocol ip_i \<noteq> 6" "ip_protocol ip_i \<noteq> 17" by blast
      then show ?thesis
      proof cases
        case tcp
        then obtain q where q: "t_payload_ptr t = Some q" "hlen + ip_header_len ip_i + 20 \<le> q"
          using \<open>ip_protocol ip_i = 6 \<Longrightarrow> _\<close> by blast
        have "q + nat (t_payload_len t) + 32 \<le> length packet" using honest [OF t q(1)] assms(3) by simp
        moreover have "unat (l3_offset i0) + ip_header_len ip_i \<le> q" using q(2) l3 same(1) by simp
        ultimately obtain j where j: "tcp_block packet ip_i t i0 = Some j"
          using tcp_block_returns [OF c0 q(1)] by blast
        have k: "clean j" "l4_offset j = l4_offset i0"
          using tcp_block_keeps [OF j c0] core_fixed(4) [of j] by (simp_all split: prod.splits)
        show ?thesis by (rule that [OF _ k(1)]) (simp_all add: j k(2) tcp same assms(9))
      next
        case udp
        then have q: "t_payload_ptr t = Some (hlen + ip_header_len ip_i + 8)"
          using \<open>ip_protocol ip_i = 17 \<Longrightarrow> _\<close> by blast
        obtain j where j: "udp_block packet t i0 = Some j"
          using udp_block_returns [OF c0 q, of packet] honest [OF t q] assms(3) by auto
        have k: "clean j" "l4_offset j = l4_offset i0"
          using udp_block_keeps [OF j c0] core_fixed(4) [of j] by (simp_all split: prod.splits)
        show ?thesis by (rule that [OF _ k(1)]) (simp_all add: j k(2) udp same assms(9))
      next
        case other
        then show ?thesis by (intro that [OF _ c0]) (simp_all add: same assms(9))
      qed
    qed
    then obtain i2 where "other_block packet cap i1 = Some i2"
      using other_block_returns [OF i1(2), of cap packet] l4 assms(2,3) by auto
    then have "transport_block packet cap hlen ip_i i = Some i2"
      unfolding transport_block_def t Option.bind.bind_lunit option.case(2) Let_def
        i0_def [symmetric] i1(1) .
    then show ?thesis ..
  qed
qed

lemma ip_fields_simps [simp]:
  "is_ipv6 (ip_fields hlen ip_i i) = (if ip_is_ipv6 ip_i then 1 else 0)"
  "protocol (ip_fields hlen ip_i i) = ip_protocol ip_i"
  "l3_offset (ip_fields hlen ip_i i) = l3_offset i"
  "l4_offset (ip_fields hlen ip_i i) = of_nat (hlen + ip_header_len ip_i)"
  by (simp_all add: ip_fields_def)

lemma ipv4_block_returns:
  assumes "clean i" "unat cap \<le> 256" "length packet = 256" "l3_offset i = of_nat hlen"
    and ip: "parse_ip_layer packet cap hlen = Some (Some ip_i)" "\<not> ip_is_ipv6 ip_i"
    and honest: "\<And>t q. parse_transport_layer packet cap hlen ip_i = Some (Some t) \<Longrightarrow>
      t_payload_ptr t = Some q \<Longrightarrow> q + nat (t_payload_len t) + 32 \<le> 256"
  shows "\<exists>i'. ip_block packet cap hlen i = Some i'"
proof -
  have cap: "unat cap \<le> length packet" using assms(2,3) by simp
  have b: "ip_header ip_i = hlen" "20 \<le> ip_header_len ip_i" "hlen + ip_header_len ip_i \<le> unat cap"
    "length (ip_src ip_i) = 16" "length (ip_dst ip_i) = 16"
    using parse_ip_bounds [OF cap, of hlen] ip(1) by force+
  define i1 where "i1 = ip_fields hlen ip_i i"
  have c1: "clean i1" using clean_ip_fields [OF assms(1) b(4,5)] by (simp add: i1_def)
  obtain i2 where i2: "icmp_block packet cap i1 = Some i2"
    using icmp_block_returns [OF clean_ok [OF c1] cap] by blast
  then obtain t c where k: "info_ok i2" "core i2 = core (i1\<lparr>icmp_type := t, icmp_code := c\<rparr>)"
    using icmp_block_keeps [OF i2 clean_ok [OF c1]] by blast
  have c2: "clean i2" by (rule keeps_clean [OF k]) (simp add: c1)
  have "\<exists>i'. transport_block packet cap hlen ip_i i2 = Some i'"
    using core_fixed(3,4,5) [OF k(2)] b assms(4) honest
    by (intro transport_block_returns [OF c2 assms(2,3)]) (simp_all add: i1_def)
  then show ?thesis using ip i2 by (auto simp: ip_block_def ipv6_block_def i1_def)
qed

lemma link_fields_returns:
  assumes "length (rp_data raw) = 256" "eth_header eth = 0"
  shows "\<exists>i. link_fields raw eth = Some i \<and> l3_offset i = of_nat (eth_header_len eth)"
  using assms by (simp add: link_fields_def Let_def rd_bytes_def)

lemma parse_ethernet_header:
  "parse_ethernet_layer packet cap = Some (Some eth) \<Longrightarrow> eth_header eth = 0"
  unfolding parse_ethernet_layer_def by (auto elim!: bind_SomeE split: if_splits prod.splits)

definition known_type :: "u16 \<Rightarrow> bool" where
  "known_type et \<longleftrightarrow> et = 0x0800 \<or> et = 0x86DD \<or> et = 0x0806 \<or> et \<le> 1500 \<or> et = 0x88cc"

text \<open>A run of \<^verbatim>\<open>dissect_raw_packet\<close> on a frame with an Ethernet header.\<close>

lemma dissect_raw_packet_cases:
  assumes "dissect_raw_packet fp raw info = Some i"
    and "parse_ethernet_layer (rp_data raw) (caplen (pkthdr raw)) = Some (Some eth)"
  obtains (known) j where "known_type (eth_ether_type eth)" "clean j"
      "payload_tail fp (rp_data raw) (caplen (pkthdr raw)) j = Some i"
  | (other) "\<not> known_type (eth_ether_type eth)" "clean i" "link_fields raw eth = Some i"
proof -
  define packet cap et where "packet = rp_data raw" and "cap = caplen (pkthdr raw)"
    and "et = eth_ether_type eth"
  obtain i0 where i0: "link_fields raw eth = Some i0"
    and run: "(if et = 0x0800 \<or> et = 0x86DD
            then do { i' \<leftarrow> ip_block packet cap (eth_header_len eth) i0; payload_tail fp packet cap i' }
            else if et = 0x0806
            then do { i' \<leftarrow> arp_block packet cap (eth_header_len eth) i0; payload_tail fp packet cap i' }
            else if et \<le> 1500
            then do { i' \<leftarrow> stp_block packet cap eth i0; payload_tail fp packet cap i' }
            else if et = 0x88cc
            then do { i' \<leftarrow> dissect_lldp (drop (eth_header_len eth) packet) (sint (cap - of_nat (eth_header_len eth))) i0;
                      payload_tail fp packet cap i' }
            else Some i0) = Some i"
    using assms unfolding dissect_raw_packet_def Let_def packet_def cap_def et_def
    by (auto elim!: bind_SomeE)
  have c0: "clean i0" by (rule link_fields_clean [OF i0])
  have lldp: "clean j" if "dissect_lldp p l i0 = Some j" for p l j
    using lldp.keeps_ok [OF that clean_ok [OF c0]] lldp.keeps_core [OF that] c0 by (rule keeps_clean)
  note step = ip_block_keeps [OF _ c0] arp_block_keeps [OF _ c0] stp_block_keeps [OF _ c0] lldp
  note known' = known [folded packet_def cap_def, unfolded known_type_def, folded et_def]
  from run show ?thesis
  proof (elim if_SomeE bind_SomeE, goal_cases)
    case (1 j)
    then show ?thesis using step(1) known' by blast
  next
    case (2 j)
    then show ?thesis using step(2) known' by blast
  next
    case (3 j)
    then show ?thesis using step(3) known' by blast
  next
    case (4 j)
    then show ?thesis using step(4) known' by blast
  next
    case 5
    then show ?thesis using other i0 c0 by (simp add: known_type_def et_def)
  qed
qed

lemma parse_ethernet_present:
  assumes "parse_ethernet_layer packet cap = Some e" "14 \<le> unat cap"
  obtains eth where "e = Some eth"
  using assms by (auto simp: parse_ethernet_layer_def elim!: bind_SomeE)

lemma link_fields_payload_len: "link_fields raw eth = Some i \<Longrightarrow> payload_len i = 0"
  by (auto simp: link_fields_def Let_def zero_info_def elim!: bind_SomeE)

section \<open>Properties\<close>

text \<open>C3: whatever a frame of at least 14 captured bytes holds, a \<^verbatim>\<open>PacketInfo\<close> that
  \<^verbatim>\<open>dissect_raw_packet\<close> returns has all arrays at their size (so its image is 1024 bytes), a NUL in
  each of its text fields, and an SNI field that is still all zero: \<^verbatim>\<open>dissect_tls_sni\<close> is never
  called.\<close>

theorem dissect_raw_packet_sendable:
  assumes "dissect_raw_packet fp raw info = Some i" "wf_raw raw" "14 \<le> unat (caplen (pkthdr raw))"
  shows "info_ok i \<and> length (packet_info_bytes i) = 1024 \<and> tls_sni i = replicate 64 0"
proof -
  have len: "length (rp_data raw) = 256" using assms(2) by (simp add: wf_raw_def MAX_PAYLOAD_SIZE_def)
  obtain e where e: "parse_ethernet_layer (rp_data raw) (caplen (pkthdr raw)) = Some e"
    using assms(1) unfolding dissect_raw_packet_def Let_def by (elim bind_SomeE)
  then obtain eth where "e = Some eth" using assms(3) by (rule parse_ethernet_present)
  with assms(1) e have "info_ok i \<and> tls_sni i = replicate 64 0"
    by (auto elim!: dissect_raw_packet_cases dest: payload_tail_fills [OF _ _ len] simp: clean_def)
  then show ?thesis using length_packet_info_bytes by (auto simp: info_ok_def)
qed

text \<open>C20: for the Ethernet types the dissector knows (IPv4, IPv6, ARP, 802.3 lengths, LLDP) the
  struct carries the first \<^verbatim>\<open>min(caplen, 256)\<close> bytes of the frame, zero-filled, and their number;
  for every other type both are left zero.\<close>

theorem dissect_raw_packet_payload:
  assumes "dissect_raw_packet fp raw info = Some i" "wf_raw raw"
    and "parse_ethernet_layer (rp_data raw) (caplen (pkthdr raw)) = Some (Some eth)"
  defines "n \<equiv> if known_type (eth_ether_type eth) then capture_len (caplen (pkthdr raw)) else 0"
  shows "unat (payload_len i) = n \<and> payload i = take n (rp_data raw) @ replicate (256 - n) 0"
proof -
  have len: "length (rp_data raw) = 256" using assms(2) by (simp add: wf_raw_def MAX_PAYLOAD_SIZE_def)
  have "capture_len (caplen (pkthdr raw)) \<le> 256" by (simp add: capture_len_def)
  then have u: "unat (of_nat (capture_len (caplen (pkthdr raw))) :: u16) = capture_len (caplen (pkthdr raw))"
    by (simp add: unat_of_nat)
  from assms(1,3) show ?thesis
  proof (cases rule: dissect_raw_packet_cases)
    case (known j)
    then show ?thesis using payload_tail_fills [OF known(3,2) len] u by (simp add: n_def)
  next
    case other
    then show ?thesis using link_fields_payload_len [OF other(3)] by (simp add: n_def clean_def)
  qed
qed

text \<open>C19: a raw packet whose captured bytes all lie in the 256-byte buffer and which parses as
  IPv4 is dissected without any access outside an array, provided the payload that its headers
  announce ends at least 32 bytes before the end of the buffer (the HTTP dissector prints up to 32
  bytes that may lie behind the payload).\<close>

theorem dissect_ipv4_in_bounds:
  assumes "wf_raw raw" "unat (caplen (pkthdr raw)) \<le> 256"
    and "parse_ethernet_layer (rp_data raw) (caplen (pkthdr raw)) = Some (Some eth)"
    and "eth_ether_type eth = 0x0800"
    and "parse_ip_layer (rp_data raw) (caplen (pkthdr raw)) (eth_header_len eth) = Some (Some ip)"
    and "\<not> ip_is_ipv6 ip"
    and "\<forall>t q. parse_transport_layer (rp_data raw) (caplen (pkthdr raw)) (eth_header_len eth) ip = Some (Some t) \<longrightarrow>
      t_payload_ptr t = Some q \<longrightarrow> q + nat (t_payload_len t) + 32 \<le> 256"
  shows "\<exists>i. dissect_raw_packet fp raw info = Some i"
proof -
  have len: "length (rp_data raw) = 256" using assms(1) by (simp add: wf_raw_def MAX_PAYLOAD_SIZE_def)
  obtain i0 where i0: "link_fields raw eth = Some i0" "l3_offset i0 = of_nat (eth_header_len eth)"
    using link_fields_returns [OF len parse_ethernet_header [OF assms(3)]] by blast
  have c0: "clean i0" by (rule link_fields_clean [OF i0(1)])
  obtain i1 where i1: "ip_block (rp_data raw) (caplen (pkthdr raw)) (eth_header_len eth) i0 = Some i1"
    using ipv4_block_returns [OF c0 assms(2) len i0(2) assms(5,6)] assms(7) by blast
  obtain i2 where "payload_tail fp (rp_data raw) (caplen (pkthdr raw)) i1 = Some i2"
    using payload_tail_returns [OF ip_block_keeps [OF i1 c0] len] by blast
  then show ?thesis using assms(3,4) i0(1) i1 by (simp add: dissect_raw_packet_def Let_def)
qed

text \<open>A frame of fewer than 14 captured bytes leaves the struct as it was; the worker that
  calls the dissector has not initialised it and sends it all the same.\<close>

theorem dissect_runt_frame:
  assumes "unat (caplen (pkthdr raw)) < 14"
  shows "dissect_raw_packet fp raw info = Some info"
  using assms by (simp add: dissect_raw_packet_def parse_ethernet_layer_def Let_def)

text \<open>A short ARP frame for the witnesses.\<close>

definition sample_raw :: "byte list \<Rightarrow> nat \<Rightarrow> raw_packet" where
  "sample_raw frame n = \<lparr>pkthdr = \<lparr>tv_sec = 5, tv_usec = 7, caplen = of_nat n, wlen = of_nat n\<rparr>,
     rp_data = frame @ replicate (256 - length frame) 0, rp_delta_time = 0\<rparr>"

definition sample_arp :: raw_packet where
  "sample_arp = sample_raw (replicate 12 1 @ [0x08, 0x06]) 14"

lemma wf_sample_raw: "length frame \<le> 256 \<Longrightarrow> wf_raw (sample_raw frame n)"
  by (simp add: sample_raw_def wf_raw_def MAX_PAYLOAD_SIZE_def)

lemma byte_2054: "(2054 :: byte) = 6"
  by simp

lemma sample_arp_ethernet:
  "parse_ethernet_layer (rp_data sample_arp) (caplen (pkthdr sample_arp)) =
     Some (Some \<lparr>eth_header = 0, eth_header_len = 14, eth_ether_type = 0x0806, eth_vlan_id = 0\<rparr>)"
  using parse_tagged_frame [where macs = "replicate 12 1" and tags = "[]" and et = "0x0806" and cap = 14
      and rest = "replicate 242 0"]
  by (simp add: sample_arp_def sample_raw_def tagged_frame_def is_vlan_type_def be16_bytes_def byte_2054)

lemma sample_arp_returns: "\<exists>i. dissect_raw_packet real_fp sample_arp zero_info = Some i"
proof -
  define eth where "eth = \<lparr>eth_header = 0, eth_header_len = 14, eth_ether_type = 0x0806, eth_vlan_id = 0\<rparr>"
  have wf: "wf_raw sample_arp" by (simp add: sample_arp_def wf_sample_raw)
  then have len: "length (rp_data sample_arp) = 256" by (simp add: wf_raw_def MAX_PAYLOAD_SIZE_def)
  then obtain i0 where i0: "link_fields sample_arp eth = Some i0"
    using link_fields_returns [of sample_arp eth] by (auto simp: eth_def)
  have arp: "arp_block (rp_data sample_arp) (caplen (pkthdr sample_arp)) 14 i0 = Some (i0\<lparr>protocol := 200\<rparr>)"
    by (simp add: arp_block_def sample_arp_def sample_raw_def)
  then obtain i where "payload_tail real_fp (rp_data sample_arp) (caplen (pkthdr sample_arp)) (i0\<lparr>protocol := 200\<rparr>) = Some i"
    using payload_tail_returns [OF arp_block_keeps [OF arp link_fields_clean [OF i0]] len] by blast
  then show ?thesis using i0 arp sample_arp_ethernet
    by (simp add: dissect_raw_packet_def Let_def eth_def)
qed

theorem dissect_raw_packet_sendable_witness:
  "\<exists>i. dissect_raw_packet real_fp sample_arp zero_info = Some i \<and> info_ok i \<and>
     length (packet_info_bytes i) = 1024 \<and> tls_sni i = replicate 64 0"
proof -
  obtain i where "dissect_raw_packet real_fp sample_arp zero_info = Some i" using sample_arp_returns by blast
  moreover have "wf_raw sample_arp" "14 \<le> unat (caplen (pkthdr sample_arp))"
    by (simp_all add: sample_arp_def wf_sample_raw) (simp add: sample_raw_def)
  ultimately show ?thesis using dissect_raw_packet_sendable by blast
qed

theorem dissect_raw_packet_payload_witness:
  "\<exists>i. dissect_raw_packet real_fp sample_arp zero_info = Some i \<and> unat (payload_len i) = 14 \<and>
     payload i = take 14 (rp_data sample_arp) @ replicate 242 0"
proof -
  obtain i where i: "dissect_raw_packet real_fp sample_arp zero_info = Some i" using sample_arp_returns by blast
  moreover have "wf_raw sample_arp" by (simp add: sample_arp_def wf_sample_raw)
  moreover have "capture_len (caplen (pkthdr sample_arp)) = 14"
    by (simp add: sample_arp_def sample_raw_def capture_len_def)
  ultimately show ?thesis
    using dissect_raw_packet_payload [OF i _ sample_arp_ethernet] by (simp add: known_type_def)
qed

theorem dissect_runt_frame_example:
  "dissect_raw_packet real_fp (sample_raw [] 13) zero_info = Some zero_info"
  by (rule dissect_runt_frame) (simp add: sample_raw_def)

end
