(* ===== verification/Dissect_Frames.thy ===== *)
theory Dissect_Frames
  imports Dissect_Raw
begin

text \<open>
  \<^verbatim>\<open>dissect_raw_packet\<close> on whole frames: what a TCP segment is turned into from end to end, and the
  frames on which the code does something else than it means to (ARP addresses, DHCP, IPv6
  extension headers).
\<close>

section \<open>A TCP segment from end to end\<close>

lemma dissect_known_ip:
  assumes "parse_ethernet_layer (rp_data raw) (caplen (pkthdr raw)) = Some (Some eth)"
    and "eth_ether_type eth = 0x0800 \<or> eth_ether_type eth = 0x86DD"
    and "link_fields raw eth = Some i0"
    and "ip_block (rp_data raw) (caplen (pkthdr raw)) (eth_header_len eth) i0 = r"
  shows "dissect_raw_packet fp raw info = Option.bind r (payload_tail fp (rp_data raw) (caplen (pkthdr raw)))"
  using assms by (simp add: dissect_raw_packet_def Let_def)

lemma tcp_ip_block:
  assumes "clean i" "length packet = 256" "l3_offset i = of_nat hlen" "hlen < 256"
    and ip: "parse_ip_layer packet cap hlen = Some (Some ip_i)" "\<not> ip_is_ipv6 ip_i" "ip_protocol ip_i = 6"
    and "length (ip_src ip_i) = 16" "length (ip_dst ip_i) = 16"
    and t: "parse_transport_layer packet cap hlen ip_i = Some (Some t)" "t_payload_ptr t = Some q"
    and "q + nat (t_payload_len t) + 32 \<le> 256" "hlen + ip_header_len ip_i \<le> q"
  shows "\<exists>i'. ip_block packet cap hlen i = Some i' \<and> clean i' \<and>
    core i' = core ((ip_fields hlen ip_i i)\<lparr>src_port := t_src_port t, dst_port := t_dst_port t,
      tcp_flags := t_flags t, tcp_seq := t_seq t, tcp_ack := t_ack t, tcp_win := t_window t\<rparr>)"
proof -
  define i1 where "i1 = (ip_fields hlen ip_i i)\<lparr>src_port := t_src_port t, dst_port := t_dst_port t\<rparr>"
  have c1: "clean i1" using clean_ip_fields [OF assms(1,8,9)] by (simp add: i1_def)
  have l3: "unat (l3_offset i1) = hlen" using assms(3,4) by (simp add: i1_def unat_of_nat)
  obtain i2 where i2: "tcp_block packet ip_i t i1 = Some i2"
    using tcp_block_returns [OF c1 t(2), of packet ip_i] assms(2,12,13) l3 by auto
  have k: "clean i2" "core i2 = core (i1\<lparr>tcp_flags := t_flags t, tcp_seq := t_seq t, tcp_ack := t_ack t,
      tcp_win := t_window t\<rparr>)"
    using tcp_block_keeps [OF i2 c1] by auto
  have "protocol i2 = 6" using core_fixed(3) [OF k(2)] ip(3) by (simp add: i1_def)
  then have "other_block packet cap i2 = Some i2" by (simp add: other_block_def Let_def)
  moreover have "protocol i1 = 6" using ip(3) by (simp add: i1_def)
  ultimately have "transport_block packet cap hlen ip_i (ip_fields hlen ip_i i) = Some i2"
    using t(1) i2 ip(3) unfolding transport_block_def Let_def i1_def by simp
  then have "ip_block packet cap hlen i = Some i2"
    using ip by (simp add: ip_block_def ipv6_block_def icmp_block_def)
  then show ?thesis using k by (simp add: i1_def)
qed

lemma dissect_ip_fills:
  assumes "parse_ethernet_layer (rp_data raw) cap = Some (Some eth)" "cap = caplen (pkthdr raw)"
    and "eth_ether_type eth = 0x0800 \<or> eth_ether_type eth = 0x86DD"
    and "link_fields raw eth = Some i0" "ip_block (rp_data raw) cap (eth_header_len eth) i0 = Some i1"
    and "clean i1" "length (rp_data raw) = 256"
  obtains i where "dissect_raw_packet fp raw info = Some i" "payload_len i = of_nat (capture_len cap)"
    "payload i = take (capture_len cap) (rp_data raw) @ replicate (256 - capture_len cap) 0"
    "core (i\<lparr>payload := payload i1, payload_len := payload_len i1, entropy_scaled := entropy_scaled i1,
      top_byte := top_byte i1, top_byte_freq := top_byte_freq i1\<rparr>) = core i1"
proof -
  obtain i where i: "payload_tail fp (rp_data raw) cap i1 = Some i"
    using payload_tail_returns [OF assms(6,7)] by blast
  then have "dissect_raw_packet fp raw info = Some i"
    using dissect_known_ip [OF _ assms(3,4), where r = "Some i1" and fp = fp and info = info] assms(1,2,5) by simp
  then show ?thesis using payload_tail_fills [OF i assms(6,7)] that by blast
qed

lemma tagged_frame_link:
  assumes "length dmac = 6" "length smac = 6" "\<forall>(tpid, tci) \<in> set tags. is_vlan_type tpid"
    and "rp_data raw = tagged_frame (dmac @ smac) tags et rest" "\<not> is_vlan_type et"
    and "hlen = 14 + 4 * length tags" "hlen \<le> unat cap" "hlen \<le> length (rp_data raw)"
    and "eth = \<lparr>eth_header = 0, eth_header_len = hlen, eth_ether_type = et, eth_vlan_id = vlan_last tags 0\<rparr>"
  shows "parse_ethernet_layer (rp_data raw) cap = Some (Some eth)"
    and "link_fields raw eth = Some (zero_info\<lparr>timestamp := word_of_int (tv_sec (pkthdr raw) * 1000000 + tv_usec (pkthdr raw)),
       delta_time := rp_delta_time raw, src_mac := smac, dst_mac := dmac,
       l3_offset := of_nat hlen, vlan_id := vlan_last tags 0, wire_len := wlen (pkthdr raw)\<rparr>)"
proof -
  show "parse_ethernet_layer (rp_data raw) cap = Some (Some eth)"
    using parse_tagged_frame [OF _ assms(3), of "dmac @ smac" et cap rest] assms
    by (simp add: tagged_frame_def is_vlan_type_def)
  show "link_fields raw eth = Some (zero_info\<lparr>timestamp := word_of_int (tv_sec (pkthdr raw) * 1000000 + tv_usec (pkthdr raw)),
       delta_time := rp_delta_time raw, src_mac := smac, dst_mac := dmac,
       l3_offset := of_nat hlen, vlan_id := vlan_last tags 0, wire_len := wlen (pkthdr raw)\<rparr>)"
    using assms(1,2,4,8,9) by (simp add: link_fields_def Let_def rd_bytes_def tagged_frame_def)
qed

text \<open>C4: a TCP segment in an IPv4 packet under any stack of VLAN tags, captured whole (at most 224
  bytes) and with consistent length fields, is dissected without any access outside an array into
  a struct that carries its link, network and transport header fields, the capture time, the
  offsets of its headers and the frame itself.\<close>

theorem dissect_tcp_packet:
  assumes "length smac = 6" "length dmac = 6" "\<forall>(tpid, tci) \<in> set tags. is_vlan_type tpid"
    and "length src = 4" "length dst = 4" "4 dvd length ipopts" "length ipopts \<le> 40"
    and "4 dvd length opts" "length opts \<le> 40"
    and "frame = tagged_frame (dmac @ smac) tags 0x0800
      (ipv4_header tos len idv off ttl 6 ipsum src dst ipopts @
       tcp_header sp dp sq ak fl win csum urg opts @ data)"
    and "unat len = 40 + length ipopts + length opts + length data"
    and "length frame \<le> 224" "rp_data raw = frame @ rest" "wf_raw raw"
    and "caplen (pkthdr raw) = of_nat (length frame)"
  shows "\<exists>i. dissect_raw_packet fp raw info = Some i \<and>
    src_mac i = smac \<and> dst_mac i = dmac \<and> vlan_id i = vlan_last tags 0 \<and>
    timestamp i = word_of_int (tv_sec (pkthdr raw) * 1000000 + tv_usec (pkthdr raw)) \<and>
    delta_time i = rp_delta_time raw \<and> wire_len i = wlen (pkthdr raw) \<and>
    src_ip i = replicate 12 0 @ src \<and> dst_ip i = replicate 12 0 @ dst \<and> protocol i = 6 \<and>
    ip_ttl i = ttl \<and> ip_tos i = tos \<and> ip_id i = idv \<and> is_ipv6 i = 0 \<and>
    is_fragment i = (if off AND 0x3fff \<noteq> 0 then 1 else 0) \<and>
    src_port i = sp \<and> dst_port i = dp \<and> tcp_seq i = sq \<and> tcp_ack i = ak \<and> tcp_flags i = fl \<and>
    tcp_win i = win \<and> l3_offset i = of_nat (14 + 4 * length tags) \<and>
    l4_offset i = of_nat (34 + 4 * length tags + length ipopts) \<and>
    payload_len i = of_nat (length frame) \<and> payload i = frame @ replicate (256 - length frame) 0"
proof -
  define pre where "pre = dmac @ smac @ be16_bytes (vlan_type tags 0x0800) @ vlan_tail tags 0x0800"
  define hlen where "hlen = length pre"
  define cap where "cap = caplen (pkthdr raw)"
  define ip where "ip = \<lparr>ip_header = hlen, ip_header_len = 20 + length ipopts,
      ip_src = replicate 12 0 @ src, ip_dst = replicate 12 0 @ dst, ip_protocol = 6,
      ip_ttl_f = ttl, ip_tos_f = tos, ip_id_f = idv, ip_is_ipv6 = False,
      ip_is_fragment = (off AND 0x3fff \<noteq> 0)\<rparr>"
  define t where "t = zero_transport\<lparr>t_src_port := sp, t_dst_port := dp, t_seq := sq, t_ack := ak,
      t_window := win, t_flags := fl,
      t_payload_ptr := Some (hlen + 40 + length ipopts + length opts),
      t_payload_len := int (unat len) - 40 - int (length ipopts) - int (length opts)\<rparr>"
  define eth where "eth = \<lparr>eth_header = 0, eth_header_len = hlen, eth_ether_type = 0x0800, eth_vlan_id = vlan_last tags 0\<rparr>"
  have h: "hlen = 14 + 4 * length tags" using assms(1,2) by (simp add: hlen_def pre_def)
  have lf: "length frame = hlen + 40 + length ipopts + length opts + length data"
    using assms(1,2,4,5) by (simp add: assms(10) h tagged_frame_def ipv4_header_def tcp_header_def)
  have cap: "unat cap = length frame" using assms(12,15) by (simp add: cap_def unat_of_nat)
  have len: "length (rp_data raw) = 256" using assms(14) by (simp add: wf_raw_def MAX_PAYLOAD_SIZE_def)
  have packet: "rp_data raw = pre @ ipv4_header tos len idv off ttl 6 ipsum src dst ipopts @
      tcp_header sp dp sq ak fl win csum urg opts @ data @ rest"
    by (simp add: assms(10,13) tagged_frame_def pre_def)
  then have "rp_data raw = tagged_frame (dmac @ smac) tags 0x0800 (ipv4_header tos len idv off ttl 6 ipsum src dst ipopts @
      tcp_header sp dp sq ak fl win csum urg opts @ data @ rest)" by (simp add: pre_def tagged_frame_def)
  note link = tagged_frame_link [OF assms(2,1,3) this _ h _ _ eth_def, of cap]
  have fits: "length pre + 40 + length ipopts + length opts \<le> unat cap" using cap lf hlen_def by simp
  note seg = parse_tcp_segment [OF assms(4-9) fits packet ip_def [unfolded hlen_def], folded hlen_def t_def]
  obtain i0 where i0: "link_fields raw eth = Some i0" "l3_offset i0 = of_nat hlen" and f0: "src_mac i0 = smac" "dst_mac i0 = dmac"
    "vlan_id i0 = vlan_last tags 0" "timestamp i0 = word_of_int (tv_sec (pkthdr raw) * 1000000 + tv_usec (pkthdr raw))"
    "delta_time i0 = rp_delta_time raw" "wire_len i0 = wlen (pkthdr raw)"
    using link(2) cap lf len assms(12) by (simp add: is_vlan_type_def)
  have c0: "clean i0" by (rule link_fields_clean [OF i0(1)])
  obtain i1 where i1: "ip_block (rp_data raw) cap hlen i0 = Some i1" "clean i1"
    "core i1 = core ((ip_fields hlen ip i0)\<lparr>src_port := sp, dst_port := dp, tcp_flags := fl,
      tcp_seq := sq, tcp_ack := ak, tcp_win := win\<rparr>)"
    using tcp_ip_block [OF c0 len i0(2) _ seg(1) _ _ _ _ seg(2), of "hlen + 40 + length ipopts + length opts"]
      assms(4,5,11,12) lf by (auto simp: ip_def t_def)
  obtain i where i: "dissect_raw_packet fp raw info = Some i" "payload_len i = of_nat (capture_len cap)"
    "payload i = take (capture_len cap) (rp_data raw) @ replicate (256 - capture_len cap) 0"
    "core (i\<lparr>payload := payload i1, payload_len := payload_len i1, entropy_scaled := entropy_scaled i1,
      top_byte := top_byte i1, top_byte_freq := top_byte_freq i1\<rparr>) = core i1"
    using dissect_ip_fills [OF link(1) cap_def _ i0(1) _ i1(2) len, of fp info] i1(1) cap lf len assms(12)
    by (auto simp: eth_def is_vlan_type_def)
  have "capture_len cap = length frame" using cap assms(12) by (simp add: capture_len_def)
  then show ?thesis
    using i f0 i0(2) core_fixed [OF i1(3)] core_fixed [OF i(4)] h
    by (intro exI [of _ i]) (simp add: ip_fields_def ip_def assms(13))
qed

definition sample_tcp :: raw_packet where
  "sample_tcp = sample_raw (tagged_frame ([1, 1, 1, 1, 1, 1] @ [2, 2, 2, 2, 2, 2]) [(0x8100, 0xA00C)] 0x0800
      (ipv4_header 0 42 7 0x4000 64 6 0 [10, 0, 0, 1] [10, 0, 0, 2] [] @
       tcp_header 49152 443 1 2 0x18 512 0 0 [] @ [65, 66])) 60"

theorem dissect_tcp_packet_witness:
  "\<exists>i. dissect_raw_packet real_fp sample_tcp zero_info = Some i \<and>
    src_mac i = [2, 2, 2, 2, 2, 2] \<and> vlan_id i = 12 \<and> timestamp i = 5000007 \<and>
    src_ip i = replicate 12 0 @ [10, 0, 0, 1] \<and> dst_port i = 443 \<and> tcp_flags i = 0x18 \<and>
    payload_len i = 60"
proof -
  have len: "length (tagged_frame ([1, 1, 1, 1, 1, 1] @ [2, 2, 2, 2, 2, 2]) [(0x8100, 0xA00C)] 0x0800
      (ipv4_header 0 42 7 0x4000 64 6 0 [10, 0, 0, 1] [10, 0, 0, 2] [] @
       tcp_header 49152 443 1 2 0x18 512 0 0 [] @ [65, 66])) = 60"
    by (simp add: tagged_frame_def ipv4_header_def tcp_header_def)
  have data: "rp_data sample_tcp = tagged_frame ([1, 1, 1, 1, 1, 1] @ [2, 2, 2, 2, 2, 2]) [(0x8100, 0xA00C)] 0x0800
      (ipv4_header 0 42 7 0x4000 64 6 0 [10, 0, 0, 1] [10, 0, 0, 2] [] @
       tcp_header 49152 443 1 2 0x18 512 0 0 [] @ [65, 66]) @ replicate 196 0"
    by (simp only: sample_tcp_def sample_raw_def raw_packet.select_convs len) simp
  have wf: "wf_raw sample_tcp" unfolding sample_tcp_def by (rule wf_sample_raw) (use len in simp)
  have hdr: "pkthdr sample_tcp = \<lparr>tv_sec = 5, tv_usec = 7, caplen = 60, wlen = 60\<rparr>"
    by (simp add: sample_tcp_def sample_raw_def)
  have prems: "length [2, 2, 2, 2, 2, 2 :: byte] = 6" "length [1, 1, 1, 1, 1, 1 :: byte] = 6"
    "\<forall>(tpid, tci) \<in> set [(0x8100, 0xA00C :: u16)]. is_vlan_type tpid"
    "length [10, 0, 0, 1 :: byte] = 4" "length [10, 0, 0, 2 :: byte] = 4"
    "4 dvd length ([] :: byte list)" "length ([] :: byte list) \<le> 40"
    "unat (42 :: u16) = 40 + length ([] :: byte list) + length ([] :: byte list) + length [65, 66 :: byte]"
    by (simp_all add: is_vlan_type_def)
  have small: "length (tagged_frame ([1, 1, 1, 1, 1, 1] @ [2, 2, 2, 2, 2, 2]) [(0x8100, 0xA00C)] 0x0800
      (ipv4_header 0 42 7 0x4000 64 6 0 [10, 0, 0, 1] [10, 0, 0, 2] [] @
       tcp_header 49152 443 1 2 0x18 512 0 0 [] @ [65, 66])) \<le> 224"
    using len by linarith
  have cap: "caplen (pkthdr sample_tcp) = of_nat (length (tagged_frame ([1, 1, 1, 1, 1, 1] @ [2, 2, 2, 2, 2, 2])
      [(0x8100, 0xA00C)] 0x0800 (ipv4_header 0 42 7 0x4000 64 6 0 [10, 0, 0, 1] [10, 0, 0, 2] [] @
       tcp_header 49152 443 1 2 0x18 512 0 0 [] @ [65, 66])))"
    unfolding len hdr by simp
  note T = dissect_tcp_packet [OF prems(1-5) prems(6,7) prems(6,7) refl prems(8) small data wf cap,
      where fp = real_fp and info = zero_info, unfolded len hdr]
  from T show ?thesis
    by (elim exE conjE) (intro exI conjI, assumption, simp_all)
qed

definition sample_icmp :: raw_packet where
  "sample_icmp = sample_raw (tagged_frame (replicate 12 1) [] 0x0800
      (ipv4_header 0 28 7 0 64 1 0 [10, 0, 0, 1] [10, 0, 0, 2] [] @ [8, 0, 0, 0, 0, 0, 0, 0])) 42"

theorem dissect_ipv4_in_bounds_witness:
  "wf_raw sample_icmp \<and> (\<exists>i. dissect_raw_packet real_fp sample_icmp zero_info = Some i)"
proof -
  define eth where "eth = \<lparr>eth_header = 0, eth_header_len = 14, eth_ether_type = 0x0800, eth_vlan_id = 0\<rparr>"
  define ip where "ip = \<lparr>ip_header = 14, ip_header_len = 20, ip_src = replicate 12 0 @ [10, 0, 0, 1],
      ip_dst = replicate 12 0 @ [10, 0, 0, 2], ip_protocol = 1, ip_ttl_f = 64, ip_tos_f = 0,
      ip_id_f = 7, ip_is_ipv6 = False, ip_is_fragment = False\<rparr>"
  have cap: "caplen (pkthdr sample_icmp) = 42" by (simp add: sample_icmp_def sample_raw_def)
  have wf: "wf_raw sample_icmp" unfolding sample_icmp_def
    by (rule wf_sample_raw) (simp add: tagged_frame_def ipv4_header_def)
  have data: "rp_data sample_icmp = tagged_frame (replicate 12 1) [] 0x0800
      (ipv4_header 0 28 7 0 64 1 0 [10, 0, 0, 1] [10, 0, 0, 2] [] @ [8, 0, 0, 0, 0, 0, 0, 0] @ replicate 214 0)"
    by (simp add: sample_icmp_def sample_raw_def tagged_frame_def ipv4_header_def)
  have e: "parse_ethernet_layer (rp_data sample_icmp) 42 = Some (Some eth)"
    unfolding data eth_def by (subst parse_tagged_frame) (simp_all add: is_vlan_type_def)
  have i: "parse_ip_layer (rp_data sample_icmp) 42 (eth_header_len eth) = Some (Some ip)"
    using parse_ipv4_header [where pre = "replicate 12 1 @ be16_bytes 0x0800" and src = "[10, 0, 0, 1]"
        and dst = "[10, 0, 0, 2]" and opts = "[]" and tos = 0 and len = 28 and idv = 7 and off = 0
        and ttl = 64 and proto = 1 and csum = 0 and cap = 42
        and rest = "[8, 0, 0, 0, 0, 0, 0, 0] @ replicate 214 0"]
    unfolding data by (simp add: tagged_frame_def ip_def eth_def)
  have t: "parse_transport_layer p c h ip = Some (Some zero_transport)" for p c h
    by (simp add: parse_transport_layer_def ip_def Let_def)
  show ?thesis
    using dissect_ipv4_in_bounds [OF wf, unfolded cap, OF _ e _ i, where fp = real_fp and info = zero_info] wf
    by (simp add: eth_def ip_def t [unfolded ip_def] zero_transport_def)
qed

section \<open>Frames the dissector gets wrong\<close>

lemma vlan_loop_grows: "vlan_loop packet cap et hlen v = Some (et', hlen', v') \<Longrightarrow> hlen \<le> hlen'"
proof (induction packet cap et hlen v rule: vlan_loop.induct)
  case (1 packet cap et hlen v)
  then show ?case
    by (subst (asm) (2) vlan_loop.simps) (fastforce elim!: bind_SomeE split: if_splits)
qed

lemma parse_ethernet_min:
  "parse_ethernet_layer packet cap = Some (Some eth) \<Longrightarrow> 14 \<le> eth_header_len eth"
  unfolding parse_ethernet_layer_def
  by (auto elim!: bind_SomeE split: if_splits prod.splits dest: vlan_loop_grows)

lemma parse_ip_min:
  "parse_ip_layer packet cap hlen = Some (Some ip) \<Longrightarrow> 20 \<le> ip_header_len ip"
  unfolding parse_ip_layer_def parse_ipv4_def parse_ipv6_def Let_def
  by (auto elim!: bind_SomeE split: if_splits)

text \<open>C37: a DHCP packet cannot be dissected. Its options start 240 bytes into the UDP payload, which
  itself starts at least 42 bytes into the frame, but only 256 bytes of the frame are kept: for
  every UDP packet over IPv4 on port 67 or 68 (and not on the DNS port, which is tested first) that
  announces a payload of 240 bytes or more the check of the magic cookie reads outside \<^verbatim>\<open>raw.data\<close>.\<close>

theorem dissect_dhcp_out_of_bounds:
  assumes "wf_raw raw"
    and "parse_ethernet_layer (rp_data raw) (caplen (pkthdr raw)) = Some (Some eth)"
    and "eth_ether_type eth = 0x0800"
    and "parse_ip_layer (rp_data raw) (caplen (pkthdr raw)) (eth_header_len eth) = Some (Some ip)"
    and "\<not> ip_is_ipv6 ip" "ip_protocol ip = 17"
    and "parse_transport_layer (rp_data raw) (caplen (pkthdr raw)) (eth_header_len eth) ip = Some (Some t)"
    and "t_src_port t \<noteq> 53" "t_dst_port t \<noteq> 53"
    and "t_src_port t \<in> {67, 68} \<or> t_dst_port t \<in> {67, 68}" "240 \<le> t_payload_len t"
  shows "dissect_raw_packet fp raw info = None"
proof -
  have len: "length (rp_data raw) = 256" using assms(1) by (simp add: wf_raw_def MAX_PAYLOAD_SIZE_def)
  obtain i0 where i0: "link_fields raw eth = Some i0"
    using link_fields_returns [OF len parse_ethernet_header [OF assms(2)]] by blast
  obtain q where q: "t_payload_ptr t = Some q" "42 \<le> q"
    using assms(6,7) parse_ethernet_min [OF assms(2)] parse_ip_min [OF assms(4)]
    by (auto simp: parse_transport_layer_def parse_udp_def Let_def elim!: bind_SomeE split: if_splits)
  have "rd (drop q (rp_data raw)) 236 = None" using q(2) len by (simp add: rd_eq_None_iff)
  then have "dissect_dhcp (at_ptr (rp_data raw) (t_payload_ptr t)) (t_payload_len t) out 128 = None" for out
    using assms(11) by (simp add: dissect_dhcp_def at_ptr_def q(1))
  then have "udp_block (rp_data raw) t (i\<lparr>src_port := t_src_port t, dst_port := t_dst_port t\<rparr>) = None" for i
    using assms(8-10) by (auto simp: udp_block_def on_extra_def Let_def)
  then have "ip_block (rp_data raw) (caplen (pkthdr raw)) (eth_header_len eth) i0 = None"
    using assms(4-7) by (simp add: ip_block_def ipv6_block_def icmp_block_def transport_block_def Let_def)
  then show ?thesis
    using dissect_known_ip [OF assms(2) _ i0, where r = None and fp = fp and info = info] assms(3) by simp
qed

lemma parse_udp_header:
  assumes "length pre + 8 \<le> unat cap"
  shows "parse_udp (pre @ udp_header sp dp ulen csum @ rest) cap (length pre) =
    Some (Some (zero_transport\<lparr>t_src_port := sp, t_dst_port := dp,
      t_payload_ptr := Some (length pre + 8), t_payload_len := int (unat ulen) - 8\<rparr>))"
  using assms
  by (simp add: parse_udp_def udp_header_def be16_bytes_def del: add_2_eq_Suc add_2_eq_Suc')

definition sample_dhcp :: raw_packet where
  "sample_dhcp = sample_raw (tagged_frame (replicate 12 1) [] 0x0800
      (ipv4_header 0 328 7 0 64 17 0 [0, 0, 0, 0] [255, 255, 255, 255] [] @ udp_header 68 67 308 0)) 256"

theorem dissect_dhcp_out_of_bounds_witness:
  "wf_raw sample_dhcp \<and> dissect_raw_packet real_fp sample_dhcp zero_info = None"
proof -
  define eth where "eth = \<lparr>eth_header = 0, eth_header_len = 14, eth_ether_type = 0x0800, eth_vlan_id = 0\<rparr>"
  define pre where "pre = replicate 12 1 @ be16_bytes 0x0800"
  define hdr where "hdr = ipv4_header 0 328 7 0 64 17 0 [0, 0, 0, 0] [255, 255, 255, 255] []"
  define ip where "ip = \<lparr>ip_header = 14, ip_header_len = 20, ip_src = replicate 12 0 @ [0, 0, 0, 0],
      ip_dst = replicate 12 0 @ [255, 255, 255, 255], ip_protocol = 17, ip_ttl_f = 64, ip_tos_f = 0,
      ip_id_f = 7, ip_is_ipv6 = False, ip_is_fragment = False\<rparr>"
  define t where "t = zero_transport\<lparr>t_src_port := 68, t_dst_port := 67,
      t_payload_ptr := Some 42, t_payload_len := 300\<rparr>"
  have cap: "caplen (pkthdr sample_dhcp) = 256" by (simp add: sample_dhcp_def sample_raw_def)
  have lh: "length pre = 14" "length hdr = 20" by (simp_all add: pre_def hdr_def ipv4_header_def)
  have frame: "tagged_frame (replicate 12 1) [] 0x0800 (hdr @ udp_header 68 67 308 0) =
      pre @ hdr @ udp_header 68 67 308 0"
    by (simp add: tagged_frame_def pre_def)
  have data: "rp_data sample_dhcp = pre @ hdr @ udp_header 68 67 308 0 @ replicate 214 0"
    unfolding sample_dhcp_def sample_raw_def hdr_def [symmetric] frame
    by (simp add: lh udp_header_def)
  have wf: "wf_raw sample_dhcp" unfolding sample_dhcp_def hdr_def [symmetric] frame
    by (rule wf_sample_raw) (simp add: lh udp_header_def)
  have e: "parse_ethernet_layer (rp_data sample_dhcp) 256 = Some (Some eth)"
    using parse_tagged_frame [where macs = "replicate 12 1" and tags = "[]" and et = "0x0800" and cap = 256
        and rest = "hdr @ udp_header 68 67 308 0 @ replicate 214 0"]
    unfolding data by (simp add: tagged_frame_def eth_def is_vlan_type_def pre_def)
  have i: "parse_ip_layer (rp_data sample_dhcp) 256 (eth_header_len eth) = Some (Some ip)"
    using parse_ipv4_header [where pre = pre and src = "[0, 0, 0, 0]"
        and dst = "[255, 255, 255, 255]" and opts = "[]" and tos = 0 and len = 328 and idv = 7 and off = 0
        and ttl = 64 and proto = 17 and csum = 0 and cap = 256
        and rest = "udp_header 68 67 308 0 @ replicate 214 0"]
    unfolding data hdr_def by (simp add: ip_def eth_def lh)
  have tr: "parse_transport_layer (rp_data sample_dhcp) 256 (eth_header_len eth) ip = Some (Some t)"
    using parse_udp_header [where pre = "pre @ hdr" and cap = 256 and sp = 68 and dp = 67 and ulen = 308
        and csum = 0 and rest = "replicate 214 0"]
    unfolding data by (simp add: parse_transport_layer_def Let_def ip_def eth_def lh t_def)
  have fields: "eth_ether_type eth = 0x0800" "\<not> ip_is_ipv6 ip" "ip_protocol ip = 17"
    "t_src_port t \<noteq> 53" "t_dst_port t \<noteq> 53"
    "t_src_port t \<in> {67, 68} \<or> t_dst_port t \<in> {67, 68}" "240 \<le> t_payload_len t"
    by (simp_all add: eth_def ip_def t_def)
  show ?thesis
    using wf dissect_dhcp_out_of_bounds [OF wf, unfolded cap, OF e fields(1) i fields(2,3) tr fields(4-7)] by simp
qed

text \<open>C38: the addresses taken from an ARP packet are not the protocol addresses. For Ethernet and
  IPv4 the source address is read from the last four bytes of the target hardware address and the
  destination address from bytes 2 to 5 behind the ARP packet (the offsets skip the hardware
  address once too often).\<close>

theorem arp_addresses_misread:
  assumes "length macs = 12" "length sha = 6" "length spa = 4" "length tha = 6" "length tpa = 4"
    and "rp_data raw = macs @ [0x08, 0x06] @ [0, 1, 8, 0, 6, 4] @ oper @ sha @ spa @ tha @ tpa @ trailer"
    and "length oper = 2" "wf_raw raw" "42 \<le> unat (caplen (pkthdr raw))"
  shows "\<exists>i. dissect_raw_packet fp raw info = Some i \<and> protocol i = 200 \<and>
    src_ip i = replicate 12 0 @ drop 2 tha \<and> dst_ip i = replicate 12 0 @ take 4 (drop 2 trailer)"
proof -
  define eth where "eth = \<lparr>eth_header = 0, eth_header_len = 14, eth_ether_type = 0x0806, eth_vlan_id = 0\<rparr>"
  have len: "length (rp_data raw) = 256" using assms(8) by (simp add: wf_raw_def MAX_PAYLOAD_SIZE_def)
  have e: "parse_ethernet_layer (rp_data raw) (caplen (pkthdr raw)) = Some (Some eth)"
    using parse_tagged_frame [where macs = macs and tags = "[]" and et = "0x0806" and cap = "caplen (pkthdr raw)"
        and rest = "[0, 1, 8, 0, 6, 4] @ oper @ sha @ spa @ tha @ tpa @ trailer"] assms(1,9)
    unfolding assms(6) by (simp add: tagged_frame_def eth_def is_vlan_type_def be16_bytes_def byte_2054)
  obtain i0 where i0: "link_fields raw eth = Some i0"
    using link_fields_returns [OF len, of eth] by (auto simp: eth_def)
  have zero: "src_ip i0 = replicate 16 0" "dst_ip i0 = replicate 16 0"
    using i0 by (auto simp: link_fields_def Let_def zero_info_def elim!: bind_SomeE)
  have tl: "length trailer = 214" using len assms(1-7) by simp
  have "arp_block (rp_data raw) (caplen (pkthdr raw)) 14 i0 = Some (i0\<lparr>protocol := 200,
      src_ip := replicate 12 0 @ drop 2 tha, dst_ip := replicate 12 0 @ take 4 (drop 2 trailer)\<rparr>)"
    (is "_ = Some ?i1")
  proof -
    define pre where "pre = macs @ [0x08, 0x06]"
    have lp: "length pre = 14" using assms(1) by (simp add: pre_def)
    have pk: "rp_data raw = pre @ ([0, 1, 8, 0, 6, 4] @ oper @ sha @ spa @ tha @ tpa @ trailer)"
      by (simp add: assms(6) pre_def)
    have r: "rd_be16 (rp_data raw) 16 = Some 0x0800" "rd (rp_data raw) 18 = Some 6" "rd (rp_data raw) 19 = Some 4"
      using rd_be16_skip [of pre _ 2] rd_skip [of pre _ 4] rd_skip [of pre _ 5]
      unfolding pk by (simp_all add: lp be16_def)
    have a: "rd_bytes (rp_data raw) 34 4 = Some (drop 2 tha)"
      using assms(1-5,7) len by (simp add: assms(6) rd_bytes_def)
    have b: "rd_bytes (rp_data raw) 44 4 = Some (take 4 (drop 2 trailer))"
      using assms(1-5,7) len by (simp add: assms(6) rd_bytes_def)
    show ?thesis using r a b assms(4,9) tl zero by (simp add: arp_block_def wr_bytes_def)
  qed
  moreover from this obtain i where i: "payload_tail fp (rp_data raw) (caplen (pkthdr raw)) ?i1 = Some i"
    using payload_tail_returns [OF arp_block_keeps [OF _ link_fields_clean [OF i0]] len] by blast
  ultimately have "dissect_raw_packet fp raw info = Some i"
    using e i0 by (simp add: dissect_raw_packet_def Let_def eth_def)
  moreover have c1: "clean ?i1"
    using arp_block_keeps [OF \<open>arp_block _ _ _ _ = _\<close> link_fields_clean [OF i0]] .
  note f = core_fixed [OF payload_tail_fills [OF i c1 len, THEN conjunct2, THEN conjunct2, THEN conjunct2, THEN conjunct2]]
  have "protocol i = 200" "src_ip i = src_ip ?i1" "dst_ip i = dst_ip ?i1"
    using f(3,14,15) by simp_all
  ultimately show ?thesis by simp
qed

theorem arp_addresses_misread_witness:
  "\<exists>i. dissect_raw_packet real_fp (sample_raw (replicate 12 1 @ [0x08, 0x06] @ [0, 1, 8, 0, 6, 4] @ [0, 1] @
      [1, 2, 3, 4, 5, 6] @ [10, 0, 0, 1] @ [0, 0, 0xA, 0xB, 0xC, 0xD] @ [10, 0, 0, 2]) 42) zero_info = Some i \<and>
    src_ip i = replicate 12 0 @ [0xA, 0xB, 0xC, 0xD] \<and> dst_ip i = replicate 16 0"
proof -
  define raw where "raw = sample_raw (replicate 12 1 @ [0x08, 0x06] @ [0, 1, 8, 0, 6, 4] @ [0, 1] @
      [1, 2, 3, 4, 5, 6] @ [10, 0, 0, 1] @ [0, 0, 0xA, 0xB, 0xC, 0xD] @ [10, 0, 0, 2]) 42"
  have 1: "rp_data raw = replicate 12 1 @ [0x08, 0x06] @ [0, 1, 8, 0, 6, 4] @ [0, 1] @ [1, 2, 3, 4, 5, 6] @
      [10, 0, 0, 1] @ [0, 0, 0xA, 0xB, 0xC, 0xD] @ [10, 0, 0, 2] @ replicate 214 0"
    by (simp add: raw_def sample_raw_def)
  have 2: "wf_raw raw" unfolding raw_def by (rule wf_sample_raw) simp
  have 3: "42 \<le> unat (caplen (pkthdr raw))" by (simp add: raw_def sample_raw_def)
  have 4: "replicate 12 (0 :: byte) @ take 4 (drop 2 (replicate 214 0)) = replicate 16 0"
    by (simp flip: replicate_add)
  from arp_addresses_misread [OF _ _ _ _ _ 1 _ 2 3, where fp = real_fp and info = zero_info] 4
  show ?thesis unfolding raw_def by auto
qed

section \<open>IPv6 extension headers\<close>

text \<open>A chain of hop-by-hop, routing and destination options headers (types 0, 43, 60) before the
  protocol \<^term>\<open>p\<close>: each is its type and what follows its first two bytes.\<close>

fun first_type :: "(byte \<times> byte list) list \<Rightarrow> byte \<Rightarrow> byte" where
  "first_type [] p = p"
| "first_type ((ty, body) # hs) p = ty"

fun ext_bytes :: "(byte \<times> byte list) list \<Rightarrow> byte \<Rightarrow> byte list" where
  "ext_bytes [] p = []"
| "ext_bytes ((ty, body) # hs) p =
     first_type hs p # of_nat ((length body + 2) div 8 - 1) # body @ ext_bytes hs p"

definition ext_ok :: "byte \<times> byte list \<Rightarrow> bool" where
  "ext_ok h \<longleftrightarrow> fst h \<in> {0, 43, 60} \<and> 8 dvd (length (snd h) + 2) \<and> length (snd h) \<le> 2046"

lemma ext_len:
  assumes "ext_ok (ty, body)"
  shows "(unat (of_nat ((length body + 2) div 8 - 1) :: byte) + 1) * 8 = length body + 2"
proof -
  obtain k where k: "length body + 2 = 8 * k" using assms by (auto simp: ext_ok_def)
  then have "0 < k" "k \<le> 256" using assms by (auto simp: ext_ok_def)
  then obtain j where "k = Suc j" "j < 256" by (cases k) auto
  moreover from this have "(length body + 2) div 8 - 1 = j" using k by simp
  ultimately show ?thesis using k by (simp add: unat_of_nat)
qed

lemma ipv6_ext_loop_chain:
  assumes "\<forall>h \<in> set hs. ext_ok h" "p \<notin> {0, 43, 44, 60}"
    and "unat (ipv6_ext_count i) + length hs \<le> 10"
    and "int (length pre + length (ext_bytes hs p)) \<le> sint cap"
  shows "ipv6_ext_loop (pre @ ext_bytes hs p @ rest) cap (length pre) (first_type hs p) i =
    Some (p, i\<lparr>ipv6_ext_count := ipv6_ext_count i + of_nat (length hs)\<rparr>)"
  using assms
proof (induction hs arbitrary: pre i)
  case Nil
  then show ?case by (simp add: ipv6_ext_loop.simps)
next
  case (Cons h hs)
  obtain ty body where h: "h = (ty, body)" by (cases h)
  define n :: byte where "n = of_nat ((length body + 2) div 8 - 1)"
  define pre' where "pre' = pre @ first_type hs p # n # body"
  define i' where "i' = i\<lparr>ipv6_ext_count := ipv6_ext_count i + 1\<rparr>"
  have ok: "ext_ok (ty, body)" using Cons.prems(1) h by simp
  then have ty: "ty = 0 \<or> ty = 43 \<or> ty = 60" by (simp add: ext_ok_def)
  have lt: "ipv6_ext_count i < 10" and cnt: "unat (ipv6_ext_count i + 1) = unat (ipv6_ext_count i) + 1"
    using Cons.prems(3) by (simp_all add: word_less_nat_alt unat_word_ariths)
  have body: "6 \<le> length body" using ext_len [OF ok, folded n_def] by simp
  have pk: "pre @ ext_bytes (h # hs) p @ rest = pre' @ ext_bytes hs p @ rest"
    by (simp add: h pre'_def n_def)
  have off: "length pre + (unat n + 1) * 8 = length pre'"
    using ext_len [OF ok, folded n_def] by (simp add: pre'_def)
  have bound: "\<not> int (length pre) + 8 > sint cap"
    using Cons.prems(4) body by (simp add: h)
  have r: "rd (pre' @ ext_bytes hs p @ rest) (length pre) = Some (first_type hs p)"
    "rd (pre' @ ext_bytes hs p @ rest) (length pre + 1) = Some n"
    using rd_skip [of pre _ 1] by (simp_all add: pre'_def)
  have "ipv6_ext_loop (pre' @ ext_bytes hs p @ rest) cap (length pre') (first_type hs p) i' =
    Some (p, i'\<lparr>ipv6_ext_count := ipv6_ext_count i' + of_nat (length hs)\<rparr>)"
    using Cons.prems cnt by (intro Cons.IH) (simp_all add: i'_def pre'_def h)
  moreover have "ipv6_ext_loop (pre' @ ext_bytes hs p @ rest) cap (length pre) ty i =
      ipv6_ext_loop (pre' @ ext_bytes hs p @ rest) cap (length pre') (first_type hs p) i'"
    unfolding ipv6_ext_loop.simps [of _ _ "length pre" ty i]
    using lt ty bound r off by (simp add: i'_def del: rd_skip rd_skip0 rd_skip_Suc)
  ultimately show ?case unfolding pk by (simp add: h i'_def add.assoc)
qed

text \<open>C21: the walk over IPv6 extension headers follows a chain of up to ten hop-by-hop, routing and
  destination options headers of any lengths to the protocol behind it, counting the headers.\<close>

theorem ipv6_block_chain:
  assumes "length hdr = 40" "hdr ! 6 = first_type hs p" "length pre = unat (l3_offset i)"
    and "\<forall>h \<in> set hs. ext_ok h" "p \<notin> {0, 43, 44, 60}" "length hs \<le> 10"
    and "is_ipv6 i \<noteq> 0" "ipv6_ext_count i = 0" "ip_header ip = length pre"
    and "int (length pre + 40 + length (ext_bytes hs p)) \<le> sint cap"
  shows "\<exists>fl. ipv6_block (pre @ hdr @ ext_bytes hs p @ rest) cap ip i =
    Some (i\<lparr>ipv6_flow := fl, ipv6_ext_count := of_nat (length hs), protocol := p\<rparr>)"
proof -
  define packet where "packet = pre @ hdr @ ext_bytes hs p @ rest"
  have nxt: "rd packet (ip_header ip + 6) = Some (first_type hs p)"
    using assms(1,2,9) by (simp add: packet_def rd_def nth_append)
  obtain flow where flow: "rd_be32 packet (ip_header ip) = Some flow"
    using assms(1,9) by (simp add: packet_def rd_be32_Some)
  have "ipv6_ext_loop ((pre @ hdr) @ ext_bytes hs p @ rest) cap (length (pre @ hdr)) (first_type hs p)
      (i\<lparr>ipv6_flow := flow AND 0x0FFFFF\<rparr>) =
    Some (p, i\<lparr>ipv6_flow := flow AND 0x0FFFFF, ipv6_ext_count := of_nat (length hs)\<rparr>)"
    using assms by (subst ipv6_ext_loop_chain) simp_all
  then have "ipv6_ext_loop packet cap (unat (l3_offset i) + 40) (first_type hs p)
      (i\<lparr>ipv6_flow := flow AND 0x0FFFFF\<rparr>) =
    Some (p, i\<lparr>ipv6_flow := flow AND 0x0FFFFF, ipv6_ext_count := of_nat (length hs)\<rparr>)"
    using assms(1,3) by (simp add: packet_def)
  then show ?thesis unfolding packet_def [symmetric]
    using flow nxt assms(7) by (intro exI [of _ "flow AND 0x0FFFFF"]) (simp add: ipv6_block_def)
qed

theorem ipv6_block_chain_witness:
  "\<exists>fl. ipv6_block (replicate 14 0 @ replicate 40 0 @ ext_bytes [(0, replicate 6 0), (60, replicate 14 0)] 58 @ [])
      78 \<lparr>ip_header = 14, ip_header_len = 40, ip_src = [], ip_dst = [], ip_protocol = 0, ip_ttl_f = 0,
        ip_tos_f = 0, ip_id_f = 0, ip_is_ipv6 = True, ip_is_fragment = False\<rparr>
      (zero_info\<lparr>l3_offset := 14, is_ipv6 := 1\<rparr>) =
    Some (zero_info\<lparr>l3_offset := 14, is_ipv6 := 1, ipv6_flow := fl, ipv6_ext_count := of_nat 2, protocol := 58\<rparr>)"
  using ipv6_block_chain [where hdr = "replicate 40 0" and pre = "replicate 14 0" and cap = 78 and p = 58
      and hs = "[(0, replicate 6 0), (60, replicate 14 0)]" and i = "zero_info\<lparr>l3_offset := 14, is_ipv6 := 1\<rparr>"
      and rest = "[]" and ip = "\<lparr>ip_header = 14, ip_header_len = 40, ip_src = [], ip_dst = [], ip_protocol = 0,
        ip_ttl_f = 0, ip_tos_f = 0, ip_id_f = 0, ip_is_ipv6 = True, ip_is_fragment = False\<rparr>"]
  by (simp add: ext_ok_def zero_info_def)

lemma zero_transport_fields [simp]:
  "t_src_port zero_transport = 0" "t_dst_port zero_transport = 0" "t_seq zero_transport = 0"
  "t_ack zero_transport = 0" "t_flags zero_transport = 0" "t_window zero_transport = 0"
  by (simp_all add: zero_transport_def)

lemma transport_block_unknown:
  assumes "transport_block packet cap hlen ip i = Some i'"
    and t: "parse_transport_layer packet cap hlen ip = Some (Some zero_transport)"
    and "clean i" and z: "tcp_seq i = 0" "tcp_ack i = 0" "tcp_flags i = 0"
  shows "clean i' \<and> src_port i' = 0 \<and> dst_port i' = 0 \<and> tcp_seq i' = 0 \<and> tcp_ack i' = 0 \<and> tcp_flags i' = 0"
proof -
  define j where "j = i\<lparr>src_port := 0, dst_port := 0\<rparr>"
  have cj: "clean j" using assms(3) by (simp add: j_def)
  obtain k where k: "(if protocol j = 6 then tcp_block packet ip zero_transport j
      else if protocol j = 17 then udp_block packet zero_transport j else Some j) = Some k"
    and last: "other_block packet cap k = Some i'"
    using assms(1) unfolding transport_block_def t Option.bind.bind_lunit option.case(2) Let_def
      zero_transport_fields j_def [symmetric] by (rule bind_SomeE)
  have "clean k \<and> src_port k = 0 \<and> dst_port k = 0 \<and> tcp_seq k = 0 \<and> tcp_ack k = 0 \<and> tcp_flags k = 0"
    using k
  proof (elim if_SomeE, goal_cases)
    case 1
    note s = tcp_block_keeps [OF 1(2) cj]
    show ?case using s core_fixed(6,7,21-23) [OF s [THEN conjunct2]] by (simp add: j_def)
  next
    case 2
    note s = udp_block_keeps [OF 2(3) cj]
    show ?case using s core_fixed(6,7,21-23) [OF s [THEN conjunct2]] z by (simp add: j_def)
  next
    case 3
    then show ?case using cj z by (auto simp: j_def)
  qed
  moreover have "clean i' \<and> core i' = core k" using other_block_keeps [OF last] calculation by blast
  ultimately show ?thesis using core_fixed(6,7,21-23) [of i' k] by simp
qed

text \<open>C39: the transport header behind an IPv6 extension header is not found. The transport parser looks
  at the next-header field of the fixed header, so whenever that is neither TCP nor UDP the ports,
  sequence numbers and flags stay 0, also when the walk ends at TCP or UDP and \<^verbatim>\<open>protocol\<close> says so.\<close>

theorem extension_header_hides_transport:
  assumes "dissect_raw_packet fp raw info = Some i" "wf_raw raw"
    and "parse_ethernet_layer (rp_data raw) (caplen (pkthdr raw)) = Some (Some eth)"
    and "eth_ether_type eth = 0x86DD"
    and "parse_ip_layer (rp_data raw) (caplen (pkthdr raw)) (eth_header_len eth) = Some (Some ip)"
    and "ip_protocol ip \<noteq> 6" "ip_protocol ip \<noteq> 17"
  shows "src_port i = 0 \<and> dst_port i = 0 \<and> tcp_seq i = 0 \<and> tcp_ack i = 0 \<and> tcp_flags i = 0"
proof -
  define packet cap hlen where "packet = rp_data raw" and "cap = caplen (pkthdr raw)" and "hlen = eth_header_len eth"
  have len: "length (rp_data raw) = 256" using assms(2) by (simp add: wf_raw_def MAX_PAYLOAD_SIZE_def)
  obtain i0 where i0: "link_fields raw eth = Some i0"
    using link_fields_returns [OF len parse_ethernet_header [OF assms(3)]] by blast
  have c0: "clean i0" by (rule link_fields_clean [OF i0])
  have z0: "tcp_seq i0 = 0" "tcp_ack i0 = 0" "tcp_flags i0 = 0"
    using i0 by (auto simp: link_fields_def Let_def zero_info_def elim!: bind_SomeE)
  obtain i4 where i4: "ip_block packet cap hlen i0 = Some i4" "payload_tail fp packet cap i4 = Some i"
    using assms(1,3,4) i0 unfolding packet_def cap_def hlen_def
    by (auto simp: dissect_raw_packet_def Let_def elim!: bind_SomeE)
  have t: "parse_transport_layer packet cap hlen ip = Some (Some zero_transport)"
    using assms(6,7) by (simp add: parse_transport_layer_def Let_def)
  obtain i1 i2 where r: "ipv6_block packet cap ip (ip_fields hlen ip i0) = Some i1"
      "icmp_block packet cap i1 = Some i2" "transport_block packet cap hlen ip i2 = Some i4"
    using i4(1) assms(5) unfolding packet_def cap_def hlen_def
    by (auto simp: ip_block_def elim!: bind_SomeE)
  have c1: "clean i1" and z1: "tcp_seq i1 = 0" "tcp_ack i1 = 0" "tcp_flags i1 = 0"
    using ipv6_block_keeps [OF r(1)] clean_ip_fields [OF c0] parse_ip_layer_lengths [OF assms(5)] z0
    by (auto simp: ip_fields_def)
  obtain a b where k2: "info_ok i2" "core i2 = core (i1\<lparr>icmp_type := a, icmp_code := b\<rparr>)"
    using icmp_block_keeps [OF r(2) clean_ok [OF c1]] by blast
  have c2: "clean i2" by (rule keeps_clean [OF k2]) (simp add: c1)
  have z2: "tcp_seq i2 = 0" "tcp_ack i2 = 0" "tcp_flags i2 = 0"
    using core_fixed(21,22,23) [OF k2(2)] z1 by simp_all
  have z4: "clean i4 \<and> src_port i4 = 0 \<and> dst_port i4 = 0 \<and> tcp_seq i4 = 0 \<and> tcp_ack i4 = 0 \<and> tcp_flags i4 = 0"
    by (rule transport_block_unknown [OF r(3) t c2 z2])
  then have c4: "clean i4" ..
  note f = core_fixed [OF payload_tail_fills [OF i4(2) c4 len [folded packet_def],
      THEN conjunct2, THEN conjunct2, THEN conjunct2, THEN conjunct2]]
  show ?thesis using f(6,7,21,22,23) z4 by simp
qed

lemma byte_34525: "(34525 :: byte) = 0xDD"
  by simp

lemma parse_ipv6_header:
  assumes "length hdr = 40" "drop_bit 4 (hdr ! 0) AND 0x0f = 6" "length pre + 40 \<le> unat cap"
  shows "\<exists>ip. parse_ip_layer (pre @ hdr @ rest) cap (length pre) = Some (Some ip) \<and> ip_is_ipv6 ip \<and>
    ip_header ip = length pre \<and> ip_header_len ip = 40 \<and> ip_protocol ip = hdr ! 6"
proof -
  have "rd (pre @ hdr @ rest) (length pre) = Some (hdr ! 0)"
    using assms(1) by (simp add: rd_def nth_append)
  then show ?thesis using assms
    by (simp add: parse_ip_layer_def parse_ipv6_def Let_def mem_simps nth_append del: rd_skip rd_skip0)
qed

lemma sint_below_2_31: "n < 2 ^ 31 \<Longrightarrow> sint (of_nat n :: u32) = int n"
  by (simp add: signed_of_nat signed_take_bit_int_eq_self)

text \<open>The IPv6 block on a frame without VLAN tags.\<close>

lemma dissect_ipv6_frame:
  assumes "length macs = 12" "length hdr = 40" "drop_bit 4 (hdr ! 0) AND 0x0f = 6"
    and "rp_data raw = macs @ [0x86, 0xDD] @ hdr @ rest" "wf_raw raw" "54 \<le> unat (caplen (pkthdr raw))"
  obtains ip i0 where
    "parse_ethernet_layer (rp_data raw) (caplen (pkthdr raw)) =
       Some (Some \<lparr>eth_header = 0, eth_header_len = 14, eth_ether_type = 0x86DD, eth_vlan_id = 0\<rparr>)"
    "parse_ip_layer (rp_data raw) (caplen (pkthdr raw)) 14 = Some (Some ip)" "ip_is_ipv6 ip"
    "ip_header ip = 14" "ip_header_len ip = 40" "ip_protocol ip = hdr ! 6"
    "clean i0" "l3_offset i0 = 14" "ipv6_ext_count i0 = 0" "is_ipv6 i0 = 1" "protocol i0 = hdr ! 6"
    "\<And>fp info. dissect_raw_packet fp raw info = do {
       i1 \<leftarrow> ipv6_block (rp_data raw) (caplen (pkthdr raw)) ip i0;
       i2 \<leftarrow> icmp_block (rp_data raw) (caplen (pkthdr raw)) i1;
       i3 \<leftarrow> transport_block (rp_data raw) (caplen (pkthdr raw)) 14 ip i2;
       payload_tail (fp :: 'd fp_ops) (rp_data raw) (caplen (pkthdr raw)) i3 }"
proof -
  define eth where "eth = \<lparr>eth_header = 0, eth_header_len = 14, eth_ether_type = (0x86DD :: u16), eth_vlan_id = (0 :: u16)\<rparr>"
  define cap where "cap = caplen (pkthdr raw)"
  have len: "length (rp_data raw) = 256" using assms(5) by (simp add: wf_raw_def MAX_PAYLOAD_SIZE_def)
  have e: "parse_ethernet_layer (rp_data raw) cap = Some (Some eth)"
    using parse_tagged_frame [where macs = macs and tags = "[]" and et = "0x86DD" and cap = cap and rest = "hdr @ rest"]
      assms(1,6)
    unfolding assms(4) by (simp add: tagged_frame_def eth_def is_vlan_type_def be16_bytes_def cap_def byte_34525)
  obtain ip where ip: "parse_ip_layer (rp_data raw) cap 14 = Some (Some ip)" "ip_is_ipv6 ip"
    "ip_header ip = 14" "ip_header_len ip = 40" "ip_protocol ip = hdr ! 6"
    using parse_ipv6_header [OF assms(2,3), of "macs @ [0x86, 0xDD]" cap rest] assms(1,6)
    unfolding assms(4) by (auto simp: cap_def)
  obtain i0 where i0: "link_fields raw eth = Some i0" "l3_offset i0 = 14"
    using link_fields_returns [OF len, of eth] by (auto simp: eth_def)
  have c: "ipv6_ext_count i0 = 0"
    using i0(1) by (auto simp: link_fields_def Let_def zero_info_def elim!: bind_SomeE)
  have "clean (ip_fields 14 ip i0)"
    using clean_ip_fields [OF link_fields_clean [OF i0(1)]] parse_ip_layer_lengths [OF ip(1)] by simp
  moreover have "dissect_raw_packet fp raw info = do {
       i1 \<leftarrow> ipv6_block (rp_data raw) cap ip (ip_fields 14 ip i0);
       i2 \<leftarrow> icmp_block (rp_data raw) cap i1;
       i3 \<leftarrow> transport_block (rp_data raw) cap 14 ip i2;
       payload_tail fp (rp_data raw) cap i3 }" for fp :: "'d fp_ops" and info
    using e i0(1) ip(1) by (simp add: dissect_raw_packet_def ip_block_def Let_def eth_def cap_def)
  ultimately show ?thesis
    using that [of ip "ip_fields 14 ip i0"] e ip i0(2) c unfolding cap_def eth_def
    by (simp add: ip_fields_def)
qed

text \<open>C40: the next header of an IPv6 fragment header is read without a bounds check. After a
  hop-by-hop header that announces a length of 26 or more units of 8 bytes and is followed by a
  fragment header, the read lies outside \<^verbatim>\<open>raw.data\<close>, whatever else the frame holds.\<close>

theorem ipv6_fragment_out_of_bounds:
  assumes "length macs = 12" "length hdr = 40" "drop_bit 4 (hdr ! 0) AND 0x0f = 6" "hdr ! 6 = 0"
    and "rp_data raw = macs @ [0x86, 0xDD] @ hdr @ [44, n] @ rest" "25 \<le> unat n" "wf_raw raw"
    and "62 \<le> unat (caplen (pkthdr raw))" "unat (caplen (pkthdr raw)) < 2 ^ 31"
  shows "dissect_raw_packet fp raw info = None"
proof -
  define packet cap where "packet = rp_data raw" and "cap = caplen (pkthdr raw)"
  have len: "length packet = 256" using assms(7) by (simp add: wf_raw_def MAX_PAYLOAD_SIZE_def packet_def)
  have cap: "sint cap = int (unat cap)"
    using sint_below_2_31 [OF assms(9)] by (simp add: cap_def)
  then have big: "62 \<le> sint cap" using assms(8) unfolding cap_def by linarith
  have r: "rd packet 54 = Some 44" "rd packet 55 = Some n" "rd packet 20 = Some 0"
    using assms(1,2,4) by (simp_all add: packet_def assms(5) rd_def nth_append)
  obtain flow where flow: "rd_be32 packet 14 = Some flow" using len by (simp add: rd_be32_Some)
  have far: "rd packet (54 + (unat n + 1) * 8) = None" using assms(6) len by (simp add: rd_eq_None_iff)
  have loop: "ipv6_ext_loop packet cap 54 0 j = None" if "ipv6_ext_count j = 0" for j
    unfolding ipv6_ext_loop.simps [of packet cap 54]
    using that r big far by (simp add: ipv6_ext_loop.simps [of packet _ _ 44])
  show ?thesis
  proof (rule dissect_ipv6_frame [OF assms(1-3,5,7)])
    fix ip i0
    assume "ip_header ip = 14" "l3_offset i0 = 14" "ipv6_ext_count i0 = 0" "is_ipv6 i0 = 1"
      and run: "\<And>fp info. dissect_raw_packet fp raw info = do {
       i1 \<leftarrow> ipv6_block (rp_data raw) (caplen (pkthdr raw)) ip i0;
       i2 \<leftarrow> icmp_block (rp_data raw) (caplen (pkthdr raw)) i1;
       i3 \<leftarrow> transport_block (rp_data raw) (caplen (pkthdr raw)) 14 ip i2;
       payload_tail (fp :: 'a fp_ops) (rp_data raw) (caplen (pkthdr raw)) i3 }"
    then have "ipv6_block packet cap ip i0 = None"
      using flow r(3) loop by (simp add: ipv6_block_def)
    then show ?thesis using run by (simp add: packet_def cap_def)
  qed (use assms(8) in simp)
qed

lemma dvd_Suc8: "(8 :: nat) dvd Suc (Suc (Suc (Suc (Suc (Suc (Suc (Suc 0)))))))"
  by (simp add: numeral_eq_Suc)

definition sample_v6 :: "byte list" where
  "sample_v6 = replicate 12 1 @ [0x86, 0xDD] @ (0x60 # replicate 39 0)"

lemma sample_v6_raw:
  assumes "length tail_bytes \<le> 202"
  shows "rp_data (sample_raw (sample_v6 @ tail_bytes) n) =
      replicate 12 1 @ [0x86, 0xDD] @ (0x60 # replicate 39 0) @ tail_bytes @ replicate (202 - length tail_bytes) 0"
    and "wf_raw (sample_raw (sample_v6 @ tail_bytes) n)"
  using assms by (simp_all add: sample_v6_def sample_raw_def wf_raw_def MAX_PAYLOAD_SIZE_def)

theorem ipv6_fragment_out_of_bounds_witness:
  "dissect_raw_packet real_fp (sample_raw (sample_v6 @ [44, 25]) 100) zero_info = None"
proof -
  define raw where "raw = sample_raw (sample_v6 @ [44, 25]) 100"
  have "rp_data raw = replicate 12 1 @ [0x86, 0xDD] @ (0x60 # replicate 39 0) @ [44, 25] @ replicate 200 0"
    "wf_raw raw"
    using sample_v6_raw [of "[44, 25]" 100] by (simp_all add: raw_def)
  from ipv6_fragment_out_of_bounds [OF _ _ _ _ this(1) _ this(2), where fp = real_fp and info = zero_info]
  show ?thesis by (simp add: raw_def) (simp add: sample_raw_def)
qed

lemma hop_by_hop_tcp_returns:
  fixes raw
  defines "raw \<equiv> sample_raw (sample_v6 @ [6, 0, 0, 0, 0, 0, 0, 0] @ replicate 20 1) 82"
  shows "\<exists>i. dissect_raw_packet real_fp raw zero_info = Some i \<and> protocol i = 6"
    and "\<exists>ip. parse_ip_layer (rp_data raw) (caplen (pkthdr raw)) 14 = Some (Some ip) \<and> ip_protocol ip = 0"
    and "parse_ethernet_layer (rp_data raw) (caplen (pkthdr raw)) =
       Some (Some \<lparr>eth_header = 0, eth_header_len = 14, eth_ether_type = 0x86DD, eth_vlan_id = 0\<rparr>)"
    and "wf_raw raw"
proof -
  define pre where "pre = replicate 12 1 @ [0x86, 0xDD] @ ((0x60 :: byte) # replicate 39 0)"
  have data: "rp_data raw = replicate 12 1 @ [0x86, 0xDD] @ (0x60 # replicate 39 0) @
      [6, 0, 0, 0, 0, 0, 0, 0] @ replicate 20 1 @ replicate 174 0" and wf: "wf_raw raw"
    using sample_v6_raw [of "[6, 0, 0, 0, 0, 0, 0, 0] @ replicate 20 1" 82] by (simp_all add: raw_def)
  have cap: "caplen (pkthdr raw) = 82" by (simp add: raw_def sample_raw_def)
  have len: "length (rp_data raw) = 256" using wf by (simp add: wf_raw_def MAX_PAYLOAD_SIZE_def)
  have ext: "rp_data raw = pre @ ext_bytes [(0, [0, 0, 0, 0, 0, 0])] 6 @ (replicate 20 1 @ replicate 174 0)"
    by (simp add: data pre_def)
  have walk: "ipv6_ext_loop (rp_data raw) 82 54 0 j = Some (6, j\<lparr>ipv6_ext_count := 1\<rparr>)"
    if "ipv6_ext_count j = 0" for j
    using ipv6_ext_loop_chain [of "[(0, [0, 0, 0, 0, 0, 0])]" 6 j pre 82] that
    unfolding ext by (simp add: ext_ok_def pre_def dvd_Suc8)
  show "wf_raw raw" by (rule wf)
  have five: "54 \<le> unat (caplen (pkthdr raw))" by (simp add: cap)
  have nib: "drop_bit 4 ((0x60 # replicate 39 0) ! 0) AND 0x0f = (6 :: byte)" by simp
  show "\<exists>ip. parse_ip_layer (rp_data raw) (caplen (pkthdr raw)) 14 = Some (Some ip) \<and> ip_protocol ip = 0"
    by (rule dissect_ipv6_frame [OF _ _ nib data wf five]) simp_all
  show "parse_ethernet_layer (rp_data raw) (caplen (pkthdr raw)) =
       Some (Some \<lparr>eth_header = 0, eth_header_len = 14, eth_ether_type = 0x86DD, eth_vlan_id = 0\<rparr>)"
    by (rule dissect_ipv6_frame [OF _ _ nib data wf five]) simp_all
  show "\<exists>i. dissect_raw_packet real_fp raw zero_info = Some i \<and> protocol i = 6"
  proof (rule dissect_ipv6_frame [OF _ _ nib data wf five])
    fix ip i0
    assume i0: "clean i0" "l3_offset i0 = 14" "ipv6_ext_count i0 = 0" "is_ipv6 i0 = 1"
      and ip: "ip_header ip = 14" "ip_protocol ip = (0x60 # replicate 39 0) ! 6"
      and run: "\<And>fp info. dissect_raw_packet fp raw info = do {
       i1 \<leftarrow> ipv6_block (rp_data raw) (caplen (pkthdr raw)) ip i0;
       i2 \<leftarrow> icmp_block (rp_data raw) (caplen (pkthdr raw)) i1;
       i3 \<leftarrow> transport_block (rp_data raw) (caplen (pkthdr raw)) 14 ip i2;
       payload_tail (fp :: real fp_ops) (rp_data raw) (caplen (pkthdr raw)) i3 }"
    obtain flow where flow: "rd_be32 (rp_data raw) 14 = Some flow" using len by (simp add: rd_be32_Some)
    have nxt: "rd (rp_data raw) 20 = Some 0" by (simp add: data rd_def nth_append)
    define i1 where "i1 = i0\<lparr>ipv6_flow := flow AND 0x0FFFFF, ipv6_ext_count := 1, protocol := 6\<rparr>"
    have s1: "ipv6_block (rp_data raw) 82 ip i0 = Some i1"
      using flow nxt walk i0 ip(1) by (simp add: ipv6_block_def i1_def)
    have s2: "icmp_block (rp_data raw) 82 i1 = Some i1" by (simp add: icmp_block_def i1_def)
    define j where "j = i1\<lparr>src_port := 0, dst_port := 0\<rparr>"
    have cj: "clean j" using i0(1) by (simp add: j_def i1_def)
    have t: "parse_transport_layer (rp_data raw) 82 14 ip = Some (Some zero_transport)"
      using ip(2) by (simp add: parse_transport_layer_def Let_def)
    have ptr: "t_payload_ptr zero_transport = None" by (simp add: zero_transport_def)
    obtain k where k: "check_tcp_anomalies (j\<lparr>tcp_flags := 0, tcp_seq := 0, tcp_ack := 0, tcp_win := 0\<rparr>)
        zero_transport = Some k" 
      using check_tcp_anomalies_step [of "j\<lparr>tcp_flags := 0, tcp_seq := 0, tcp_ack := 0, tcp_win := 0\<rparr>"] cj
      by (auto simp: clean_ok)
    then have tb: "tcp_block (rp_data raw) ip zero_transport j = Some k"
      by (simp add: tcp_block_def tcp_payload_block_def parse_tcp_options_extended_def ptr Let_def)
    note kk = tcp_block_keeps [OF tb cj]
    have pk: "protocol k = 6" using core_fixed(3) [OF kk [THEN conjunct2]] by (simp add: j_def i1_def)
    have "other_block (rp_data raw) 82 k = Some k" using pk by (simp add: other_block_def Let_def)
    moreover have "protocol j = 6" "protocol i1 = 6" by (simp_all add: j_def i1_def)
    ultimately have s3: "transport_block (rp_data raw) 82 14 ip i1 = Some k"
      using t tb unfolding transport_block_def Let_def by (simp add: j_def [symmetric])
    obtain i where s4: "payload_tail real_fp (rp_data raw) 82 k = Some i"
      using payload_tail_returns [OF kk [THEN conjunct1] len] by blast
    have "protocol i = 6"
      using pk core_fixed(3) [OF payload_tail_fills [OF s4 kk [THEN conjunct1] len,
        THEN conjunct2, THEN conjunct2, THEN conjunct2, THEN conjunct2]] by simp
    then show ?thesis using run s1 s2 s3 s4 by (simp add: cap)
  qed simp_all
qed

theorem extension_header_hides_transport_witness:
  "\<exists>i. dissect_raw_packet real_fp (sample_raw (sample_v6 @ [6, 0, 0, 0, 0, 0, 0, 0] @ replicate 20 1) 82) zero_info = Some i \<and>
     protocol i = 6 \<and> src_port i = 0 \<and> dst_port i = 0"
proof -
  obtain i ip where i: "dissect_raw_packet real_fp
      (sample_raw (sample_v6 @ [6, 0, 0, 0, 0, 0, 0, 0] @ replicate 20 1) 82) zero_info = Some i" "protocol i = 6"
    and ip: "parse_ip_layer (rp_data (sample_raw (sample_v6 @ [6, 0, 0, 0, 0, 0, 0, 0] @ replicate 20 1) 82))
      (caplen (pkthdr (sample_raw (sample_v6 @ [6, 0, 0, 0, 0, 0, 0, 0] @ replicate 20 1) 82))) 14 = Some (Some ip)"
      "ip_protocol ip = 0"
    using hop_by_hop_tcp_returns(1,2) by blast
  show ?thesis
    using extension_header_hides_transport [OF i(1) hop_by_hop_tcp_returns(4,3)] i ip by simp
qed

end
