(* ===== verification/Lock_Free_Queue.thy ===== *)
theory Lock_Free_Queue
  imports Pacsni_Prelude
begin

text \<open>
  \<^verbatim>\<open>LockFreeQueue<T>\<close> of \<^verbatim>\<open>cpp/packet_types.h\<close>: a bounded multi-producer multi-consumer ring of nodes
  with sequence numbers. A call of \<^verbatim>\<open>push\<close> or \<^verbatim>\<open>pop\<close> is a thread that makes one access to the
  shared memory per step; the program counter holds its local variables. Accesses of different
  threads interleave freely (the memory orders of the source make the data of a node visible
  before its sequence number, so the accesses are taken in one total order). The positions are
  64-bit words; \<^verbatim>\<open>(intptr_t)seq - (intptr_t)pos\<close> is the difference of their signed readings.
\<close>

section \<open>The shared memory\<close>

record 'a node =
  sequence :: u64
  node_data :: 'a

record 'a lfq =
  capacity_mask :: u64
  buffer :: "'a node list"
  enqueue_pos :: u64
  dequeue_pos :: u64

text \<open>The constructor; \<^term>\<open>d\<close> is what the freshly allocated nodes hold.\<close>

definition lfq_new :: "nat \<Rightarrow> 'a \<Rightarrow> 'a lfq" where
  "lfq_new cap d = \<lparr>capacity_mask = of_nat cap - 1,
     buffer = map (\<lambda>i. \<lparr>sequence = of_nat i, node_data = d\<rparr>) [0..<cap],
     enqueue_pos = 0, dequeue_pos = 0\<rparr>"

definition node_index :: "'a lfq \<Rightarrow> u64 \<Rightarrow> nat" where
  "node_index q pos = unat (pos AND capacity_mask q)"

definition seq_of :: "'a lfq \<Rightarrow> u64 \<Rightarrow> u64" where
  "seq_of q pos = sequence (buffer q ! node_index q pos)"

definition data_of :: "'a lfq \<Rightarrow> u64 \<Rightarrow> 'a" where
  "data_of q pos = node_data (buffer q ! node_index q pos)"

definition set_seq :: "'a lfq \<Rightarrow> u64 \<Rightarrow> u64 \<Rightarrow> 'a lfq" where
  "set_seq q pos v = q\<lparr>buffer := (buffer q)[node_index q pos := (buffer q ! node_index q pos)\<lparr>sequence := v\<rparr>]\<rparr>"

definition set_data :: "'a lfq \<Rightarrow> u64 \<Rightarrow> 'a \<Rightarrow> 'a lfq" where
  "set_data q pos d = q\<lparr>buffer := (buffer q)[node_index q pos := (buffer q ! node_index q pos)\<lparr>node_data := d\<rparr>]\<rparr>"

section \<open>One step of a call\<close>

text \<open>Where a thread stands: outside the queue, inside \<^verbatim>\<open>push\<close> (before the load of
  \<^verbatim>\<open>enqueue_pos_\<close>, the load of the sequence number, the compare-and-exchange, the write of the
  data, the store of the sequence number, returned) or inside \<^verbatim>\<open>pop\<close>. \<^typ>\<open>'p\<close> is the type of positions.\<close>

datatype ('a, 'p) pc =
    Idle
  | PushLoad 'a | PushSeq 'a 'p | PushCas 'a 'p | PushWrite 'a 'p | PushStore 'p | PushDone bool
  | PopLoad | PopSeq 'p | PopCas 'p | PopRead 'p | PopStore 'p 'a | PopDone "'a option"

text \<open>\<^term>\<open>ok = False\<close> makes a \<^verbatim>\<open>compare_exchange_weak\<close> fail spuriously; a failed one loads the
  current position.\<close>

fun lfq_step :: "bool \<Rightarrow> ('a, u64) pc \<times> 'a lfq \<Rightarrow> ('a, u64) pc \<times> 'a lfq" where
  "lfq_step ok (PushLoad d, q) = (PushSeq d (enqueue_pos q), q)"
| "lfq_step ok (PushSeq d pos, q) =
     (let diff = sint (seq_of q pos) - sint pos in
      if diff = 0 then (PushCas d pos, q)
      else if diff < 0 then (PushDone False, q)
      else (PushLoad d, q))"
| "lfq_step ok (PushCas d pos, q) =
     (if enqueue_pos q = pos \<and> ok then (PushWrite d pos, q\<lparr>enqueue_pos := pos + 1\<rparr>)
      else (PushSeq d (enqueue_pos q), q))"
| "lfq_step ok (PushWrite d pos, q) = (PushStore pos, set_data q pos d)"
| "lfq_step ok (PushStore pos, q) = (PushDone True, set_seq q pos (pos + 1))"
| "lfq_step ok (PopLoad, q) = (PopSeq (dequeue_pos q), q)"
| "lfq_step ok (PopSeq pos, q) =
     (let diff = sint (seq_of q pos) - sint (pos + 1) in
      if diff = 0 then (PopCas pos, q)
      else if diff < 0 then (PopDone None, q)
      else (PopLoad, q))"
| "lfq_step ok (PopCas pos, q) =
     (if dequeue_pos q = pos \<and> ok then (PopRead pos, q\<lparr>dequeue_pos := pos + 1\<rparr>)
      else (PopSeq (dequeue_pos q), q))"
| "lfq_step ok (PopRead pos, q) = (PopStore pos (data_of q pos), q)"
| "lfq_step ok (PopStore pos v, q) = (PopDone (Some v), set_seq q pos (pos + capacity_mask q + 1))"
| "lfq_step ok (Idle, q) = (Idle, q)"
| "lfq_step ok (PushDone r, q) = (PushDone r, q)"
| "lfq_step ok (PopDone r, q) = (PopDone r, q)"

fun finished :: "('a, 'p) pc \<Rightarrow> bool" where
  "finished Idle = True"
| "finished (PushDone r) = True"
| "finished (PopDone r) = True"
| "finished _ = False"

text \<open>A call that runs alone: \<^term>\<open>oks\<close> are the outcomes of the weak compare-and-exchanges, one per
  step; \<^term>\<open>None\<close> if it has not returned when they run out.\<close>

fun lfq_run :: "bool list \<Rightarrow> ('a, u64) pc \<times> 'a lfq \<Rightarrow> (('a, u64) pc \<times> 'a lfq) option" where
  "lfq_run oks (p, q) =
     (if finished p then Some (p, q)
      else case oks of [] \<Rightarrow> None | ok # oks' \<Rightarrow> lfq_run oks' (lfq_step ok (p, q)))"

section \<open>Many threads\<close>

text \<open>The system: the queue, the threads, and two history variables that no step reads: the values
  in the order of the successful compare-and-exchanges of \<^verbatim>\<open>push\<close>, and the number of successful
  ones of \<^verbatim>\<open>pop\<close>.\<close>

record 'a lfq_sys =
  queue :: "'a lfq"
  pcs :: "nat \<Rightarrow> ('a, u64) pc"
  hist :: "'a list"
  taken :: nat

definition ghost_hist :: "('a, 'p) pc \<Rightarrow> ('a, 'p) pc \<Rightarrow> 'a list \<Rightarrow> 'a list" where
  "ghost_hist p p' l = (case (p, p') of (PushCas d pos, PushWrite d' pos') \<Rightarrow> l @ [d] | _ \<Rightarrow> l)"

definition ghost_taken :: "('a, 'p) pc \<Rightarrow> ('a, 'p) pc \<Rightarrow> nat \<Rightarrow> nat" where
  "ghost_taken p p' n = (case (p, p') of (PopCas pos, PopRead pos') \<Rightarrow> Suc n | _ \<Rightarrow> n)"

definition thread_step :: "nat \<Rightarrow> bool \<Rightarrow> 'a lfq_sys \<Rightarrow> 'a lfq_sys" where
  "thread_step t ok s =
     (let (p', q') = lfq_step ok (pcs s t, queue s) in
      s\<lparr>queue := q', pcs := (pcs s)(t := p'), hist := ghost_hist (pcs s t) p' (hist s),
        taken := ghost_taken (pcs s t) p' (taken s)\<rparr>)"

inductive sys_step :: "'a lfq_sys \<Rightarrow> 'a lfq_sys \<Rightarrow> bool" where
  call_push: "finished (pcs s t) \<Longrightarrow> sys_step s (s\<lparr>pcs := (pcs s)(t := PushLoad d)\<rparr>)"
| call_pop: "finished (pcs s t) \<Longrightarrow> sys_step s (s\<lparr>pcs := (pcs s)(t := PopLoad)\<rparr>)"
| access: "sys_step s (thread_step t ok s)"

definition lfq_init :: "nat \<Rightarrow> 'a \<Rightarrow> 'a lfq_sys" where
  "lfq_init cap d = \<lparr>queue = lfq_new cap d, pcs = (\<lambda>_. Idle), hist = [], taken = 0\<rparr>"

inductive reachable :: "nat \<Rightarrow> 'a \<Rightarrow> 'a lfq_sys \<Rightarrow> bool" for cap d where
  start: "reachable cap d (lfq_init cap d)"
| step: "reachable cap d s \<Longrightarrow> sys_step s s' \<Longrightarrow> reachable cap d s'"

end
