(* ===== verification/Ring_Spec.thy ===== *)
theory Ring_Spec
  imports Lock_Free_Queue
begin

text \<open>
  The ring of \<^verbatim>\<open>LockFreeQueue\<close> with unbounded counters, the specification that the 64-bit one
  refines: positions and sequence numbers are natural numbers, the nodes are functions of the
  slot \<^verbatim>\<open>position mod capacity\<close>. The invariant of the algorithm is stated and proved here.
\<close>

section \<open>The ring and its steps\<close>

record 'a ring =
  rseq :: "nat \<Rightarrow> nat"
  rdata :: "nat \<Rightarrow> 'a"
  rtail :: nat
  rhead :: nat
  rpcs :: "nat \<Rightarrow> ('a, nat) pc"
  rhist :: "'a list"

definition goto :: "nat \<Rightarrow> ('a, nat) pc \<Rightarrow> 'a ring \<Rightarrow> 'a ring" where
  "goto t p s = s\<lparr>rpcs := (rpcs s)(t := p)\<rparr>"

text \<open>The step of thread \<^term>\<open>t\<close> in a ring of capacity \<^term>\<open>N\<close>.\<close>

definition ring_step :: "nat \<Rightarrow> nat \<Rightarrow> bool \<Rightarrow> 'a ring \<Rightarrow> 'a ring" where
  "ring_step N t ok s =
     (case rpcs s t of
        PushLoad d \<Rightarrow> goto t (PushSeq d (rtail s)) s
      | PushSeq d j \<Rightarrow>
          if rseq s (j mod N) = j then goto t (PushCas d j) s
          else if rseq s (j mod N) < j then goto t (PushDone False) s
          else goto t (PushLoad d) s
      | PushCas d j \<Rightarrow>
          if rtail s = j \<and> ok then goto t (PushWrite d j) (s\<lparr>rtail := j + 1, rhist := rhist s @ [d]\<rparr>)
          else goto t (PushSeq d (rtail s)) s
      | PushWrite d j \<Rightarrow> goto t (PushStore j) (s\<lparr>rdata := (rdata s)(j mod N := d)\<rparr>)
      | PushStore j \<Rightarrow> goto t (PushDone True) (s\<lparr>rseq := (rseq s)(j mod N := j + 1)\<rparr>)
      | PopLoad \<Rightarrow> goto t (PopSeq (rhead s)) s
      | PopSeq j \<Rightarrow>
          if rseq s (j mod N) = j + 1 then goto t (PopCas j) s
          else if rseq s (j mod N) < j + 1 then goto t (PopDone None) s
          else goto t PopLoad s
      | PopCas j \<Rightarrow>
          if rhead s = j \<and> ok then goto t (PopRead j) (s\<lparr>rhead := j + 1\<rparr>)
          else goto t (PopSeq (rhead s)) s
      | PopRead j \<Rightarrow> goto t (PopStore j (rdata s (j mod N))) s
      | PopStore j v \<Rightarrow> goto t (PopDone (Some v)) (s\<lparr>rseq := (rseq s)(j mod N := j + N)\<rparr>)
      | _ \<Rightarrow> s)"

definition ring_init :: "'a \<Rightarrow> 'a ring" where
  "ring_init d = \<lparr>rseq = (\<lambda>i. i), rdata = (\<lambda>_. d), rtail = 0, rhead = 0, rpcs = (\<lambda>_. Idle), rhist = []\<rparr>"

section \<open>The invariant\<close>

definition pushing :: "'a ring \<Rightarrow> nat \<Rightarrow> nat \<Rightarrow> bool" where
  "pushing s t j \<longleftrightarrow> (\<exists>d. rpcs s t = PushWrite d j) \<or> rpcs s t = PushStore j"

definition popping :: "'a ring \<Rightarrow> nat \<Rightarrow> nat \<Rightarrow> bool" where
  "popping s t j \<longleftrightarrow> rpcs s t = PopRead j \<or> (\<exists>v. rpcs s t = PopStore j v)"

text \<open>What a thread knows at each point: \<^term>\<open>E\<close> and \<^term>\<open>D\<close> are the counters, \<^term>\<open>sq\<close> and
  \<^term>\<open>dt\<close> the nodes, \<^term>\<open>h\<close> the pushed values.\<close>

fun local_ok :: "nat \<Rightarrow> 'a ring \<Rightarrow> ('a, nat) pc \<Rightarrow> bool" where
  "local_ok N s (PushSeq d j) \<longleftrightarrow> j \<le> rtail s"
| "local_ok N s (PushCas d j) \<longleftrightarrow> j \<le> rtail s \<and> (j = rtail s \<longrightarrow> rseq s (j mod N) = j)"
| "local_ok N s (PushWrite d j) \<longleftrightarrow> rhist s ! j = d"
| "local_ok N s (PushStore j) \<longleftrightarrow> rdata s (j mod N) = rhist s ! j"
| "local_ok N s (PopSeq j) \<longleftrightarrow> j \<le> rhead s"
| "local_ok N s (PopCas j) \<longleftrightarrow> j \<le> rhead s \<and> (j = rhead s \<longrightarrow> rseq s (j mod N) = j + 1)"
| "local_ok N s (PopStore j v) \<longleftrightarrow> v = rhist s ! j"
| "local_ok N s _ \<longleftrightarrow> True"

definition window :: "nat \<Rightarrow> 'a ring \<Rightarrow> nat \<Rightarrow> bool" where
  "window N s j \<longleftrightarrow> j < rtail s \<and> rtail s \<le> j + N"

definition ring_inv :: "nat \<Rightarrow> 'a ring \<Rightarrow> bool" where
  "ring_inv N s \<longleftrightarrow>
     length (rhist s) = rtail s \<and> rhead s \<le> rtail s \<and>
     (\<forall>t j. pushing s t j \<longrightarrow> rhead s \<le> j \<and> window N s j \<and> rseq s (j mod N) = j \<and>
        (\<forall>t'. pushing s t' j \<longrightarrow> t' = t)) \<and>
     (\<forall>t j. popping s t j \<longrightarrow> j < rhead s \<and> window N s j \<and> rseq s (j mod N) = j + 1 \<and>
        rdata s (j mod N) = rhist s ! j \<and> (\<forall>t'. popping s t' j \<longrightarrow> t' = t)) \<and>
     (\<forall>j. rhead s \<le> j \<and> j < rtail s \<longrightarrow> window N s j \<and>
        ((\<exists>t. pushing s t j) \<or> rseq s (j mod N) = j + 1 \<and> rdata s (j mod N) = rhist s ! j)) \<and>
     (\<forall>j. j < rhead s \<and> window N s j \<longrightarrow> (\<exists>t. popping s t j) \<or> rseq s (j mod N) = j + N) \<and>
     (\<forall>j. rtail s \<le> j \<and> j < N \<longrightarrow> rseq s j = j) \<and>
     (\<forall>t. local_ok N s (rpcs s t))"

lemma ring_invD:
  assumes "ring_inv N s"
  shows "length (rhist s) = rtail s" "rhead s \<le> rtail s"
    "\<And>t j. pushing s t j \<Longrightarrow> rhead s \<le> j \<and> window N s j \<and> rseq s (j mod N) = j"
    "\<And>t t' j. pushing s t j \<Longrightarrow> pushing s t' j \<Longrightarrow> t' = t"
    "\<And>t j. popping s t j \<Longrightarrow> j < rhead s \<and> window N s j \<and> rseq s (j mod N) = j + 1 \<and>
        rdata s (j mod N) = rhist s ! j"
    "\<And>t t' j. popping s t j \<Longrightarrow> popping s t' j \<Longrightarrow> t' = t"
    "\<And>j. rhead s \<le> j \<Longrightarrow> j < rtail s \<Longrightarrow> window N s j \<and>
        ((\<exists>t. pushing s t j) \<or> rseq s (j mod N) = j + 1 \<and> rdata s (j mod N) = rhist s ! j)"
    "\<And>j. j < rhead s \<Longrightarrow> window N s j \<Longrightarrow> (\<exists>t. popping s t j) \<or> rseq s (j mod N) = j + N"
    "\<And>j. rtail s \<le> j \<Longrightarrow> j < N \<Longrightarrow> rseq s j = j"
    "\<And>t. local_ok N s (rpcs s t)"
  using assms unfolding ring_inv_def by blast+

text \<open>Two positions of the window that share a slot are the same.\<close>

lemma window_inj:
  assumes "window N s i" "window N s j" "i mod N = j mod N"
  shows "i = j"
proof (rule ccontr)
  assume "i \<noteq> j"
  then consider "i < j" | "j < i" by linarith
  then show False
  proof cases
    case 1
    then have "N dvd j - i" using assms(3) by (metis less_imp_le_nat mod_eq_dvd_iff_nat)
    then have "N \<le> j - i" using 1 by (simp add: dvd_imp_le)
    then show False using assms(1,2) by (auto simp: window_def)
  next
    case 2
    then have "N dvd i - j" using assms(3) by (metis less_imp_le_nat mod_eq_dvd_iff_nat)
    then have "N \<le> i - j" using 2 by (simp add: dvd_imp_le)
    then show False using assms(1,2) by (auto simp: window_def)
  qed
qed

text \<open>The slot of the next push: it is free, or holds the element one round behind.\<close>

lemma next_slot:
  assumes "ring_inv N s" "0 < N"
  shows "rseq s (rtail s mod N) = rtail s \<or>
    (\<exists>j. rtail s = j + N \<and> window N s j \<and> j mod N = rtail s mod N \<and>
       ((rhead s \<le> j \<and> (rseq s (j mod N) = j \<or> rseq s (j mod N) = j + 1)) \<or>
        (\<exists>t. popping s t j) \<and> rseq s (j mod N) = j + 1))"
proof (cases "rtail s < N")
  case True
  then show ?thesis using ring_invD(9) [OF assms(1), of "rtail s"] by simp
next
  case False
  define j where "j = rtail s - N"
  have j: "rtail s = j + N" "window N s j" "j mod N = rtail s mod N"
    using False assms(2) by (auto simp: j_def window_def le_mod_geq)
  show ?thesis
  proof (cases "rhead s \<le> j")
    case True
    have "j < rtail s" using j(2) by (simp add: window_def)
    then have "(\<exists>t. pushing s t j) \<or> rseq s (j mod N) = j + 1"
      using ring_invD(7) [OF assms(1) True] by blast
    then have "rseq s (j mod N) = j \<or> rseq s (j mod N) = j + 1" using ring_invD(3) [OF assms(1)] by blast
    then show ?thesis using j True by blast
  next
    case False
    then have "j < rhead s" by simp
    then have "(\<exists>t. popping s t j) \<or> rseq s (j mod N) = j + N" by (rule ring_invD(8) [OF assms(1) _ j(2)])
    then show ?thesis
    proof
      assume "\<exists>t. popping s t j"
      then show ?thesis using ring_invD(5) [OF assms(1)] j by blast
    next
      assume "rseq s (j mod N) = j + N"
      then show ?thesis unfolding j(3) [symmetric] by (simp add: j(1) [symmetric])
    qed
  qed
qed

section \<open>Every step keeps the invariant\<close>

fun claims :: "('a, nat) pc \<Rightarrow> bool" where
  "claims (PushWrite d j) = True"
| "claims (PushStore j) = True"
| "claims (PopRead j) = True"
| "claims (PopStore j v) = True"
| "claims _ = False"

lemma goto_simps [simp]:
  "rseq (goto t p s) = rseq s" "rdata (goto t p s) = rdata s" "rtail (goto t p s) = rtail s"
  "rhead (goto t p s) = rhead s" "rhist (goto t p s) = rhist s"
  "rpcs (goto t p s) = (rpcs s)(t := p)" "window N (goto t p s) = window N s"
  by (simp_all add: goto_def window_def fun_eq_iff)

lemma claims_none:
  "\<not> claims (rpcs s t) \<Longrightarrow> \<not> pushing s t j" "\<not> claims (rpcs s t) \<Longrightarrow> \<not> popping s t j"
  by (auto simp: pushing_def popping_def)

lemma local_ok_cong:
  assumes "rseq s' = rseq s" "rdata s' = rdata s" "rtail s' = rtail s" "rhead s' = rhead s" "rhist s' = rhist s"
  shows "local_ok N s' p = local_ok N s p"
  using assms by (cases p) auto

text \<open>A thread that neither enters nor leaves a node moves.\<close>

lemma goto_unclaimed:
  assumes inv: "ring_inv N s" and "\<not> claims (rpcs s t)" "\<not> claims p" "local_ok N s p"
  shows "ring_inv N (goto t p s)"
proof -
  have push: "pushing (goto t p s) = pushing s" and pop: "popping (goto t p s) = popping s"
    using assms(2,3) by (auto simp: fun_eq_iff pushing_def popping_def)
  have "local_ok N (goto t p s) (rpcs (goto t p s) t')" for t'
    using ring_invD(10) [OF inv] assms(4) by (simp add: local_ok_cong [of "goto t p s" s])
  then show ?thesis using inv unfolding ring_inv_def push pop goto_simps by blast
qed

lemma next_free:
  assumes inv: "ring_inv N s" and N: "2 \<le> N" and free: "rseq s (rtail s mod N) = rtail s"
  shows "\<And>t j. pushing s t j \<Longrightarrow> rtail s < j + N" "\<And>t j. popping s t j \<Longrightarrow> rtail s < j + N"
    "\<And>j. rhead s \<le> j \<Longrightarrow> rtail s < j + N"
proof -
  have same_slot: "j mod N = rtail s mod N" if "rtail s = j + N" for j using that by simp
  have no: "rseq s (j mod N) \<noteq> j \<and> rseq s (j mod N) \<noteq> j + 1" if "rtail s = j + N" for j
    using same_slot [OF that] free that N by simp
  show push: "rtail s < j + N" if "pushing s t j" for t j
  proof (rule ccontr)
    assume "\<not> rtail s < j + N"
    then have "rtail s = j + N" using ring_invD(3) [OF inv that] by (simp add: window_def)
    then show False using no ring_invD(3) [OF inv that] by blast
  qed
  show "rtail s < j + N" if "popping s t j" for t j
  proof (rule ccontr)
    assume "\<not> rtail s < j + N"
    then have "rtail s = j + N" using ring_invD(5) [OF inv that] by (simp add: window_def)
    then show False using no ring_invD(5) [OF inv that] by blast
  qed
  show "rtail s < j + N" if "rhead s \<le> j" for j
  proof (rule ccontr)
    assume a: "\<not> rtail s < j + N"
    then have lt: "j < rtail s" using N by simp
    then have "rtail s = j + N" using a ring_invD(7) [OF inv that lt] by (simp add: window_def)
    then show False using no [of j] ring_invD(7) [OF inv that lt] push a by blast
  qed
qed

lemma push_cas_inv:
  assumes inv: "ring_inv N s" and N: "2 \<le> N" and pc: "rpcs s t = PushCas d (rtail s)"
  defines "s' \<equiv> goto t (PushWrite d (rtail s)) (s\<lparr>rtail := rtail s + 1, rhist := rhist s @ [d]\<rparr>)"
  shows "ring_inv N s'"
proof -
  have free: "rseq s (rtail s mod N) = rtail s" using ring_invD(10) [OF inv, of t] pc by simp
  note room = next_free [OF inv N free]
  note inv_facts = ring_invD [OF inv]
  have pcs: "rpcs s' = (rpcs s)(t := PushWrite d (rtail s))" by (simp add: s'_def)
  have push: "pushing s' t' j \<longleftrightarrow> (if t' = t then j = rtail s else pushing s t' j)" for t' j
    using pc by (auto simp: pushing_def pcs)
  have pop: "popping s' t' j \<longleftrightarrow> popping s t' j" for t' j using pc by (auto simp: popping_def pcs)
  have fields [simp]: "rseq s' = rseq s" "rdata s' = rdata s" "rhead s' = rhead s" "rtail s' = rtail s + 1"
    "rhist s' = rhist s @ [d]" by (simp_all add: s'_def)
  have win: "window N s' j \<longleftrightarrow> j < rtail s + 1 \<and> rtail s + 1 \<le> j + N" for j by (simp add: window_def)
  have old: "rhist s' ! j = rhist s ! j" if "j < rtail s" for j using that inv_facts(1) by (simp add: nth_append)
  show ?thesis unfolding ring_inv_def
  proof (intro conjI allI impI, goal_cases)
    case 1 then show ?case using inv_facts(1) by simp
  next
    case 2 then show ?case using inv_facts(2) by simp
  next
    case (3 t' j) then show ?case using inv_facts(2,3) push by (auto split: if_splits)
  next
    case (4 t' j) then show ?case using inv_facts(3) [of t' j] room(1) [of t' j] N push win
      by (auto simp: window_def split: if_splits)
  next
    case (5 t' j) then show ?case using inv_facts(3) free push by (auto split: if_splits)
  next
    case (6 t' j t'') then show ?case using inv_facts(3,4) push by (auto simp: window_def split: if_splits)
  next
    case (7 t' j) then show ?case using inv_facts(5) pop by simp
  next
    case (8 t' j) then show ?case using inv_facts(5) room(2) pop win by (force simp: window_def)
  next
    case (9 t' j) then show ?case using inv_facts(5) pop by simp
  next
    case (10 t' j) then show ?case using inv_facts(5) pop old by (auto simp: window_def)
  next
    case (11 t' j t'') then show ?case using inv_facts(6) pop by blast
  next
    case (12 j) then show ?case using room(3) N by (auto simp: window_def Suc_le_eq)
  next
    case (13 j)
    show ?case
    proof (cases "j = rtail s")
      case True
      then show ?thesis using push by auto
    next
      case False
      then have lt: "j < rtail s" using 13 by simp
      have keep: "pushing s' u j" if "pushing s u j" for u
        using that push claims_none(1) [of s t j] pc by (cases "u = t") auto
      show ?thesis using inv_facts(7) [of j] 13 lt keep old [OF lt] by auto
    qed
  next
    case (14 j) then show ?case using inv_facts(8) [of j] pop inv_facts(2) by (auto simp: window_def)
  next
    case (15 j) then show ?case using inv_facts(9) by simp
  next
    case (16 t')
    show ?case
    proof (cases "t' = t")
      case True
      then show ?thesis using inv_facts(1) by (simp add: pcs nth_append)
    next
      case False
      have "local_ok N s (rpcs s t')" by (rule inv_facts(10))
      moreover have "j < rtail s" if "pushing s t' j \<or> popping s t' j" for j
        using that inv_facts(3,5) by (auto simp: window_def)
      ultimately show ?thesis using False old
        by (cases "rpcs s t'") (auto simp: pcs pushing_def popping_def)
    qed
  qed
qed

lemma push_write_inv:
  assumes inv: "ring_inv N s" and pc: "rpcs s t = PushWrite d j"
  defines "s' \<equiv> goto t (PushStore j) (s\<lparr>rdata := (rdata s)(j mod N := d)\<rparr>)"
  shows "ring_inv N s'"
proof -
  note f = ring_invD [OF inv]
  have mine: "pushing s t j" using pc by (simp add: pushing_def)
  have pcs: "rpcs s' = (rpcs s)(t := PushStore j)" by (simp add: s'_def)
  have push: "pushing s' = pushing s" using pc by (auto simp: fun_eq_iff pushing_def pcs)
  have pop: "popping s' = popping s" using pc by (auto simp: fun_eq_iff popping_def pcs)
  have fields [simp]: "rseq s' = rseq s" "rhead s' = rhead s" "rtail s' = rtail s" "rhist s' = rhist s"
    "rdata s' = (rdata s)(j mod N := d)" by (simp_all add: s'_def)
  have win [simp]: "window N s' = window N s" by (simp add: fun_eq_iff window_def)
  have d: "rhist s ! j = d" using f(10) [of t] pc by simp
  have other: "rdata s' (i mod N) = rdata s (i mod N)" if "window N s i" "i \<noteq> j" for i
    using window_inj [OF that(1), of j] f(3) [OF mine] that(2) by auto
  have notpop: "j \<noteq> i" if "popping s u i" for u i using f(5) [OF that] f(3) [OF mine] by auto
  have lok: "local_ok N s' (rpcs s' u)" for u
  proof (cases "u = t")
    case False
    have "rdata s' (i mod N) = rdata s (i mod N)" if "rpcs s u = PushStore i" for i
    proof (rule other)
      have "pushing s u i" using that by (simp add: pushing_def)
      then show "window N s i" "i \<noteq> j" using f(3) f(4) [OF mine, of u] False by auto
    qed
    then show ?thesis using f(10) [of u] False by (cases "rpcs s u") (auto simp: pcs)
  qed (simp add: pcs d)
  show ?thesis unfolding ring_inv_def push pop
  proof (intro conjI allI impI, goal_cases)
    case (10 u i) then show ?case using f(5) [of u i] notpop [of u i] other [of i] by auto
  next
    case (13 i)
    show ?case
    proof (cases "i = j")
      case True
      then show ?thesis using mine by blast
    next
      case False
      then show ?thesis using f(7) [of i] 13 other [of i] by auto
    qed
  qed (use f lok in \<open>auto simp: f(1)\<close>)
qed

lemma push_store_inv:
  assumes inv: "ring_inv N s" and N: "2 \<le> N" and pc: "rpcs s t = PushStore j"
  defines "s' \<equiv> goto t (PushDone True) (s\<lparr>rseq := (rseq s)(j mod N := j + 1)\<rparr>)"
  shows "ring_inv N s'"
proof -
  note f = ring_invD [OF inv]
  have mine: "pushing s t j" using pc by (simp add: pushing_def)
  have wj: "window N s j" "rhead s \<le> j" "rseq s (j mod N) = j" using f(3) [OF mine] by auto
  have pcs: "rpcs s' = (rpcs s)(t := PushDone True)" by (simp add: s'_def)
  have push: "pushing s' u i \<longleftrightarrow> u \<noteq> t \<and> pushing s u i" for u i by (auto simp: pushing_def pcs)
  have pop: "popping s' = popping s" using pc by (auto simp: fun_eq_iff popping_def pcs)
  have fields [simp]: "rdata s' = rdata s" "rhead s' = rhead s" "rtail s' = rtail s" "rhist s' = rhist s"
    "rseq s' = (rseq s)(j mod N := j + 1)" by (simp_all add: s'_def)
  have win [simp]: "window N s' = window N s" by (simp add: fun_eq_iff window_def)
  have other: "rseq s' (i mod N) = rseq s (i mod N)" if "window N s i" "i \<noteq> j" for i
    using window_inj [OF that(1) wj(1)] that(2) by auto
  have tail: "rseq s' (rtail s mod N) = rtail s" if "rseq s (rtail s mod N) = rtail s"
  proof -
    have "rtail s mod N \<noteq> j mod N" using that wj by (auto simp: window_def)
    then show ?thesis using that by simp
  qed
  have head: "rseq s' (rhead s mod N) = rhead s + 1" if "rseq s (rhead s mod N) = rhead s + 1"
  proof (cases "rhead s mod N = j mod N")
    case True
    have "window N s (rhead s)" using f(7) [of "rhead s"] wj by (auto simp: window_def)
    then have "rhead s = j" using window_inj wj(1) True by blast
    then show ?thesis using that wj(3) by simp
  qed (use that in simp)
  have lok: "local_ok N s' (rpcs s' u)" for u
    using f(10) [of u] tail head by (cases "u = t"; cases "rpcs s u") (auto simp: pcs)
  have low: "rseq s' i = i" if "rtail s \<le> i" "i < N" for i
    using f(9) [OF that] that wj by (auto simp: window_def)
  show ?thesis unfolding ring_inv_def pop
  proof (intro conjI allI impI, goal_cases)
    case (5 u i)
    then have "pushing s u i" "i \<noteq> j" using push f(4) [OF mine, of u] by auto
    then show ?case using f(3) [of u i] other [of i] by auto
  next
    case (9 u i) then show ?case using f(5) [of u i] other [of i] wj(2) by auto
  next
    case (13 i)
    show ?case
    proof (cases "i = j")
      case True
      then show ?thesis using f(10) [of t] pc by simp
    next
      case False
      have "pushing s t i \<Longrightarrow> i = j" using pc by (simp add: pushing_def)
      then have "(\<exists>u. pushing s u i) \<Longrightarrow> (\<exists>u. pushing s' u i)" using push False by blast
      then show ?thesis using f(7) [of i] 13 other [of i] False by auto
    qed
  next
    case (14 i) then show ?case using f(8) [of i] other [of i] wj(2) by auto
  next
    case (15 i) then show ?case using low by simp
  qed (use f lok push in auto)
qed

lemma head_ready:
  assumes inv: "ring_inv N s" and N: "0 < N" and "rseq s (rhead s mod N) = rhead s + 1"
  shows "rhead s < rtail s"
proof (rule ccontr)
  assume "\<not> rhead s < rtail s"
  then have "rhead s = rtail s" using ring_invD(2) [OF inv] by simp
  then have r: "rseq s (rtail s mod N) = rtail s + 1" using assms(3) by simp
  have "rseq s (rtail s mod N) = rtail s \<or>
      (\<exists>j. rtail s = j + N \<and> (rseq s (rtail s mod N) = j \<or> rseq s (rtail s mod N) = j + 1))"
    using next_slot [OF inv N] by (elim disjE exE conjE) metis+
  then show False using r N by (elim disjE exE conjE) linarith+
qed

lemma pop_cas_inv:
  assumes inv: "ring_inv N s" and N: "2 \<le> N" and pc: "rpcs s t = PopCas (rhead s)"
  defines "s' \<equiv> goto t (PopRead (rhead s)) (s\<lparr>rhead := rhead s + 1\<rparr>)"
  shows "ring_inv N s'"
proof -
  note f = ring_invD [OF inv]
  have ready: "rseq s (rhead s mod N) = rhead s + 1" using f(10) [of t] pc by simp
  have lt: "rhead s < rtail s" using head_ready [OF inv _ ready] N by simp
  have nopush: "\<not> pushing s u (rhead s)" for u using f(3) [of u "rhead s"] ready by auto
  have data: "rdata s (rhead s mod N) = rhist s ! rhead s" "window N s (rhead s)"
    using f(7) [of "rhead s"] lt nopush by auto
  have pcs: "rpcs s' = (rpcs s)(t := PopRead (rhead s))" by (simp add: s'_def)
  have push: "pushing s' = pushing s" using pc by (auto simp: fun_eq_iff pushing_def pcs)
  have pop: "popping s' u i \<longleftrightarrow> (if u = t then i = rhead s else popping s u i)" for u i
    using pc by (auto simp: popping_def pcs)
  have fields [simp]: "rseq s' = rseq s" "rdata s' = rdata s" "rhead s' = rhead s + 1"
    "rtail s' = rtail s" "rhist s' = rhist s" by (simp_all add: s'_def)
  have win [simp]: "window N s' = window N s" by (simp add: fun_eq_iff window_def)
  have lok: "local_ok N s' (rpcs s' u)" for u
    using f(10) [of u] by (cases "u = t"; cases "rpcs s u") (auto simp: pcs)
  have idle: "\<not> popping s t i" for i using claims_none(2) [of s t i] pc by simp
  show ?thesis unfolding ring_inv_def push
  proof (intro conjI allI impI, goal_cases)
    case 2 then show ?case using lt by simp
  next
    case (3 u i) then show ?case using f(3) [of u i] nopush [of u] by (cases "i = rhead s") auto
  next
    case (7 u i) then show ?case using f(5) [of u i] pop by (auto split: if_splits)
  next
    case (8 u i) then show ?case using f(5) [of u i] pop data by (auto split: if_splits)
  next
    case (9 u i) then show ?case using f(5) [of u i] pop ready by (auto split: if_splits)
  next
    case (10 u i) then show ?case using f(5) [of u i] pop data by (auto split: if_splits)
  next
    case (11 u i v)
    then show ?case using f(5) [of u i] f(5) [of v i] f(6) [of u i v] pop by (auto split: if_splits)
  next
    case (14 i)
    show ?case
    proof (cases "i = rhead s")
      case True
      then show ?thesis using pop by auto
    next
      case False
      then have "(\<exists>u. popping s u i) \<Longrightarrow> (\<exists>u. popping s' u i)" using pop idle by metis
      then show ?thesis using f(8) [of i] 14 False by auto
    qed
  qed (use f lok in auto)
qed

lemma pop_read_inv:
  assumes inv: "ring_inv N s" and pc: "rpcs s t = PopRead j"
  shows "ring_inv N (goto t (PopStore j (rdata s (j mod N))) s)"
proof -
  note f = ring_invD [OF inv]
  define s' where "s' = goto t (PopStore j (rdata s (j mod N))) s"
  have "popping s t j" using pc by (simp add: popping_def)
  then have v: "rdata s (j mod N) = rhist s ! j" using f(5) by blast
  have push: "pushing s' = pushing s" and pop: "popping s' = popping s"
    using pc by (auto simp: fun_eq_iff pushing_def popping_def s'_def)
  have "local_ok N s' (rpcs s' u)" for u
    using f(10) [of u] v by (cases "u = t") (auto simp: s'_def local_ok_cong [of "goto t _ s" s])
  moreover have "window N s' = window N s" "rseq s' = rseq s" "rdata s' = rdata s" "rhead s' = rhead s"
    "rtail s' = rtail s" "rhist s' = rhist s" by (simp_all add: s'_def)
  ultimately show ?thesis using inv unfolding s'_def [symmetric] ring_inv_def push pop by (simp only:) blast
qed

lemma pop_store_inv:
  assumes inv: "ring_inv N s" and N: "2 \<le> N" and pc: "rpcs s t = PopStore j v"
  defines "s' \<equiv> goto t (PopDone (Some v)) (s\<lparr>rseq := (rseq s)(j mod N := j + N)\<rparr>)"
  shows "ring_inv N s'"
proof -
  note f = ring_invD [OF inv]
  have mine: "popping s t j" using pc by (simp add: popping_def)
  have wj: "window N s j" "j < rhead s" "rseq s (j mod N) = j + 1" using f(5) [OF mine] by auto
  have pcs: "rpcs s' = (rpcs s)(t := PopDone (Some v))" by (simp add: s'_def)
  have push: "pushing s' = pushing s" using pc by (auto simp: fun_eq_iff pushing_def pcs)
  have pop: "popping s' u i \<longleftrightarrow> u \<noteq> t \<and> popping s u i" for u i by (auto simp: popping_def pcs)
  have fields [simp]: "rdata s' = rdata s" "rhead s' = rhead s" "rtail s' = rtail s" "rhist s' = rhist s"
    "rseq s' = (rseq s)(j mod N := j + N)" by (simp_all add: s'_def)
  have win [simp]: "window N s' = window N s" by (simp add: fun_eq_iff window_def)
  have other: "rseq s' (i mod N) = rseq s (i mod N)" if "window N s i" "i \<noteq> j" for i
    using window_inj [OF that(1) wj(1)] that(2) by auto
  have tail: "rseq s' (rtail s mod N) = rtail s" if "rseq s (rtail s mod N) = rtail s"
  proof (cases "rtail s mod N = j mod N")
    case True
    then have "rtail s = j + 1" using that wj(3) by simp
    then show ?thesis using True N by (simp add: mod_Suc split: if_splits)
  qed (use that in simp)
  have head: "rseq s' (rhead s mod N) = rhead s + 1" if "rseq s (rhead s mod N) = rhead s + 1"
  proof -
    have "window N s (rhead s)" using f(7) [of "rhead s"] head_ready [OF inv _ that] N by simp
    then show ?thesis using other [of "rhead s"] wj(2) that by simp
  qed
  have lok: "local_ok N s' (rpcs s' u)" for u
    using f(10) [of u] tail head by (cases "u = t"; cases "rpcs s u") (auto simp: pcs)
  have low: "rseq s' i = i" if "rtail s \<le> i" "i < N" for i
    using f(9) [OF that] that wj by (auto simp: window_def)
  show ?thesis unfolding ring_inv_def push
  proof (intro conjI allI impI, goal_cases)
    case (5 u i) then show ?case using f(3) [of u i] other [of i] wj(2) by auto
  next
    case (9 u i)
    then have "popping s u i" "i \<noteq> j" using pop f(6) [OF mine, of u] by auto
    then show ?case using f(5) [of u i] other [of i] by auto
  next
    case (13 i) then show ?case using f(7) [of i] other [of i] wj(2) by auto
  next
    case (14 i)
    show ?case
    proof (cases "i = j")
      case True
      then show ?thesis by simp
    next
      case False
      have "popping s t i \<Longrightarrow> i = j" using pc by (simp add: popping_def)
      then have "(\<exists>u. popping s u i) \<Longrightarrow> (\<exists>u. popping s' u i)" using pop False by blast
      then show ?thesis using f(8) [of i] 14 other [of i] False by auto
    qed
  next
    case (15 i) then show ?case using low by simp
  qed (use f lok pop in auto)
qed

lemma ring_step_inv:
  assumes inv: "ring_inv N s" and N: "2 \<le> N"
  shows "ring_inv N (ring_step N t ok s)"
proof (cases "rpcs s t")
  case (PushLoad d)
  then show ?thesis by (simp add: ring_step_def goto_unclaimed [OF inv])
next
  case (PushSeq d j)
  then show ?thesis using ring_invD(10) [OF inv, of t]
    by (auto simp: ring_step_def intro!: goto_unclaimed [OF inv])
next
  case (PushCas d j)
  then show ?thesis using push_cas_inv [OF inv N, of t d]
    by (auto simp: ring_step_def intro!: goto_unclaimed [OF inv])
next
  case (PushWrite d j)
  then show ?thesis using push_write_inv [OF inv] by (simp add: ring_step_def)
next
  case (PushStore j)
  then show ?thesis using push_store_inv [OF inv N] by (simp add: ring_step_def)
next
  case PopLoad
  then show ?thesis by (simp add: ring_step_def goto_unclaimed [OF inv])
next
  case (PopSeq j)
  then show ?thesis using ring_invD(10) [OF inv, of t]
    by (auto simp: ring_step_def intro!: goto_unclaimed [OF inv])
next
  case (PopCas j)
  then show ?thesis using pop_cas_inv [OF inv N, of t]
    by (auto simp: ring_step_def intro!: goto_unclaimed [OF inv])
next
  case (PopRead j)
  then show ?thesis using pop_read_inv [OF inv] by (simp add: ring_step_def)
next
  case (PopStore j v)
  then show ?thesis using pop_store_inv [OF inv N] by (simp add: ring_step_def)
qed (use inv in \<open>simp_all add: ring_step_def\<close>)

lemma ring_init_inv: "ring_inv N (ring_init d)"
  by (simp add: ring_inv_def ring_init_def pushing_def popping_def window_def)

text \<open>The slot of a position that has been passed: its sequence number is not behind.\<close>

lemma slot_position:
  assumes "j < rtail r" "0 < N"
  obtains i where "window N r i" "i mod N = j mod N" "i = j \<or> j + N \<le> i"
proof -
  define c where "c = N * ((rtail r - 1 - j) div N)"
  have "c \<le> rtail r - 1 - j" by (simp add: c_def)
  moreover have "rtail r - 1 - j < c + N"
    using assms(2) unfolding c_def by (metis add.commute dividend_less_times_div)
  ultimately have "window N r (j + c)" using assms(1) unfolding window_def by arith
  moreover have "(j + c) mod N = j mod N" by (simp add: c_def)
  moreover have "j + c = j \<or> j + N \<le> j + c"
    by (cases "(rtail r - 1 - j) div N") (simp_all add: c_def)
  ultimately show ?thesis by (rule that)
qed

lemma window_seq:
  assumes inv: "ring_inv N r" and "window N r i" "0 < N"
  shows "i \<le> rseq r (i mod N)" "i < rhead r \<Longrightarrow> i + 1 \<le> rseq r (i mod N)"
proof -
  have "i < rtail r" using assms(2) by (simp add: window_def)
  then show "i \<le> rseq r (i mod N)"
    using ring_invD(3,5) [OF inv, of _ i] ring_invD(7,8) [OF inv, of i] assms(2)
    by (cases "rhead r \<le> i") auto
  show "i + 1 \<le> rseq r (i mod N)" if "i < rhead r"
    using ring_invD(5) [OF inv, of _ i] ring_invD(8) [OF inv that assms(2)] assms(3) by auto
qed

lemma stale_slot:
  assumes "ring_inv N r" "j < rtail r" "0 < N"
  shows "j \<le> rseq r (j mod N)"
proof -
  obtain i where i: "window N r i" "i mod N = j mod N" "i = j \<or> j + N \<le> i"
    using slot_position [OF assms(2,3)] .
  then show ?thesis using window_seq(1) [OF assms(1) i(1) assms(3)] by auto
qed

lemma popped_slot:
  assumes "ring_inv N r" "j < rhead r" "0 < N"
  shows "j + 1 \<le> rseq r (j mod N)"
proof -
  have "j < rtail r" using assms(2) ring_invD(2) [OF assms(1)] by simp
  then obtain i where i: "window N r i" "i mod N = j mod N" "i = j \<or> j + N \<le> i"
    using slot_position assms(3) by metis
  then show ?thesis using window_seq [OF assms(1) i(1) assms(3)] assms(2,3) by auto
qed

end
