(* ===== verification/Fifo_Spec.thy ===== *)
theory Fifo_Spec
  imports Ring_Spec
begin

text \<open>
  What \<^verbatim>\<open>LockFreeQueue\<close> promises to its callers: a list to which the pushes append and from which the
  pops take the first element, each in one atomic step between call and return. The calls, their
  arguments and the values they return are those of the threads, so an implementation that
  delivers another element than the one it took does not fulfil the specification. The ring with
  unbounded counters refines it.
\<close>

section \<open>The bounded FIFO queue\<close>

text \<open>Where the call of a thread stands: before the atomic step, after it, returned.\<close>

datatype 'a call =
    Quiet
  | Pushing 'a | Pushed | Push_Returned bool
  | Popping | Popped 'a | Pop_Returned "'a option"

fun returned :: "'a call \<Rightarrow> bool" where
  "returned Quiet = True"
| "returned (Push_Returned b) = True"
| "returned (Pop_Returned r) = True"
| "returned _ = False"

text \<open>A push may give up when the list is full or a pop is about to return, a pop when the list is
  empty or a push is about to return.\<close>

inductive fifo_step :: "nat \<Rightarrow> 'a list \<times> (nat \<Rightarrow> 'a call) \<Rightarrow> 'a list \<times> (nat \<Rightarrow> 'a call) \<Rightarrow> bool" for N where
  call_push: "returned (c t) \<Longrightarrow> fifo_step N (xs, c) (xs, c(t := Pushing d))"
| append: "c t = Pushing d \<Longrightarrow> length xs < N \<Longrightarrow> fifo_step N (xs, c) (xs @ [d], c(t := Pushed))"
| push_true: "c t = Pushed \<Longrightarrow> fifo_step N (xs, c) (xs, c(t := Push_Returned True))"
| push_false: "c t = Pushing d \<Longrightarrow> length xs = N \<or> (\<exists>t' v. c t' = Popped v) \<Longrightarrow>
    fifo_step N (xs, c) (xs, c(t := Push_Returned False))"
| call_pop: "returned (c t) \<Longrightarrow> fifo_step N (xs, c) (xs, c(t := Popping))"
| take_first: "c t = Popping \<Longrightarrow> fifo_step N (x # xs, c) (xs, c(t := Popped x))"
| pop_true: "c t = Popped v \<Longrightarrow> fifo_step N (xs, c) (xs, c(t := Pop_Returned (Some v)))"
| pop_false: "c t = Popping \<Longrightarrow> xs = [] \<or> (\<exists>t'. c t' = Pushed) \<Longrightarrow>
    fifo_step N (xs, c) (xs, c(t := Pop_Returned None))"

section \<open>The abstraction\<close>

text \<open>The atomic step is the successful compare-and-exchange. From then on a pop holds the element
  that was pushed at its position; once it has read the node, what it holds is what it has read.\<close>

fun call_of :: "'a list \<Rightarrow> ('a, nat) pc \<Rightarrow> 'a call" where
  "call_of h Idle = Quiet"
| "call_of h (PushLoad d) = Pushing d"
| "call_of h (PushSeq d j) = Pushing d"
| "call_of h (PushCas d j) = Pushing d"
| "call_of h (PushWrite d j) = Pushed"
| "call_of h (PushStore j) = Pushed"
| "call_of h (PushDone b) = Push_Returned b"
| "call_of h PopLoad = Popping"
| "call_of h (PopSeq j) = Popping"
| "call_of h (PopCas j) = Popping"
| "call_of h (PopRead j) = Popped (h ! j)"
| "call_of h (PopStore j v) = Popped v"
| "call_of h (PopDone r) = Pop_Returned r"

definition abs_ring :: "'a ring \<Rightarrow> 'a list \<times> (nat \<Rightarrow> 'a call)" where
  "abs_ring r = (drop (rhead r) (rhist r), \<lambda>t. call_of (rhist r) (rpcs r t))"

lemma abs_goto:
  "abs_ring (goto t p r) = (drop (rhead r) (rhist r), (\<lambda>t. call_of (rhist r) (rpcs r t))(t := call_of (rhist r) p))"
  by (auto simp: abs_ring_def goto_def)

lemma abs_goto_same: "call_of (rhist r) p = call_of (rhist r) (rpcs r t) \<Longrightarrow> abs_ring (goto t p r) = abs_ring r"
  unfolding abs_goto by (simp add: abs_ring_def fun_upd_idem)

lemma abs_writes [simp]:
  "abs_ring (r\<lparr>rseq := sq\<rparr>) = abs_ring r" "abs_ring (r\<lparr>rdata := dt\<rparr>) = abs_ring r"
  by (simp_all add: abs_ring_def)

lemma popping_call: "popping r t j \<Longrightarrow> \<exists>v. call_of (rhist r) (rpcs r t) = Popped v"
  by (auto simp: popping_def)

lemma pushing_call: "pushing r t j \<Longrightarrow> call_of (rhist r) (rpcs r t) = Pushed"
  by (auto simp: pushing_def)

section \<open>Calls that give up\<close>

text \<open>The slot of a push that gives up is the one at the tail, and it is not free.\<close>

lemma push_gives_up:
  assumes inv: "ring_inv N r" and "0 < N" "rpcs r t = PushSeq d j" "rseq r (j mod N) < j"
  shows "rtail r - rhead r = N \<or> (\<exists>u i. rtail r = i + N \<and> popping r u i)"
proof -
  have le: "j \<le> rtail r" using ring_invD(10) [OF inv, of t] assms(3) by simp
  then have "j = rtail r" using stale_slot [OF inv _ assms(2), of j] assms(4) by fastforce
  then have "rseq r (rtail r mod N) \<noteq> rtail r" using assms(4) by auto
  then obtain i where i: "rtail r = i + N" "rhead r \<le> i \<or> (\<exists>u. popping r u i)"
    using next_slot [OF inv assms(2)] by auto
  have "rtail r \<le> rhead r + N" if "rhead r < rtail r"
    using ring_invD(7) [OF inv order_refl that] by (simp add: window_def)
  then show ?thesis using i assms(2) by (cases "rhead r \<le> i") auto
qed

text \<open>The position of a pop that gives up is the head, and nothing is published there.\<close>

lemma pop_gives_up:
  assumes inv: "ring_inv N r" and "0 < N" "rpcs r t = PopSeq j" "rseq r (j mod N) < j + 1"
  shows "rtail r = rhead r \<or> (\<exists>u. pushing r u (rhead r))"
proof -
  have "j \<le> rhead r" using ring_invD(10) [OF inv, of t] assms(3) by simp
  then have j: "j = rhead r" using popped_slot [OF inv _ assms(2), of j] assms(4) by fastforce
  show ?thesis
    using ring_invD(2) [OF inv] ring_invD(7) [OF inv order_refl] assms(4) unfolding j by fastforce
qed

section \<open>The ring refines the bounded FIFO queue\<close>

lemma push_cas_append:
  assumes inv: "ring_inv N r" and N: "2 \<le> N" and "rpcs r t = PushCas d (rtail r)"
    and r': "r' = goto t (PushWrite d (rtail r)) (r\<lparr>rtail := rtail r + 1, rhist := rhist r @ [d]\<rparr>)"
  shows "fifo_step N (abs_ring r) (abs_ring r')"
proof -
  have len: "length (rhist r) = rtail r" "rhead r \<le> rtail r" using ring_invD(1,2) [OF inv] by auto
  have "rseq r (rtail r mod N) = rtail r" using ring_invD(10) [OF inv, of t] assms(3) by simp
  then have "rtail r < rhead r + N" using next_free(3) [OF inv N] by blast
  then have room: "length (drop (rhead r) (rhist r)) < N" using len N by simp
  have "call_of (rhist r @ [d]) (rpcs r u) = call_of (rhist r) (rpcs r u)" for u
    using ring_invD(5) [OF inv, of u] len
    by (cases "rpcs r u") (auto simp: popping_def nth_append dest: order_less_le_trans)
  then have "abs_ring r' = (drop (rhead r) (rhist r) @ [d], (\<lambda>u. call_of (rhist r) (rpcs r u))(t := Pushed))"
    using len unfolding r' abs_goto by (auto simp: fun_eq_iff)
  then show ?thesis using room assms(3) unfolding abs_ring_def by (auto intro: fifo_step.append)
qed

lemma pop_cas_takes:
  assumes inv: "ring_inv N r" and N: "0 < N" and "rpcs r t = PopCas (rhead r)"
    and r': "r' = goto t (PopRead (rhead r)) (r\<lparr>rhead := rhead r + 1\<rparr>)"
  shows "fifo_step N (abs_ring r) (abs_ring r')"
proof -
  have "rseq r (rhead r mod N) = rhead r + 1" using ring_invD(10) [OF inv, of t] assms(3) by simp
  then have "rhead r < rtail r" by (rule head_ready [OF inv N])
  then have first: "drop (rhead r) (rhist r) = rhist r ! rhead r # drop (rhead r + 1) (rhist r)"
    using ring_invD(1) [OF inv] by (simp add: Cons_nth_drop_Suc)
  have "abs_ring r' = (drop (rhead r + 1) (rhist r), (\<lambda>u. call_of (rhist r) (rpcs r u))(t := Popped (rhist r ! rhead r)))"
    unfolding r' abs_goto by simp
  then show ?thesis using assms(3) unfolding abs_ring_def [of r] first by (auto intro: fifo_step.take_first)
qed

lemma ring_step_fifo:
  assumes inv: "ring_inv N r" and N: "2 \<le> N"
  shows "abs_ring (ring_step N t ok r) = abs_ring r \<or> fifo_step N (abs_ring r) (abs_ring (ring_step N t ok r))"
proof -
  have len: "length (drop (rhead r) (rhist r)) = rtail r - rhead r" using ring_invD(1) [OF inv] by simp
  have pos: "0 < N" using N by simp
  show ?thesis
  proof (cases "rpcs r t")
    case (PushSeq d j)
    have "fifo_step N (abs_ring r) (abs_ring (goto t (PushDone False) r))" if "rseq r (j mod N) < j"
      using push_gives_up [OF inv pos PushSeq that] popping_call [of r] PushSeq len unfolding abs_goto
      by (fastforce simp: abs_ring_def intro: fifo_step.push_false)
    then show ?thesis using PushSeq by (auto simp: ring_step_def abs_goto_same)
  next
    case (PushCas d j)
    then show ?thesis using push_cas_append [OF inv N _ refl, of t d]
      by (auto simp: ring_step_def abs_goto_same)
  next
    case (PushStore j)
    then show ?thesis using fifo_step.push_true [of "\<lambda>u. call_of (rhist r) (rpcs r u)" t]
      by (auto simp: ring_step_def abs_goto) (simp add: abs_ring_def)
  next
    case (PopSeq j)
    have "fifo_step N (abs_ring r) (abs_ring (goto t (PopDone None) r))" if "rseq r (j mod N) < j + 1"
      using pop_gives_up [OF inv pos PopSeq that] pushing_call [of r] PopSeq ring_invD(1) [OF inv] unfolding abs_goto
      by (fastforce simp: abs_ring_def intro: fifo_step.pop_false)
    then show ?thesis using PopSeq by (auto simp: ring_step_def abs_goto_same)
  next
    case (PopCas j)
    then show ?thesis using pop_cas_takes [OF inv pos _ refl, of t]
      by (auto simp: ring_step_def abs_goto_same)
  next
    case (PopRead j)
    then have "rdata r (j mod N) = rhist r ! j" using ring_invD(5) [OF inv, of t j] by (simp add: popping_def)
    then show ?thesis using PopRead by (simp add: ring_step_def abs_goto_same)
  next
    case (PopStore j v)
    then show ?thesis using fifo_step.pop_true [of "\<lambda>u. call_of (rhist r) (rpcs r u)" t]
      by (auto simp: ring_step_def abs_goto) (simp add: abs_ring_def)
  qed (simp_all add: ring_step_def abs_goto_same)
qed

end
