(* ===== verification/Queue_Refinement.thy ===== *)
theory Queue_Refinement
  imports Fifo_Spec
begin

text \<open>
  The 64-bit queue refines the ring with unbounded counters as long as fewer than \<^verbatim>\<open>2^62\<close> elements
  have been pushed: every access of a thread is the same access of the ring. From the invariant
  of the ring follow the properties of \<^verbatim>\<open>LockFreeQueue\<close> under any interleaving.
\<close>

section \<open>64-bit positions\<close>

lemma sint_pos: "n < 2 ^ 63 \<Longrightarrow> sint (of_nat n :: u64) = int n"
  by (simp add: signed_of_nat signed_take_bit_int_eq_self)

lemma pos_eq: "m < 2 ^ 63 \<Longrightarrow> n < 2 ^ 63 \<Longrightarrow> (of_nat m :: u64) = of_nat n \<longleftrightarrow> m = n"
  by (auto simp: word_unat_eq_iff unat_of_nat)

lemma index_mod:
  assumes "capacity_mask q = of_nat (2 ^ k) - 1" "n < 2 ^ 63" "k \<le> 61"
  shows "node_index q (of_nat n) = n mod 2 ^ k"
proof -
  have "capacity_mask q = mask k" by (simp add: assms(1) mask_eq_exp_minus_1)
  then have "of_nat n AND capacity_mask q = take_bit k (of_nat n :: u64)" by (simp add: take_bit_eq_mask)
  moreover have "unat (take_bit k (of_nat n :: u64)) = take_bit k n"
    using assms(2) by (simp add: unsigned_take_bit_eq unat_of_nat)
  ultimately show ?thesis by (simp add: node_index_def take_bit_eq_mod)
qed

section \<open>The refinement relation\<close>

definition refines :: "nat \<Rightarrow> 'a lfq_sys \<Rightarrow> 'a ring \<Rightarrow> bool" where
  "refines k s r \<longleftrightarrow>
     capacity_mask (queue s) = of_nat (2 ^ k) - 1 \<and> length (buffer (queue s)) = 2 ^ k \<and>
     (\<forall>i < 2 ^ k. sequence (buffer (queue s) ! i) = of_nat (rseq r i) \<and>
                  node_data (buffer (queue s) ! i) = rdata r i) \<and>
     enqueue_pos (queue s) = of_nat (rtail r) \<and> dequeue_pos (queue s) = of_nat (rhead r) \<and>
     (\<forall>t. pcs s t = map_pc (\<lambda>x. x) of_nat (rpcs r t)) \<and> hist s = rhist r \<and> taken s = rhead r"

lemma init_refines: "refines k (lfq_init (2 ^ k) d) (ring_init d)"
  by (simp add: refines_def lfq_init_def ring_init_def lfq_new_def)

text \<open>The sequence numbers and the positions that threads hold stay close to the tail.\<close>

lemma rseq_bound:
  assumes inv: "ring_inv N r" and "i < N"
  shows "rseq r i \<le> rtail r + N"
proof (cases "rtail r \<le> i")
  case True
  then show ?thesis using ring_invD(9) [OF inv True assms(2)] assms(2) by simp
next
  case False
  define c where "c = N * ((rtail r - 1 - i) div N)"
  define j where "j = i + c"
  have "c \<le> rtail r - 1 - i" by (simp add: c_def)
  moreover have "rtail r - 1 - i < c + N"
    using assms(2) by (metis c_def add.commute dividend_less_times_div less_nat_zero_code not_gr_zero)
  ultimately have w: "window N r j" using False unfolding window_def j_def by arith
  have m: "j mod N = i" using assms(2) by (simp add: j_def c_def)
  show ?thesis
  proof (cases "rhead r \<le> j")
    case True
    then have "(\<exists>t. pushing r t j) \<or> rseq r (j mod N) = j + 1"
      using ring_invD(7) [OF inv True] w by (auto simp: window_def)
    then have "rseq r i = j \<or> rseq r i = j + 1" using ring_invD(3) [OF inv] m by blast
    then show ?thesis using w by (auto simp: window_def)
  next
    case False
    then have "(\<exists>t. popping r t j) \<or> rseq r (j mod N) = j + N"
      using ring_invD(8) [OF inv _ w] by simp
    then have "rseq r i = j + 1 \<or> rseq r i = j + N" using ring_invD(5) [OF inv] m by blast
    then show ?thesis using w by (auto simp: window_def)
  qed
qed

lemma pos_bound:
  assumes inv: "ring_inv N r"
  shows "j \<in> set2_pc (rpcs r t) \<Longrightarrow> j \<le> rtail r"
  using ring_invD(2) [OF inv] ring_invD(10) [OF inv, of t] ring_invD(3,5) [OF inv, of t j]
  by (cases "rpcs r t") (auto simp: pushing_def popping_def window_def)

lemma refines_access:
  assumes "refines k s r" "j < 2 ^ 63" "k \<le> 61"
  shows "node_index (queue s) (of_nat j) = j mod 2 ^ k"
    "seq_of (queue s) (of_nat j) = of_nat (rseq r (j mod 2 ^ k))"
    "data_of (queue s) (of_nat j) = rdata r (j mod 2 ^ k)"
proof -
  show i: "node_index (queue s) (of_nat j) = j mod 2 ^ k"
    using assms index_mod unfolding refines_def by blast
  show "seq_of (queue s) (of_nat j) = of_nat (rseq r (j mod 2 ^ k))"
    "data_of (queue s) (of_nat j) = rdata r (j mod 2 ^ k)"
    using assms(1) unfolding seq_of_def data_of_def i refines_def by simp_all
qed

lemma refines_goto:
  assumes "refines k s r"
  shows "refines k (s\<lparr>pcs := (pcs s)(t := map_pc (\<lambda>x. x) of_nat p)\<rparr>) (goto t p r)"
  using assms by (simp add: refines_def)

lemma refines_write:
  assumes "refines k s r" "j < 2 ^ 63" "k \<le> 61"
  shows "refines k (s\<lparr>queue := set_seq (queue s) (of_nat j) (of_nat v)\<rparr>) (r\<lparr>rseq := (rseq r)(j mod 2 ^ k := v)\<rparr>)"
    and "refines k (s\<lparr>queue := set_data (queue s) (of_nat j) d\<rparr>) (r\<lparr>rdata := (rdata r)(j mod 2 ^ k := d)\<rparr>)"
  using assms(1) refines_access(1) [OF assms] unfolding refines_def
  by (auto simp: set_seq_def set_data_def nth_list_update)

text \<open>One access: the 64-bit queue does what the ring does.\<close>

lemma thread_step_refines:
  assumes r: "refines k s r" and inv: "ring_inv (2 ^ k) r" and k: "k \<le> 61" and small: "rtail r < 2 ^ 62"
  shows "refines k (thread_step t ok s) (ring_step (2 ^ k) t ok r)"
proof -
  have pc: "pcs s t = map_pc (\<lambda>x. x) of_nat (rpcs r t)" using r by (simp add: refines_def)
  have q: "enqueue_pos (queue s) = of_nat (rtail r)" "dequeue_pos (queue s) = of_nat (rhead r)"
    "capacity_mask (queue s) = of_nat (2 ^ k) - 1" using r by (simp_all add: refines_def)
  have kk: "(2 :: nat) ^ k \<le> 2 ^ 61" using k by (rule power_increasing) simp
  have head: "rhead r < 2 ^ 62" using ring_invD(2) [OF inv] small by simp
  have pos: "j < 2 ^ 62" if "j \<in> set2_pc (rpcs r t)" for j using pos_bound [OF inv that] small by simp
  have sq: "rseq r (j mod 2 ^ k) < 2 ^ 63" for j
  proof -
    have "rseq r (j mod 2 ^ k) \<le> rtail r + 2 ^ k" by (rule rseq_bound [OF inv]) simp
    then show ?thesis using small kk by simp
  qed
  have move: "refines k (s\<lparr>pcs := (pcs s)(t := map_pc (\<lambda>x. x) of_nat p)\<rparr>) (goto t p r)" for p
    by (rule refines_goto [OF r])
  note defs = thread_step_def ring_step_def ghost_hist_def ghost_taken_def
  show ?thesis
  proof (cases "rpcs r t")
    case (PushSeq d j)
    then have j: "j < 2 ^ 63" using pos [of j] by simp
    show ?thesis using move [of "PushCas d j"] move [of "PushDone False"] move [of "PushLoad d"]
      refines_access(2) [OF r j k] sq [of j] j PushSeq pc by (simp add: defs sint_pos Let_def)
  next
    case (PopSeq j)
    then have j: "j < 2 ^ 63" "j + 1 < 2 ^ 63" using pos [of j] by simp_all
    have next1: "sint (of_nat j + 1 :: u64) = int j + 1" using sint_pos [OF j(2)] by (simp add: add.commute)
    show ?thesis using move [of "PopCas j"] move [of "PopDone None"] move [of PopLoad]
      refines_access(2) [OF r j(1) k] sq [of j] PopSeq pc
      by (auto simp: defs sint_pos Let_def next1)
  next
    case (PushCas d j)
    then have j: "j < 2 ^ 63" using pos [of j] by simp
    then have eq: "(of_nat (rtail r) :: u64) = of_nat j \<longleftrightarrow> rtail r = j" using small by (intro pos_eq) simp_all
    show ?thesis
    proof (cases "rtail r = j \<and> ok")
      case True
      then show ?thesis using r PushCas pc q unfolding refines_def by (simp add: defs goto_def)
    next
      case False
      then show ?thesis using move [of "PushSeq d (rtail r)"] PushCas pc q eq by (auto simp: defs)
    qed
  next
    case (PopCas j)
    then have j: "j < 2 ^ 63" using pos [of j] by simp
    then have eq: "(of_nat (rhead r) :: u64) = of_nat j \<longleftrightarrow> rhead r = j" using head by (intro pos_eq) simp_all
    show ?thesis
    proof (cases "rhead r = j \<and> ok")
      case True
      then show ?thesis using r PopCas pc q unfolding refines_def by (simp add: defs goto_def)
    next
      case False
      then show ?thesis using move [of "PopSeq (rhead r)"] PopCas pc q eq by (auto simp: defs)
    qed
  next
    case (PushWrite d j)
    then have j: "j < 2 ^ 63" using pos [of j] by simp
    show ?thesis using refines_goto [OF refines_write(2) [OF r j k, of d], of t "PushStore j"] PushWrite pc
      by (simp add: defs)
  next
    case (PushStore j)
    then have j: "j < 2 ^ 63" using pos [of j] by simp
    show ?thesis using refines_goto [OF refines_write(1) [OF r j k, of "j + 1"], of t "PushDone True"] PushStore pc
      by (simp add: defs add.commute)
  next
    case (PopRead j)
    then have j: "j < 2 ^ 63" using pos [of j] by simp
    show ?thesis using move [of "PopStore j (rdata r (j mod 2 ^ k))"] refines_access(3) [OF r j k] PopRead pc
      by (simp add: defs)
  next
    case (PopStore j v)
    then have j: "j < 2 ^ 63" using pos [of j] by simp
    show ?thesis using refines_goto [OF refines_write(1) [OF r j k, of "j + 2 ^ k"], of t "PopDone (Some v)"] PopStore pc q
      by (simp add: defs)
  qed (use r move pc q in \<open>simp_all add: defs, (simp add: refines_def)+\<close>)
qed

section \<open>Reachable states\<close>

definition fifo :: "'a lfq_sys \<Rightarrow> 'a list" where
  "fifo s = drop (taken s) (hist s)"

lemma thread_step_hist: "length (hist s) \<le> length (hist (thread_step t ok s))"
  by (auto simp: thread_step_def ghost_hist_def split: prod.splits pc.splits)

lemma sys_step_hist: "sys_step s s' \<Longrightarrow> length (hist s) \<le> length (hist s')"
  by (induction rule: sys_step.induct) (auto simp: thread_step_hist)

lemma finished_map: "finished (map_pc f g p) = finished p"
  by (cases p) auto

lemma finished_unclaimed: "finished p \<Longrightarrow> \<not> claims p"
  by (cases p) auto

lemma sys_step_ring:
  assumes "sys_step s s'" "refines k s r" "ring_inv (2 ^ k) r" "1 \<le> k" "k \<le> 61" "length (hist s') < 2 ^ 62"
  shows "\<exists>r'. refines k s' r' \<and> ring_inv (2 ^ k) r'"
  using assms
proof (induction rule: sys_step.induct)
  case (call_push s t d)
  then have "\<not> claims (rpcs r t)" by (auto simp: refines_def finished_map finished_unclaimed)
  then show ?case using goto_unclaimed [OF call_push(3), of t "PushLoad d"] refines_goto [OF call_push(2), of t "PushLoad d"]
    by auto
next
  case (call_pop s t)
  then have "\<not> claims (rpcs r t)" by (auto simp: refines_def finished_map finished_unclaimed)
  then show ?case using goto_unclaimed [OF call_pop(3), of t PopLoad] refines_goto [OF call_pop(2), of t PopLoad]
    by auto
next
  case (access s t ok)
  have "rtail r < 2 ^ 62"
    using access thread_step_hist [of s t ok] ring_invD(1) [OF access(2)] by (auto simp: refines_def)
  moreover have "(2 :: nat) \<le> 2 ^ k" using access(3) by (metis power_increasing power_one_right one_le_numeral)
  ultimately show ?case using thread_step_refines [OF access(1,2,4)] ring_step_inv [OF access(2)] by blast
qed

lemma reachable_ring:
  assumes "reachable (2 ^ k) d s" "1 \<le> k" "k \<le> 61" "length (hist s) < 2 ^ 62"
  shows "\<exists>r. refines k s r \<and> ring_inv (2 ^ k) r"
  using assms(1,4)
proof (induction rule: reachable.induct)
  case start
  show ?case by (rule exI [of _ "ring_init d"]) (simp only: init_refines ring_init_inv simp_thms)
next
  case (step s s')
  have "length (hist s) < 2 ^ 62" using sys_step_hist [OF step(2)] step.prems by simp
  then show ?case using step.IH sys_step_ring [OF step(2) _ _ assms(2,3) step.prems] by blast
qed

text \<open>From the ring back to the 64-bit queue.\<close>

lemma refines_pc:
  assumes "refines k s r"
  shows "pcs s t = PushSeq d pos \<Longrightarrow> \<exists>j. rpcs r t = PushSeq d j \<and> pos = of_nat j"
    "pcs s t = PushCas d pos \<Longrightarrow> \<exists>j. rpcs r t = PushCas d j \<and> pos = of_nat j"
    "pcs s t = PushWrite d pos \<Longrightarrow> \<exists>j. rpcs r t = PushWrite d j \<and> pos = of_nat j"
    "pcs s t = PopSeq pos \<Longrightarrow> \<exists>j. rpcs r t = PopSeq j \<and> pos = of_nat j"
    "pcs s t = PopCas pos \<Longrightarrow> \<exists>j. rpcs r t = PopCas j \<and> pos = of_nat j"
    "pcs s t = PopRead pos \<Longrightarrow> \<exists>j. rpcs r t = PopRead j \<and> pos = of_nat j"
    "pcs s t = PopStore pos v \<Longrightarrow> \<exists>j. rpcs r t = PopStore j v \<and> pos = of_nat j"
  using assms by (cases "rpcs r t"; auto simp: refines_def)+

lemma ring_fifo:
  assumes "refines k s r" "ring_inv (2 ^ k) r"
  shows "taken s = rhead r" "length (hist s) = rtail r" "hist s = rhist r" "length (fifo s) = rtail r - rhead r"
  using assms ring_invD(1) [OF assms(2)] by (auto simp: refines_def fifo_def)

lemma ring_room: "ring_inv N r \<Longrightarrow> rtail r \<le> rhead r + N"
  using ring_invD(7) [of N r "rhead r"] ring_invD(2) [of N r] by (cases "rhead r = rtail r") (auto simp: window_def)

text \<open>The queue as its callers see it.\<close>

definition abs_queue :: "'a lfq_sys \<Rightarrow> 'a list \<times> (nat \<Rightarrow> 'a call)" where
  "abs_queue s = (fifo s, \<lambda>t. call_of (hist s) (map_pc (\<lambda>x. x) unat (pcs s t)))"

lemma refines_abs:
  assumes "refines k s r" "ring_inv (2 ^ k) r" "rtail r < 2 ^ 62"
  shows "abs_queue s = abs_ring r"
proof -
  have "map_pc (\<lambda>x. x) unat (map_pc (\<lambda>x. x) of_nat (rpcs r t) :: ('a, u64) pc) = rpcs r t" for t
  proof -
    have "unat (of_nat j :: u64) = j" if "j \<in> set2_pc (rpcs r t)" for j
      using pos_bound [OF assms(2) that] assms(3) by (simp add: unat_of_nat)
    then show ?thesis by (cases "rpcs r t") (simp_all add: option.map_ident)
  qed
  then show ?thesis using assms(1) by (simp add: abs_queue_def abs_ring_def refines_def fifo_def)
qed

lemma abs_call:
  "abs_queue (s\<lparr>pcs := (pcs s)(t := PushLoad d)\<rparr>) = (fifo s, (snd (abs_queue s))(t := Pushing d))"
  "abs_queue (s\<lparr>pcs := (pcs s)(t := PopLoad)\<rparr>) = (fifo s, (snd (abs_queue s))(t := Popping))"
  by (auto simp: abs_queue_def fifo_def)

lemma finished_returned: "finished (pcs s t) \<Longrightarrow> returned (snd (abs_queue s) t)"
  by (cases "pcs s t") (simp_all add: abs_queue_def)

section \<open>Properties\<close>

text \<open>Under every interleaving of pushes and pops of any number of threads the queue never
  holds more elements than its capacity, and no more are taken than were pushed.\<close>

theorem queue_bounded:
  assumes "reachable (2 ^ k) d s" "1 \<le> k" "k \<le> 61" "length (hist s) < 2 ^ 62"
  shows "taken s \<le> length (hist s) \<and> length (fifo s) \<le> 2 ^ k"
proof -
  obtain r where r: "refines k s r" "ring_inv (2 ^ k) r" using reachable_ring [OF assms] by blast
  then show ?thesis using ring_fifo [OF r] ring_room [OF r(2)] ring_invD(2) [OF r(2)] by simp
qed

text \<open>C5: the lock-free queue is a linearizable bounded FIFO queue. Seen as the list of its elements and
  the calls of its threads, with their arguments and results, the fresh queue is the empty one, and
  every step of the system (a call or one access of any thread) is a step of the bounded FIFO queue
  or leaves list and calls as they are: a push appends its argument in one atomic step, a pop
  takes the first element and returns exactly that one, and a call that fails had a reason.\<close>

theorem queue_linearizable:
  assumes "reachable (2 ^ k) d s" "sys_step s s'" "1 \<le> k" "k \<le> 61" "length (hist s') < 2 ^ 62"
  shows "abs_queue (lfq_init (2 ^ k) d) = ([], \<lambda>_. Quiet) \<and>
    (abs_queue s' = abs_queue s \<or> fifo_step (2 ^ k) (abs_queue s) (abs_queue s'))"
proof -
  have "length (hist s) < 2 ^ 62" using sys_step_hist [OF assms(2)] assms(5) by simp
  then obtain r where r: "refines k s r" "ring_inv (2 ^ k) r" and small: "rtail r < 2 ^ 62"
    using reachable_ring [OF assms(1,3,4)] ring_fifo(2) by metis
  have N: "(2 :: nat) \<le> 2 ^ k" using assms(3) by (metis power_increasing power_one_right one_le_numeral)
  have "abs_queue s' = abs_queue s \<or> fifo_step (2 ^ k) (abs_queue s) (abs_queue s')"
    using assms(2)
  proof cases
    case (call_push t v)
    then show ?thesis using fifo_step.call_push [of "snd (abs_queue s)" t] finished_returned [of s t]
      by (auto simp: abs_call) (simp add: abs_queue_def fifo_def)
  next
    case (call_pop t)
    then show ?thesis using fifo_step.call_pop [of "snd (abs_queue s)" t] finished_returned [of s t]
      by (auto simp: abs_call) (simp add: abs_queue_def fifo_def)
  next
    case (access t ok)
    have r': "refines k s' (ring_step (2 ^ k) t ok r)" "ring_inv (2 ^ k) (ring_step (2 ^ k) t ok r)"
      using thread_step_refines [OF r assms(4) small] ring_step_inv [OF r(2) N] unfolding access by auto
    have "rtail (ring_step (2 ^ k) t ok r) < 2 ^ 62" using ring_fifo(2) [OF r'] assms(5) by simp
    then have "abs_queue s' = abs_ring (ring_step (2 ^ k) t ok r)" "abs_queue s = abs_ring r"
      using refines_abs [OF r'] refines_abs [OF r small] by simp_all
    then show ?thesis using ring_step_fifo [OF r(2) N, of t ok] by simp
  qed
  then show ?thesis by (simp add: abs_queue_def fifo_def lfq_init_def)
qed

text \<open>C7: a pop that is about to return delivers the element that was pushed at the position it took,
  and no other thread is about to deliver the element of that position.\<close>

theorem pop_delivers_once:
  assumes "reachable (2 ^ k) d s" "1 \<le> k" "k \<le> 61" "length (hist s) < 2 ^ 62"
    and "pcs s t = PopStore pos v"
  shows "\<exists>j < taken s. pos = of_nat j \<and> hist s ! j = v \<and>
    (\<forall>t' v'. pcs s t' = PopStore pos v' \<longrightarrow> t' = t)"
proof -
  obtain r where r: "refines k s r" "ring_inv (2 ^ k) r" using reachable_ring [OF assms(1-4)] by blast
  note q = ring_fifo [OF r]
  have small: "i < rhead r \<Longrightarrow> i < 2 ^ 63" for i using assms(4) q(2) ring_invD(2) [OF r(2)] by simp
  obtain j where j: "rpcs r t = PopStore j v" "pos = of_nat j" using refines_pc(7) [OF r(1) assms(5)] by blast
  then have p: "popping r t j" by (simp add: popping_def)
  have "t' = t" if other: "pcs s t' = PopStore pos v'" for t' v'
  proof -
    obtain i where i: "rpcs r t' = PopStore i v'" "pos = of_nat i" using refines_pc(7) [OF r(1) other] by blast
    then have pi: "popping r t' i" by (simp add: popping_def)
    have "i = j" using pos_eq [of i j] i(2) j(2) small ring_invD(5) [OF r(2) p] ring_invD(5) [OF r(2) pi] by simp
    then show ?thesis using ring_invD(6) [OF r(2) p] pi by blast
  qed
  moreover have "hist s ! j = v" using ring_invD(10) [OF r(2), of t] j(1) q(3) by simp
  ultimately show ?thesis using ring_invD(5) [OF r(2) p] q(1) j(2) by auto
qed

text \<open>C13: a push that gives up saw a queue that was full at that moment, or a pop that had taken the
  element one round behind and not yet released its node.\<close>

theorem push_fails_when_full:
  assumes "reachable (2 ^ k) d0 s" "1 \<le> k" "k \<le> 61" "length (hist s) < 2 ^ 62"
    and "pcs s t = PushSeq d pos" "pcs (thread_step t ok s) t = PushDone False"
  shows "length (fifo s) = 2 ^ k \<or>
    (\<exists>t' j. length (hist s) = j + 2 ^ k \<and> (pcs s t' = PopRead (of_nat j) \<or> (\<exists>v. pcs s t' = PopStore (of_nat j) v)))"
proof -
  obtain r where r: "refines k s r" "ring_inv (2 ^ k) r" using reachable_ring [OF assms(1-4)] by blast
  note q = ring_fifo [OF r]
  have small: "rtail r < 2 ^ 62" using assms(4) q(2) by simp
  obtain j where j: "rpcs r t = PushSeq d j" using refines_pc(1) [OF r(1) assms(5)] by blast
  have "refines k (thread_step t ok s) (ring_step (2 ^ k) t ok r)"
    by (rule thread_step_refines [OF r assms(3) small])
  then have "map_pc (\<lambda>x. x) of_nat (rpcs (ring_step (2 ^ k) t ok r) t) = (PushDone False :: ('a, u64) pc)"
    using assms(6) by (simp add: refines_def)
  then have "rseq r (j mod 2 ^ k) < j" using j by (auto simp: ring_step_def split: if_splits)
  from push_gives_up [OF r(2) _ j this] consider "rtail r - rhead r = 2 ^ k" | u i where "rtail r = i + 2 ^ k" "popping r u i" by auto
  then show ?thesis
  proof cases
    case 1
    then show ?thesis using q(4) by simp
  next
    case (2 u i)
    then have "pcs s u = PopRead (of_nat i) \<or> (\<exists>v. pcs s u = PopStore (of_nat i) v)"
      using r(1) by (auto simp: popping_def refines_def)
    then show ?thesis using 2(1) q(2) by auto
  qed
qed

text \<open>C14: a pop that gives up saw an empty queue, or a push that had reserved the position at the
  head and not yet published its element.\<close>

theorem pop_fails_when_empty:
  assumes "reachable (2 ^ k) d0 s" "1 \<le> k" "k \<le> 61" "length (hist s) < 2 ^ 62"
    and "pcs s t = PopSeq pos" "pcs (thread_step t ok s) t = PopDone None"
  shows "fifo s = [] \<or>
    (\<exists>t'. pcs s t' = PushStore (of_nat (taken s)) \<or> (\<exists>d. pcs s t' = PushWrite d (of_nat (taken s))))"
proof -
  obtain r where r: "refines k s r" "ring_inv (2 ^ k) r" using reachable_ring [OF assms(1-4)] by blast
  note q = ring_fifo [OF r]
  have small: "rtail r < 2 ^ 62" using assms(4) q(2) by simp
  obtain j where j: "rpcs r t = PopSeq j" using refines_pc(4) [OF r(1) assms(5)] by blast
  have "refines k (thread_step t ok s) (ring_step (2 ^ k) t ok r)"
    by (rule thread_step_refines [OF r assms(3) small])
  then have "map_pc (\<lambda>x. x) of_nat (rpcs (ring_step (2 ^ k) t ok r) t) = (PopDone None :: ('a, u64) pc)"
    using assms(6) by (simp add: refines_def)
  then have "rseq r (j mod 2 ^ k) < j + 1" using j by (auto simp: ring_step_def split: if_splits)
  from pop_gives_up [OF r(2) _ j this] consider "rtail r = rhead r" | u where "pushing r u (rhead r)" by auto
  then show ?thesis
  proof cases
    case 1
    then have "length (fifo s) = 0" using q(4) by simp
    then show ?thesis by simp
  next
    case (2 u)
    then have "pcs s u = PushStore (of_nat (rhead r)) \<or> (\<exists>d. pcs s u = PushWrite d (of_nat (rhead r)))"
      using r(1) by (auto simp: pushing_def refines_def)
    then show ?thesis using q(1) by auto
  qed
qed

text \<open>C10: the data of a node is never accessed by two threads at once (it is not atomic): a thread
  that is about to write the data of a node and another that is about to write or read data are at
  different nodes.\<close>

theorem node_data_race_free:
  assumes "reachable (2 ^ k) d0 s" "1 \<le> k" "k \<le> 61" "length (hist s) < 2 ^ 62"
    and "t \<noteq> t'" "pcs s t = PushWrite d pos" "pcs s t' = PushWrite d' pos' \<or> pcs s t' = PopRead pos'"
  shows "node_index (queue s) pos \<noteq> node_index (queue s) pos'"
proof -
  obtain r where r: "refines k s r" "ring_inv (2 ^ k) r" using reachable_ring [OF assms(1-4)] by blast
  note q = ring_fifo [OF r]
  obtain j where j: "pushing r t j" "pos = of_nat j"
    using refines_pc(3) [OF r(1) assms(6)] by (auto simp: pushing_def)
  have wj: "window (2 ^ k) r j" "rhead r \<le> j" using ring_invD(3) [OF r(2) j(1)] by auto
  obtain i where i: "pushing r t' i \<or> popping r t' i" "pos' = of_nat i"
    using assms(7) refines_pc(3,6) [OF r(1), of t'] by (auto simp: pushing_def popping_def)
  have wi: "window (2 ^ k) r i" using i(1) ring_invD(3,5) [OF r(2)] by blast
  have "i \<noteq> j"
    using i(1) ring_invD(4) [OF r(2) j(1), of t'] ring_invD(5) [OF r(2), of t' i] wj(2) assms(5) by auto
  then have "j mod 2 ^ k \<noteq> i mod 2 ^ k" using window_inj [OF wj(1) wi] by auto
  moreover have "j < 2 ^ 63" "i < 2 ^ 63" using wj(1) wi assms(4) q(2) by (auto simp: window_def)
  ultimately show ?thesis using refines_access(1) [OF r(1) _ assms(3)] i(2) j(2) by simp
qed

section \<open>Schedules\<close>

datatype 'a action = CallPush nat 'a | CallPop nat | Access nat bool

fun perform :: "'a action \<Rightarrow> 'a lfq_sys \<Rightarrow> 'a lfq_sys" where
  "perform (CallPush t d) s = (if finished (pcs s t) then s\<lparr>pcs := (pcs s)(t := PushLoad d)\<rparr> else s)"
| "perform (CallPop t) s = (if finished (pcs s t) then s\<lparr>pcs := (pcs s)(t := PopLoad)\<rparr> else s)"
| "perform (Access t ok) s = thread_step t ok s"

lemma schedule_reachable: "reachable cap d (fold perform as (lfq_init cap d))"
proof (induction as rule: rev_induct)
  case Nil
  show ?case by (simp add: reachable.start)
next
  case (snoc a as)
  then show ?case
    by (cases a) (auto intro: reachable.step sys_step.intros)
qed

definition sched_deliver :: "nat action list" where
  "sched_deliver = [CallPush 0 7, Access 0 True, Access 0 True, Access 0 True, Access 0 True, Access 0 True,
     CallPop 1, Access 1 True, Access 1 True, Access 1 True, Access 1 True]"

lemmas schedule_simps = thread_step_def lfq_init_def lfq_new_def seq_of_def data_of_def node_index_def
  set_seq_def set_data_def ghost_hist_def ghost_taken_def fifo_def

lemma sched_deliver_state:
  "pcs (fold perform sched_deliver (lfq_init (2 ^ 1) 0)) 1 = PopStore 0 7"
  "length (hist (fold perform sched_deliver (lfq_init (2 ^ 1) 0))) < 2 ^ 62"
  by (simp_all add: sched_deliver_def schedule_simps)

theorem pop_delivers_once_witness:
  "\<exists>j < taken (fold perform sched_deliver (lfq_init (2 ^ 1) 0)). (0 :: u64) = of_nat j \<and>
     hist (fold perform sched_deliver (lfq_init (2 ^ 1) 0)) ! j = 7"
  using pop_delivers_once [OF schedule_reachable _ _ sched_deliver_state(2,1)] by auto

theorem queue_bounded_example:
  "taken (fold perform sched_deliver (lfq_init (2 ^ 1) 0)) \<le> length (hist (fold perform sched_deliver (lfq_init (2 ^ 1) 0))) \<and>
   length (fifo (fold perform sched_deliver (lfq_init (2 ^ 1) 0))) \<le> 2 ^ 1"
  using queue_bounded [OF schedule_reachable _ _ sched_deliver_state(2)] by simp

text \<open>Thread 1 is about to win its compare-and-exchange: it takes the 7 that thread 0 has pushed.\<close>

definition sched_take :: "nat action list" where
  "sched_take = [CallPush 0 7, Access 0 True, Access 0 True, Access 0 True, Access 0 True, Access 0 True,
     CallPop 1, Access 1 True, Access 1 True]"

lemma sched_take_state:
  assumes "s = fold perform sched_take (lfq_init (2 ^ 1) 0)"
  shows "abs_queue s = ([7], (\<lambda>_. Quiet)(0 := Push_Returned True, 1 := Popping))"
    "abs_queue (thread_step 1 True s) = ([], (\<lambda>_. Quiet)(0 := Push_Returned True, 1 := Popped 7))"
    "length (hist (thread_step 1 True s)) < 2 ^ 62"
  unfolding assms by (simp_all add: sched_take_def schedule_simps abs_queue_def fun_eq_iff)

theorem queue_linearizable_witness:
  "fifo_step (2 ^ 1) ([7 :: nat], (\<lambda>_. Quiet)(0 := Push_Returned True, 1 := Popping))
     ([], (\<lambda>_. Quiet)(0 := Push_Returned True, 1 := Popped 7))"
proof -
  define s where "s = fold perform sched_take (lfq_init (2 ^ 1) 0)"
  have "reachable (2 ^ 1) 0 s" unfolding s_def by (rule schedule_reachable)
  from queue_linearizable [OF this access [of s 1 True] order_refl _ sched_take_state(3) [OF s_def]]
  show ?thesis unfolding sched_take_state [OF s_def] by simp
qed

text \<open>A ring of two nodes with two elements: the third push gives up.\<close>

definition sched_full :: "nat action list" where
  "sched_full = [CallPush 0 7, Access 0 True, Access 0 True, Access 0 True, Access 0 True, Access 0 True,
     CallPush 0 8, Access 0 True, Access 0 True, Access 0 True, Access 0 True, Access 0 True,
     CallPush 0 9, Access 0 True]"

lemma sched_full_state:
  "length (hist (fold perform sched_full (lfq_init (2 ^ 1) 0))) < 2 ^ 62"
  "pcs (fold perform sched_full (lfq_init (2 ^ 1) 0)) 0 = PushSeq 9 2"
  "pcs (thread_step 0 True (fold perform sched_full (lfq_init (2 ^ 1) 0))) 0 = PushDone False"
  by (simp_all add: sched_full_def schedule_simps)

theorem push_fails_when_full_witness:
  "length (fifo (fold perform sched_full (lfq_init (2 ^ 1) 0))) = 2 ^ 1"
proof -
  have "pcs (fold perform sched_full (lfq_init (2 ^ 1) 0)) t \<in> {Idle, PushSeq 9 2}" for t
    by (simp add: sched_full_def schedule_simps)
  then have "\<not> (pcs (fold perform sched_full (lfq_init (2 ^ 1) 0)) t = PopRead p \<or>
      (\<exists>v. pcs (fold perform sched_full (lfq_init (2 ^ 1) 0)) t = PopStore p v))" for t p
    by (metis insert_iff empty_iff pc.distinct)
  moreover have "(1 :: nat) \<le> 61" by simp
  ultimately show ?thesis
    using push_fails_when_full [OF schedule_reachable order_refl _ sched_full_state] by blast
qed

definition sched_empty :: "nat action list" where
  "sched_empty = [CallPop 0, Access 0 True]"

lemma sched_empty_state:
  "length (hist (fold perform sched_empty (lfq_init (2 ^ 1) 0))) < 2 ^ 62"
  "pcs (fold perform sched_empty (lfq_init (2 ^ 1) 0)) 0 = PopSeq 0"
  "pcs (thread_step 0 True (fold perform sched_empty (lfq_init (2 ^ 1) 0))) 0 = PopDone None"
  by (simp_all add: sched_empty_def schedule_simps)

theorem pop_fails_when_empty_witness:
  "fifo (fold perform sched_empty (lfq_init (2 ^ 1) 0)) = [] \<or>
    (\<exists>t'. pcs (fold perform sched_empty (lfq_init (2 ^ 1) 0)) t' =
        PushStore (of_nat (taken (fold perform sched_empty (lfq_init (2 ^ 1) 0)))) \<or>
      (\<exists>d. pcs (fold perform sched_empty (lfq_init (2 ^ 1) 0)) t' =
        PushWrite d (of_nat (taken (fold perform sched_empty (lfq_init (2 ^ 1) 0))))))"
  using pop_fails_when_empty [OF schedule_reachable _ _ sched_empty_state] by simp

definition sched_race :: "nat action list" where
  "sched_race = [CallPush 0 7, Access 0 True, Access 0 True, Access 0 True,
     CallPush 1 8, Access 1 True, Access 1 True, Access 1 True]"

lemma sched_race_state:
  "length (hist (fold perform sched_race (lfq_init (2 ^ 1) 0))) < 2 ^ 62"
  "pcs (fold perform sched_race (lfq_init (2 ^ 1) 0)) 0 = PushWrite 7 0"
  "pcs (fold perform sched_race (lfq_init (2 ^ 1) 0)) 1 = PushWrite 8 1"
  by (simp_all add: sched_race_def schedule_simps)

theorem node_data_race_free_witness:
  "node_index (queue (fold perform sched_race (lfq_init (2 ^ 1) 0))) 0 \<noteq>
   node_index (queue (fold perform sched_race (lfq_init (2 ^ 1) 0))) 1"
  using node_data_race_free [OF schedule_reachable _ _ sched_race_state(1), of 0 1 7 0 8 1] sched_race_state(2,3)
  by simp

end
