(* ===== verification/Queue_Calls.thy ===== *)
theory Queue_Calls
  imports Queue_Refinement
begin

text \<open>
  Whole calls of \<^verbatim>\<open>push\<close> and \<^verbatim>\<open>pop\<close>, the way the threads of the capture engine see the queue, and
  the contract of a bounded FIFO queue that they rely on. The contract is proved for the calls of
  the lock-free queue; a call takes at most five accesses when no compare-and-exchange fails, so
  five is enough fuel.
\<close>

section \<open>The contract\<close>

locale bounded_fifo =
  fixes push :: "'q \<Rightarrow> 'a \<Rightarrow> ('q \<times> bool) option"
    and pop :: "'q \<Rightarrow> ('q \<times> 'a option) option"
    and holds :: "nat \<Rightarrow> 'q \<Rightarrow> 'a list \<Rightarrow> bool"
    and cap limit :: nat
  assumes push_room: "holds n q xs \<Longrightarrow> n < limit \<Longrightarrow> length xs < cap \<Longrightarrow>
      \<exists>q'. push q x = Some (q', True) \<and> holds (Suc n) q' (xs @ [x])"
    and push_full: "holds n q xs \<Longrightarrow> n < limit \<Longrightarrow> cap \<le> length xs \<Longrightarrow> push q x = Some (q, False)"
    and pop_first: "holds n q (x # xs) \<Longrightarrow> n < limit \<Longrightarrow> \<exists>q'. pop q = Some (q', Some x) \<and> holds n q' xs"
    and pop_empty: "holds n q [] \<Longrightarrow> n < limit \<Longrightarrow> pop q = Some (q, None)"
    and at_most: "holds n q xs \<Longrightarrow> length xs \<le> cap"
begin

lemma push_returns:
  assumes "holds n q xs" "n < limit"
  obtains (pushed) q' where "push q x = Some (q', True)" "holds (Suc n) q' (xs @ [x])" "length xs < cap"
  | (full) "push q x = Some (q, False)" "length xs = cap"
  using push_room [OF assms, of x] push_full [OF assms, of x] at_most [OF assms(1)]
  by (metis not_le le_antisym)

lemma pop_returns:
  assumes "holds n q xs" "n < limit"
  obtains (popped) x xs' q' where "xs = x # xs'" "pop q = Some (q', Some x)" "holds n q' xs'"
  | (empty) "xs = []" "pop q = Some (q, None)"
proof (cases xs)
  case Nil
  then show ?thesis using empty pop_empty assms by simp
next
  case (Cons x xs')
  then obtain q' where "pop q = Some (q', Some x)" "holds n q' xs'" using pop_first assms by blast
  then show ?thesis using popped Cons by blast
qed

text \<open>What went in comes out in the same order.\<close>

lemma push_then_pop:
  assumes "holds n q []" "Suc n < limit" "0 < cap"
  shows "\<exists>q' q''. push q x = Some (q', True) \<and> pop q' = Some (q'', Some x) \<and> holds (Suc n) q'' []"
proof -
  obtain q' where q': "push q x = Some (q', True)" "holds (Suc n) q' [x]"
    using push_room [OF assms(1), of x] assms(2,3) by auto
  then show ?thesis using pop_first [OF q'(2) assms(2)] by blast
qed

end

section \<open>Calls of the lock-free queue\<close>

definition lfq_push :: "'a lfq \<Rightarrow> 'a \<Rightarrow> ('a lfq \<times> bool) option" where
  "lfq_push q d = (case lfq_run (replicate 5 True) (PushLoad d, q) of
     Some (PushDone b, q') \<Rightarrow> Some (q', b) | _ \<Rightarrow> None)"

definition lfq_pop :: "'a lfq \<Rightarrow> ('a lfq \<times> 'a option) option" where
  "lfq_pop q = (case lfq_run (replicate 5 True) (PopLoad, q) of
     Some (PopDone r, q') \<Rightarrow> Some (q', r) | _ \<Rightarrow> None)"

text \<open>A queue that no thread is using holds the list \<^term>\<open>xs\<close>, after at most \<^term>\<open>n\<close> pushes.\<close>

definition quiet :: "nat \<Rightarrow> 'a lfq \<Rightarrow> 'a ring \<Rightarrow> bool" where
  "quiet k q r \<longleftrightarrow> ring_inv (2 ^ k) r \<and> (\<forall>t. rpcs r t = Idle) \<and>
     refines k \<lparr>queue = q, pcs = (\<lambda>_. Idle), hist = rhist r, taken = rhead r\<rparr> r"

definition lfq_holds :: "nat \<Rightarrow> nat \<Rightarrow> 'a lfq \<Rightarrow> 'a list \<Rightarrow> bool" where
  "lfq_holds k n q xs \<longleftrightarrow> (\<exists>r. quiet k q r \<and> rtail r \<le> n \<and> drop (rhead r) (rhist r) = xs)"

lemma lfq_run_step: "\<not> finished p \<Longrightarrow> lfq_run (ok # oks) (p, q) = lfq_run oks (lfq_step ok (p, q))"
  by simp

declare lfq_run.simps [simp del]

lemma thread_step_call:
  "pcs (thread_step t ok s) t = fst (lfq_step ok (pcs s t, queue s))"
  "queue (thread_step t ok s) = snd (lfq_step ok (pcs s t, queue s))"
  by (simp_all add: thread_step_def split: prod.splits)

lemma lfq_step_finished: "finished p \<Longrightarrow> lfq_step ok (p, q) = (p, q)"
  by (cases p) auto

lemma run_thread:
  "finished (pcs (fold (thread_step t) oks s) t) \<Longrightarrow>
   lfq_run oks (pcs s t, queue s) = Some (pcs (fold (thread_step t) oks s) t, queue (fold (thread_step t) oks s))"
proof (induction oks arbitrary: s)
  case Nil
  then show ?case by (simp add: lfq_run.simps)
next
  case (Cons ok oks)
  show ?case
  proof (cases "finished (pcs s t)")
    case True
    have "pcs (fold (thread_step t) xs s) t = pcs s t \<and> queue (fold (thread_step t) xs s) = queue s" for xs
      using True by (induction xs arbitrary: s) (auto simp: thread_step_call lfq_step_finished)
    from this [of "ok # oks"] show ?thesis using True by (simp add: lfq_run.simps)
  next
    case False
    then show ?thesis using Cons.IH [of "thread_step t ok s"] Cons.prems
      by (simp add: lfq_run_step thread_step_call)
  qed
qed

lemma fold_refines:
  assumes "refines k s r" "ring_inv (2 ^ k) r" "1 \<le> k" "k \<le> 61"
    and "\<And>m. m \<le> length oks \<Longrightarrow> rtail (fold (ring_step (2 ^ k) t) (take m oks) r) < 2 ^ 62"
  shows "refines k (fold (thread_step t) oks s) (fold (ring_step (2 ^ k) t) oks r) \<and>
    ring_inv (2 ^ k) (fold (ring_step (2 ^ k) t) oks r)"
  using assms
proof (induction oks arbitrary: s r)
  case Nil
  then show ?case by simp
next
  case (Cons ok oks)
  have N: "(2 :: nat) \<le> 2 ^ k" using Cons.prems(3) by (metis power_increasing power_one_right one_le_numeral)
  have small: "rtail r < 2 ^ 62" using Cons.prems(5) [of 0] by simp
  have "rtail (fold (ring_step (2 ^ k) t) (take m oks) (ring_step (2 ^ k) t ok r)) < 2 ^ 62" if "m \<le> length oks" for m
    using Cons.prems(5) [of "Suc m"] that by simp
  then show ?case
    using Cons.IH [OF thread_step_refines [OF Cons.prems(1,2,4) small] ring_step_inv [OF Cons.prems(2) N] Cons.prems(3,4)]
    by simp
qed

section \<open>Calls on a quiet queue\<close>

lemma goto_goto [simp]: "goto t p (goto t p' s) = goto t p s"
  by (simp add: goto_def)

lemma quiet_slots:
  assumes "quiet k q r" "1 \<le> k"
  shows "rtail r < rhead r + 2 ^ k \<Longrightarrow> rseq r (rtail r mod 2 ^ k) = rtail r"
    "rtail r = rhead r + 2 ^ k \<Longrightarrow> rseq r (rtail r mod 2 ^ k) < rtail r"
    "rhead r < rtail r \<Longrightarrow> rseq r (rhead r mod 2 ^ k) = rhead r + 1 \<and> rdata r (rhead r mod 2 ^ k) = rhist r ! rhead r"
    "rhead r = rtail r \<Longrightarrow> rseq r (rhead r mod 2 ^ k) < rhead r + 1"
proof -
  have inv: "ring_inv (2 ^ k) r" and idle: "\<And>t j. \<not> pushing r t j" "\<And>t j. \<not> popping r t j"
    using assms(1) by (auto simp: quiet_def pushing_def popping_def)
  have N: "(2 :: nat) \<le> 2 ^ k" using assms(2) by (metis power_increasing power_one_right one_le_numeral)
  show free: "rseq r (rtail r mod 2 ^ k) = rtail r" if "rtail r < rhead r + 2 ^ k"
    using next_slot [OF inv] that idle by auto
  show head: "rseq r (rhead r mod 2 ^ k) = rhead r + 1 \<and> rdata r (rhead r mod 2 ^ k) = rhist r ! rhead r"
    if "rhead r < rtail r" using ring_invD(7) [OF inv, of "rhead r"] that idle by auto
  show "rseq r (rtail r mod 2 ^ k) < rtail r" if full: "rtail r = rhead r + 2 ^ k"
  proof -
    have "rseq r (rhead r mod 2 ^ k) = rhead r + 1" using head full by simp
    moreover have "rtail r mod 2 ^ k = rhead r mod 2 ^ k" by (simp add: full)
    ultimately show ?thesis using N by (simp add: full)
  qed
  show "rseq r (rhead r mod 2 ^ k) < rhead r + 1" if "rhead r = rtail r" using free that by simp
qed

lemma quiet_call:
  assumes "quiet k q r" "\<not> claims p"
  shows "refines k \<lparr>queue = q, pcs = (\<lambda>_. Idle)(0 := map_pc (\<lambda>x. x) of_nat p), hist = rhist r, taken = rhead r\<rparr> (goto 0 p r)"
    and "local_ok (2 ^ k) r p \<Longrightarrow> ring_inv (2 ^ k) (goto 0 p r)"
  using assms goto_unclaimed [of "2 ^ k" r 0 p] by (auto simp: quiet_def refines_def)

text \<open>The accesses of a call, on the ring. A spurious failure leads back to the same point.\<close>

lemma ring_push_accesses:
  assumes "rseq r (rtail r mod N) = rtail r"
  shows "ring_step N 0 a (goto 0 (PushLoad d) r) = goto 0 (PushSeq d (rtail r)) r"
    "ring_step N 0 a (goto 0 (PushSeq d (rtail r)) r) = goto 0 (PushCas d (rtail r)) r"
    "ring_step N 0 False (goto 0 (PushCas d (rtail r)) r) = goto 0 (PushSeq d (rtail r)) r"
    "ring_step N 0 True (goto 0 (PushCas d (rtail r)) r) =
       goto 0 (PushWrite d (rtail r)) (r\<lparr>rtail := rtail r + 1, rhist := rhist r @ [d]\<rparr>)"
  using assms by (simp_all add: ring_step_def goto_def)

lemma ring_push_spurious:
  assumes "rseq r (rtail r mod N) = rtail r"
  shows "fold (ring_step N 0) (concat (replicate m [False, c])) (goto 0 (PushCas d (rtail r)) r) =
    goto 0 (PushCas d (rtail r)) r"
  by (induction m) (simp_all add: ring_push_accesses [OF assms])

lemma ring_push_call:
  assumes "rseq r (rtail r mod N) = rtail r"
  shows "fold (ring_step N 0) ([a, b] @ concat (replicate m [False, c]) @ [True, e, f]) (goto 0 (PushLoad d) r) =
    goto 0 (PushDone True) (r\<lparr>rtail := rtail r + 1, rhist := rhist r @ [d],
      rdata := (rdata r)(rtail r mod N := d), rseq := (rseq r)(rtail r mod N := rtail r + 1)\<rparr>)"
  by (simp add: ring_push_accesses [OF assms] ring_push_spurious [OF assms])
     (simp add: ring_step_def goto_def)

lemma ring_step_tail: "rtail (ring_step N t ok s) \<le> rtail s + 1" "rtail s \<le> rtail (ring_step N t ok s)"
  by (auto simp: ring_step_def goto_def split: pc.splits)

lemma fold_ring_tail: "rtail s \<le> rtail (fold (ring_step N t) oks s)"
  by (induction oks arbitrary: s) (auto intro: order_trans [OF ring_step_tail(2)])

lemma fold_ring_tail_take: "rtail (fold (ring_step N t) (take m oks) s) \<le> rtail (fold (ring_step N t) oks s)"
  using fold_ring_tail [of "fold (ring_step N t) (take m oks) s" N t "drop m oks"]
  by (metis append_take_drop_id fold_append comp_apply)

text \<open>A call that runs alone and returns leaves a quiet queue.\<close>

lemma quiet_run:
  assumes "quiet k q r" "1 \<le> k" "k \<le> 61" "\<not> claims p" "local_ok (2 ^ k) r p"
    and run: "fold (ring_step (2 ^ k) 0) oks (goto 0 p r) = goto 0 p' r'" "finished p'"
    and "rtail r' < 2 ^ 62" "rpcs r' = rpcs r"
  shows "\<exists>q'. lfq_run oks (map_pc (\<lambda>x. x) of_nat p, q) = Some (map_pc (\<lambda>x. x) of_nat p', q') \<and> quiet k q' r'"
proof -
  define s where "s = \<lparr>queue = q, pcs = (\<lambda>_. Idle)(0 := map_pc (\<lambda>x. x) of_nat p), hist = rhist r, taken = rhead r\<rparr>"
  have "rtail (fold (ring_step (2 ^ k) 0) (take m oks) (goto 0 p r)) < 2 ^ 62" for m
    using fold_ring_tail_take [of "2 ^ k" 0 m oks "goto 0 p r"] assms(8) unfolding run(1) by simp
  then have ref: "refines k (fold (thread_step 0) oks s) (goto 0 p' r')" "ring_inv (2 ^ k) (goto 0 p' r')"
    using fold_refines [OF quiet_call(1) [OF assms(1,4)] quiet_call(2) [OF assms(1,4,5)] assms(2,3), of oks 0]
    unfolding run(1) s_def by blast+
  have pc: "pcs (fold (thread_step 0) oks s) 0 = map_pc (\<lambda>x. x) of_nat p'" using ref(1) by (simp add: refines_def)
  then have "lfq_run oks (pcs s 0, queue s) = Some (map_pc (\<lambda>x. x) of_nat p', queue (fold (thread_step 0) oks s))"
    using run_thread [of 0 oks s] run(2) by (simp add: finished_map)
  moreover have idle: "\<And>t. rpcs r' t = Idle" using assms(1,9) by (simp add: quiet_def)
  have "ring_inv (2 ^ k) (goto 0 Idle (goto 0 p' r'))"
    by (rule goto_unclaimed [OF ref(2)]) (use run(2) in \<open>simp_all add: finished_unclaimed\<close>)
  moreover have "goto 0 Idle (goto 0 p' r') = r'" using idle by (simp add: goto_def fun_upd_idem)
  ultimately show ?thesis using ref(1) idle unfolding s_def
    by (auto simp: quiet_def refines_def)
qed

lemma quiet_access:
  assumes "quiet k q r" "j < 2 ^ 63" "k \<le> 61"
  shows "seq_of q (of_nat j) = of_nat (rseq r (j mod 2 ^ k))" "enqueue_pos q = of_nat (rtail r)"
    "dequeue_pos q = of_nat (rhead r)"
proof -
  have r: "refines k \<lparr>queue = q, pcs = (\<lambda>_. Idle), hist = rhist r, taken = rhead r\<rparr> r"
    using assms(1) by (simp add: quiet_def)
  show "seq_of q (of_nat j) = of_nat (rseq r (j mod 2 ^ k))" using refines_access(2) [OF r assms(2,3)] by simp
  show "enqueue_pos q = of_nat (rtail r)" "dequeue_pos q = of_nat (rhead r)" using r by (simp_all add: refines_def)
qed

lemma quiet_push:
  assumes "quiet k q r" "1 \<le> k" "k \<le> 61" "rtail r + 1 < 2 ^ 62" "rtail r < rhead r + 2 ^ k"
  shows "\<exists>q' r'. lfq_run ([a, b] @ concat (replicate m [False, c]) @ [True, e, f]) (PushLoad x, q) =
      Some (PushDone True, q') \<and> quiet k q' r' \<and> rtail r' = rtail r + 1 \<and> rhead r' = rhead r \<and>
      rhist r' = rhist r @ [x]"
proof -
  define r' where "r' = r\<lparr>rtail := rtail r + 1, rhist := rhist r @ [x],
      rdata := (rdata r)(rtail r mod 2 ^ k := x), rseq := (rseq r)(rtail r mod 2 ^ k := rtail r + 1)\<rparr>"
  have "rseq r (rtail r mod 2 ^ k) = rtail r" using quiet_slots(1) [OF assms(1,2,5)] .
  note call = ring_push_call [OF this, of a b m c e f x, folded r'_def]
  have f: "rtail r' = rtail r + 1" "rhead r' = rhead r" "rhist r' = rhist r @ [x]" "rpcs r' = rpcs r"
    by (simp_all add: r'_def)
  show ?thesis
    using quiet_run [OF assms(1-3) _ _ call] assms(4) by (fastforce simp: f)
qed

lemma quiet_push_full:
  assumes "quiet k q r" "1 \<le> k" "k \<le> 61" "rtail r < 2 ^ 62" "rtail r = rhead r + 2 ^ k"
  shows "\<exists>q'. lfq_run (a # b # oks) (PushLoad x, q) = Some (PushDone False, q') \<and> q' = q"
proof -
  have lt: "rseq r (rtail r mod 2 ^ k) < rtail r" using quiet_slots(2) [OF assms(1,2,5)] .
  have pos: "rtail r < 2 ^ 63" using assms(4) by simp
  have sq: "rseq r (rtail r mod 2 ^ k) < 2 ^ 63" using lt assms(4) by simp
  have q: "enqueue_pos q = of_nat (rtail r)" "seq_of q (of_nat (rtail r)) = of_nat (rseq r (rtail r mod 2 ^ k))"
    using quiet_access [OF assms(1) pos assms(3)] by simp_all
  show ?thesis using lt pos sq q by (simp add: lfq_run.simps sint_pos Let_def)
qed

lemma quiet_pop:
  assumes "quiet k q r" "1 \<le> k" "k \<le> 61" "rtail r < 2 ^ 62" "rhead r < rtail r"
  shows "\<exists>q' r'. lfq_run ([a, b] @ concat (replicate m [False, c]) @ [True, e, f]) (PopLoad, q) =
      Some (PopDone (Some (rhist r ! rhead r)), q') \<and> quiet k q' r' \<and> rtail r' = rtail r \<and>
      rhead r' = rhead r + 1 \<and> rhist r' = rhist r"
proof -
  define r' where "r' = r\<lparr>rhead := rhead r + 1, rseq := (rseq r)(rhead r mod 2 ^ k := rhead r + 2 ^ k)\<rparr>"
  have h: "rseq r (rhead r mod 2 ^ k) = rhead r + 1" "rdata r (rhead r mod 2 ^ k) = rhist r ! rhead r"
    using quiet_slots(3) [OF assms(1,2,5)] by auto
  have steps: "ring_step (2 ^ k) 0 u (goto 0 PopLoad r) = goto 0 (PopSeq (rhead r)) r"
    "ring_step (2 ^ k) 0 u (goto 0 (PopSeq (rhead r)) r) = goto 0 (PopCas (rhead r)) r"
    "ring_step (2 ^ k) 0 False (goto 0 (PopCas (rhead r)) r) = goto 0 (PopSeq (rhead r)) r"
    "ring_step (2 ^ k) 0 True (goto 0 (PopCas (rhead r)) r) = goto 0 (PopRead (rhead r)) (r\<lparr>rhead := rhead r + 1\<rparr>)" for u
    using h by (simp_all add: ring_step_def goto_def)
  have "fold (ring_step (2 ^ k) 0) (concat (replicate m [False, c])) (goto 0 (PopCas (rhead r)) r) =
      goto 0 (PopCas (rhead r)) r"
    by (induction m) (simp_all add: steps)
  then have call: "fold (ring_step (2 ^ k) 0) ([a, b] @ concat (replicate m [False, c]) @ [True, e, f]) (goto 0 PopLoad r) =
      goto 0 (PopDone (Some (rhist r ! rhead r))) r'"
    by (simp add: steps) (simp add: ring_step_def goto_def r'_def h)
  have f: "rtail r' = rtail r" "rhead r' = rhead r + 1" "rhist r' = rhist r" "rpcs r' = rpcs r"
    by (simp_all add: r'_def)
  show ?thesis
    using quiet_run [OF assms(1-3) _ _ call] assms(4) by (fastforce simp: f)
qed

lemma quiet_pop_empty:
  assumes "quiet k q r" "1 \<le> k" "k \<le> 61" "rtail r < 2 ^ 62" "rhead r = rtail r"
  shows "\<exists>q'. lfq_run (a # b # oks) (PopLoad, q) = Some (PopDone None, q') \<and> q' = q"
proof -
  have lt: "rseq r (rhead r mod 2 ^ k) < rhead r + 1" using quiet_slots(4) [OF assms(1,2,5)] .
  have pos: "rhead r < 2 ^ 63" "rhead r + 1 < 2 ^ 63" using assms(4,5) by simp_all
  have sq: "rseq r (rhead r mod 2 ^ k) < 2 ^ 63" using lt pos by simp
  have q: "dequeue_pos q = of_nat (rhead r)" "seq_of q (of_nat (rhead r)) = of_nat (rseq r (rhead r mod 2 ^ k))"
    using quiet_access [OF assms(1) pos(1) assms(3)] by simp_all
  have next1: "sint (of_nat (rhead r) + 1 :: u64) = int (rhead r) + 1" using sint_pos [OF pos(2)] by (simp add: add.commute)
  show ?thesis using lt sq q next1 by (simp add: lfq_run.simps sint_pos Let_def)
qed

lemma five_accesses: "replicate 5 True = [True, True] @ concat (replicate 0 [False, True]) @ [True, True, True]"
  by (simp add: numeral_eq_Suc)

lemma five_list: "replicate 5 True = True # True # [True, True, True]"
  by (simp add: numeral_eq_Suc)

lemma lfq_holdsE:
  assumes "lfq_holds k n q xs"
  obtains r where "quiet k q r" "rtail r \<le> n" "xs = drop (rhead r) (rhist r)" "length xs = rtail r - rhead r"
    "rhead r \<le> rtail r" "rtail r \<le> rhead r + 2 ^ k"
proof -
  obtain r where r: "quiet k q r" "rtail r \<le> n" "drop (rhead r) (rhist r) = xs" using assms by (auto simp: lfq_holds_def)
  then have inv: "ring_inv (2 ^ k) r" by (simp add: quiet_def)
  show ?thesis using that [OF r(1,2) r(3) [symmetric]] ring_invD(1,2) [OF inv] ring_room [OF inv] r(3) by auto
qed

text \<open>The calls of the lock-free queue fulfil the contract.\<close>

lemma lfq_contract:
  assumes "1 \<le> k" "k \<le> 61"
  shows "bounded_fifo lfq_push lfq_pop (lfq_holds k) (2 ^ k) (2 ^ 62 - 1)"
proof (unfold_locales, goal_cases)
  case (1 n q xs x)
  then obtain r where r: "quiet k q r" "rtail r \<le> n" "xs = drop (rhead r) (rhist r)" "length xs = rtail r - rhead r"
    "rhead r \<le> rtail r" by (elim lfq_holdsE)
  then have lt: "rtail r + 1 < 2 ^ 62" "rtail r < rhead r + 2 ^ k" using 1 by linarith+
  obtain q' r' where q': "lfq_run (replicate 5 True) (PushLoad x, q) = Some (PushDone True, q')" "quiet k q' r'"
      "rtail r' = rtail r + 1" "rhead r' = rhead r" "rhist r' = rhist r @ [x]"
    using quiet_push [OF r(1) assms lt, of True True 0 True True True x] unfolding five_accesses by blast
  have "rhead r \<le> length (rhist r)" using r(1,5) ring_invD(1) [of "2 ^ k" r] by (simp add: quiet_def)
  then have "lfq_holds k (Suc n) q' (xs @ [x])" unfolding lfq_holds_def using q' r by (intro exI [of _ r']) simp
  then show ?case using q'(1) by (simp add: lfq_push_def)
next
  case (2 n q xs x)
  then obtain r where r: "quiet k q r" "rtail r \<le> n" "length xs = rtail r - rhead r" "rhead r \<le> rtail r"
    "rtail r \<le> rhead r + 2 ^ k" by (elim lfq_holdsE)
  then have "rtail r < 2 ^ 62" "rtail r = rhead r + 2 ^ k" using 2 by linarith+
  then show ?case using quiet_push_full [OF r(1) assms, of True True "[True, True, True]" x]
    unfolding lfq_push_def five_list by auto
next
  case (3 n q x xs)
  then obtain r where r: "quiet k q r" "rtail r \<le> n" "x # xs = drop (rhead r) (rhist r)" "rhead r \<le> rtail r"
    "length (x # xs) = rtail r - rhead r" by (elim lfq_holdsE)
  have "0 < rtail r - rhead r" unfolding r(5) [symmetric] by simp
  then have lt: "rtail r < 2 ^ 62" "rhead r < rtail r" using 3(2) r(2) by linarith+
  have x: "x = rhist r ! rhead r" "xs = drop (rhead r + 1) (rhist r)"
    using nth_via_drop [OF r(3) [symmetric]] arg_cong [OF r(3), of tl] by (simp_all add: drop_Suc tl_drop)
  obtain q' r' where q': "lfq_run (replicate 5 True) (PopLoad, q) = Some (PopDone (Some x), q')" "quiet k q' r'"
      "rtail r' = rtail r" "rhead r' = rhead r + 1" "rhist r' = rhist r"
    using quiet_pop [OF r(1) assms lt, of True True 0 True True True] unfolding five_accesses x(1) by blast
  then have "lfq_holds k n q' xs" unfolding lfq_holds_def using r(2) x(2) by (intro exI [of _ r']) simp
  then show ?case using q'(1) by (simp add: lfq_pop_def)
next
  case (4 n q)
  then obtain r where r: "quiet k q r" "rtail r \<le> n" "rtail r - rhead r = 0" "rhead r \<le> rtail r"
    by (elim lfq_holdsE) auto
  then have "rtail r < 2 ^ 62" "rhead r = rtail r" using 4 by auto
  then show ?case using quiet_pop_empty [OF r(1) assms, of True True "[True, True, True]"]
    unfolding lfq_pop_def five_list by auto
next
  case (5 n q xs)
  then show ?case by (elim lfq_holdsE) simp
qed

text \<open>The two queues of a \<^verbatim>\<open>CaptureContext\<close> have 8192 nodes.\<close>

interpretation lfq: bounded_fifo lfq_push lfq_pop "lfq_holds 13" 8192 "2 ^ 62 - 1"
  using lfq_contract [of 13] by simp

lemma lfq_new_holds: "lfq_holds k 0 (lfq_new (2 ^ k) d) []"
proof -
  have "quiet k (lfq_new (2 ^ k) d) (ring_init d)"
    unfolding quiet_def using ring_init_inv init_refines [of k d]
    by (simp add: lfq_init_def) (simp add: ring_init_def)
  then show ?thesis unfolding lfq_holds_def by (intro exI [of _ "ring_init d"]) (simp add: ring_init_def)
qed

section \<open>A pop that is left alone\<close>

text \<open>A thread inside a call of \<^verbatim>\<open>pop\<close>, at whatever point the others left it, returns once no other
  thread is inside a call; it returns nothing only from an empty queue.\<close>

fun in_pop :: "('a, 'p) pc \<Rightarrow> bool" where
  "in_pop PopLoad = True"
| "in_pop (PopSeq pos) = True"
| "in_pop (PopCas pos) = True"
| "in_pop (PopRead pos) = True"
| "in_pop (PopStore pos v) = True"
| "in_pop _ = False"

definition pop_returns :: "nat \<Rightarrow> nat \<Rightarrow> ('a, nat) pc \<Rightarrow> 'a ring \<Rightarrow> bool" where
  "pop_returns N t p r \<longleftrightarrow> (\<exists>n p' r'. fold (ring_step N t) (replicate n True) (goto t p r) = goto t p' r' \<and> finished p' \<and>
     rhist r' = rhist r \<and> rtail r' = rtail r \<and> (p' = PopDone None \<longrightarrow> rhead r' = rtail r'))"

lemma pop_returns_step:
  assumes "ring_step N t True (goto t p r) = goto t p' r'" "rhist r' = rhist r" "rtail r' = rtail r" "pop_returns N t p' r'"
  shows "pop_returns N t p r"
proof -
  obtain n q r'' where "fold (ring_step N t) (replicate n True) (goto t p' r') = goto t q r''" "finished q"
      "rhist r'' = rhist r'" "rtail r'' = rtail r'" "q = PopDone None \<longrightarrow> rhead r'' = rtail r''"
    using assms(4) by (auto simp: pop_returns_def)
  then show ?thesis using assms(1-3) unfolding pop_returns_def
    by (intro exI [of _ "Suc n"] exI [of _ q] exI [of _ r'']) simp
qed

lemma pop_returns_done: "x = None \<longrightarrow> rhead r = rtail r \<Longrightarrow> pop_returns N t (PopDone x) r"
  unfolding pop_returns_def by (intro exI [of _ 0] exI [of _ "PopDone x"] exI [of _ r]) simp

lemma pop_returns_read: "pop_returns N t (PopStore j v) r" "pop_returns N t (PopRead j) r"
proof -
  show store: "pop_returns N t (PopStore j v) r" for v r
    by (rule pop_returns_step [where p' = "PopDone (Some v)" and r' = "r\<lparr>rseq := (rseq r)(j mod N := j + N)\<rparr>"])
      (simp_all add: ring_step_def goto_def pop_returns_done)
  show "pop_returns N t (PopRead j) r"
    by (rule pop_returns_step [OF _ _ _ store]) (simp_all add: ring_step_def goto_def)
qed

lemma pop_returns_cas: "pop_returns N t (PopCas (rhead r)) r"
  by (rule pop_returns_step [OF _ _ _ pop_returns_read(2), where r' = "r\<lparr>rhead := rhead r + 1\<rparr>"])
    (simp_all add: ring_step_def goto_def)

text \<open>The node at the head, when nobody has claimed a position.\<close>

lemma pop_returns_head:
  assumes inv: "ring_inv N r" and N: "0 < N" and "\<And>u j. \<not> pushing r u j"
  shows "pop_returns N t (PopSeq (rhead r)) r" "pop_returns N t PopLoad r"
proof -
  have seq: "rhead r < rtail r \<Longrightarrow> rseq r (rhead r mod N) = rhead r + 1"
    using ring_invD(7) [OF inv, of "rhead r"] assms(3) by auto
  have empty: "rseq r (rhead r mod N) < rhead r + 1" if "rhead r = rtail r"
    using next_slot [OF inv N] N unfolding that by auto
  show head: "pop_returns N t (PopSeq (rhead r)) r"
  proof (cases "rhead r < rtail r")
    case True
    show ?thesis by (rule pop_returns_step [OF _ _ _ pop_returns_cas]) (simp_all add: ring_step_def seq [OF True])
  next
    case False
    then have e: "rhead r = rtail r" using ring_invD(2) [OF inv] by simp
    show ?thesis by (rule pop_returns_step [OF _ _ _ pop_returns_done [where x = None]])
        (use empty [OF e] e in \<open>simp_all add: ring_step_def\<close>)
  qed
  show "pop_returns N t PopLoad r" by (rule pop_returns_step [OF _ _ _ head]) (simp_all add: ring_step_def)
qed

lemma alone_pop_returns:
  assumes inv: "ring_inv N r" and N: "0 < N" and alone: "\<And>u. u \<noteq> t \<Longrightarrow> \<not> claims (rpcs r u)" and "in_pop (rpcs r t)"
  shows "pop_returns N t (rpcs r t) r"
proof -
  have np: "\<not> pushing r u j" for u j
    using alone [of u] assms(4) by (cases "u = t") (auto simp: pushing_def)
  note head = pop_returns_head [OF inv N np]
  have cas: "pop_returns N t (PopCas j) r" for j
  proof (cases "j = rhead r")
    case False
    show ?thesis by (rule pop_returns_step [OF _ _ _ head(1)]) (use False in \<open>simp_all add: ring_step_def\<close>)
  qed (simp add: pop_returns_cas)
  show ?thesis
  proof (cases "rpcs r t")
    case (PopSeq j)
    show ?thesis
    proof (cases "j = rhead r")
      case True
      then show ?thesis using head(1) PopSeq by simp
    next
      case False
      then have "j + 1 \<le> rseq r (j mod N)"
        using ring_invD(10) [OF inv, of t] PopSeq popped_slot [OF inv _ N, of j] by simp
      then consider "rseq r (j mod N) = j + 1" | "j + 1 < rseq r (j mod N)" by linarith
      then show ?thesis
      proof cases
        case 1
        show ?thesis unfolding PopSeq by (rule pop_returns_step [OF _ _ _ cas]) (simp_all add: ring_step_def 1)
      next
        case 2
        show ?thesis unfolding PopSeq by (rule pop_returns_step [OF _ _ _ head(2)]) (use 2 in \<open>simp_all add: ring_step_def\<close>)
      qed
    qed
  qed (use assms(4) cas head(2) pop_returns_read in auto)
qed

lemma alone_pop_run:
  assumes "reachable (2 ^ k) d q" "1 \<le> k" "k \<le> 61" "length (hist q) < 2 ^ 62"
    and "\<And>u. u \<noteq> t \<Longrightarrow> finished (pcs q u)" "in_pop (pcs q t)"
  shows "\<exists>n. finished (pcs (fold (thread_step t) (replicate n True) q) t) \<and>
    hist (fold (thread_step t) (replicate n True) q) = hist q \<and>
    (pcs (fold (thread_step t) (replicate n True) q) t = PopDone None \<longrightarrow> fifo (fold (thread_step t) (replicate n True) q) = [])"
proof -
  obtain r where r: "refines k q r" "ring_inv (2 ^ k) r" using reachable_ring [OF assms(1-4)] by blast
  have "\<not> claims (rpcs r u)" if "u \<noteq> t" for u
    using assms(5) [OF that] r(1) by (simp add: refines_def finished_map finished_unclaimed)
  moreover have "in_pop (rpcs r t)" using assms(6) r(1) by (cases "rpcs r t") (simp_all add: refines_def)
  ultimately have "pop_returns (2 ^ k) t (rpcs r t) r" using alone_pop_returns [OF r(2)] by simp
  moreover have "goto t (rpcs r t) r = r" by (simp add: goto_def)
  ultimately obtain n p' r' where run: "fold (ring_step (2 ^ k) t) (replicate n True) r = goto t p' r'" "finished p'"
      "rhist r' = rhist r" "rtail r' = rtail r" "p' = PopDone None \<longrightarrow> rhead r' = rtail r'"
    by (auto simp: pop_returns_def)
  have "rtail (fold (ring_step (2 ^ k) t) (take m (replicate n True)) r) < 2 ^ 62" for m
    using fold_ring_tail_take [of "2 ^ k" t m "replicate n True" r] run(1,4) ring_fifo(2) [OF r] assms(4) by simp
  then have ref: "refines k (fold (thread_step t) (replicate n True) q) (goto t p' r')" "ring_inv (2 ^ k) (goto t p' r')"
    using fold_refines [OF r assms(2,3), of "replicate n True" t] unfolding run(1) by blast+
  have "pcs (fold (thread_step t) (replicate n True) q) t = map_pc (\<lambda>x. x) of_nat p'" using ref(1) by (simp add: refines_def)
  moreover have "p' = PopDone None" if "map_pc (\<lambda>x. x) of_nat p' = (PopDone None :: ('a, u64) pc)"
    using that by (cases p') simp_all
  moreover have "length (fifo (fold (thread_step t) (replicate n True) q)) = 0" if "p' = PopDone None"
    using ring_fifo(4) [OF ref] run(5) that by simp
  moreover have "hist (fold (thread_step t) (replicate n True) q) = hist q"
    using ring_fifo(3) [OF ref] ring_fifo(3) [OF r] run(3) by simp
  ultimately show ?thesis using run(2) by (intro exI [of _ n]) (auto simp: finished_map)
qed

section \<open>Properties\<close>

text \<open>C11: a call of \<^verbatim>\<open>push\<close> or \<^verbatim>\<open>pop\<close> on a queue that no other thread is using behaves like the
  operation of a bounded FIFO list, for every capacity that is a power of two and at least 2.\<close>

theorem lfq_calls_fifo:
  assumes "lfq_holds k n q xs" "1 \<le> k" "k \<le> 61" "n < 2 ^ 62 - 1"
  shows "(length xs < 2 ^ k \<longrightarrow> (\<exists>q'. lfq_push q x = Some (q', True) \<and> lfq_holds k (Suc n) q' (xs @ [x]))) \<and>
    (length xs = 2 ^ k \<longrightarrow> lfq_push q x = Some (q, False)) \<and>
    (xs = [] \<longrightarrow> lfq_pop q = Some (q, None)) \<and>
    (xs \<noteq> [] \<longrightarrow> (\<exists>q'. lfq_pop q = Some (q', Some (hd xs)) \<and> lfq_holds k n q' (tl xs)))"
proof -
  note laws = bounded_fifo.push_room [OF lfq_contract [OF assms(2,3)] assms(1,4)]
    bounded_fifo.push_full [OF lfq_contract [OF assms(2,3)] assms(1,4)]
    bounded_fifo.pop_first [OF lfq_contract [OF assms(2,3)] _ assms(4)]
    bounded_fifo.pop_empty [OF lfq_contract [OF assms(2,3)] _ assms(4)]
  have "xs \<noteq> [] \<longrightarrow> (\<exists>q'. lfq_pop q = Some (q', Some (hd xs)) \<and> lfq_holds k n q' (tl xs))"
    using laws(3) [of q "hd xs" "tl xs"] assms(1) by (cases xs) simp_all
  moreover have "xs = [] \<longrightarrow> lfq_pop q = Some (q, None)" using laws(4) [of q] assms(1) by auto
  ultimately show ?thesis using laws(1) [of x] laws(2) [of x] by simp
qed

theorem lfq_calls_fifo_witness:
  "\<exists>q'. lfq_push (lfq_new (2 ^ 1) (0 :: nat)) 7 = Some (q', True) \<and> lfq_holds 1 (Suc 0) q' ([] @ [7])"
  using lfq_calls_fifo [OF lfq_new_holds [of 1 "0 :: nat"], of 7] by simp

text \<open>C12: a push into a queue with room returns however often the weak compare-and-exchange fails
  spuriously before it succeeds, and so does a pop from a queue that is not empty.\<close>

theorem calls_return_despite_spurious_failures:
  assumes "lfq_holds k n q xs" "1 \<le> k" "k \<le> 61" "n < 2 ^ 62 - 1"
  shows "(length xs < 2 ^ k \<longrightarrow> (\<exists>q'. lfq_run ([a, b] @ concat (replicate m [False, c]) @ [True, e, f]) (PushLoad x, q) =
      Some (PushDone True, q') \<and> lfq_holds k (Suc n) q' (xs @ [x]))) \<and>
    (xs \<noteq> [] \<longrightarrow> (\<exists>q'. lfq_run ([a, b] @ concat (replicate m [False, c]) @ [True, e, f]) (PopLoad, q) =
      Some (PopDone (Some (hd xs)), q') \<and> lfq_holds k n q' (tl xs)))"
proof -
  obtain r where r: "quiet k q r" "rtail r \<le> n" "xs = drop (rhead r) (rhist r)" "length xs = rtail r - rhead r"
    "rhead r \<le> rtail r" using assms(1) by (elim lfq_holdsE)
  have hd: "rhead r \<le> length (rhist r)" using r(1,5) ring_invD(1) [of "2 ^ k" r] by (simp add: quiet_def)
  have small: "rtail r + 1 < 2 ^ 62" "rtail r < 2 ^ 62" using r(2) assms(4) by linarith+
  have "\<exists>q'. lfq_run ([a, b] @ concat (replicate m [False, c]) @ [True, e, f]) (PushLoad x, q) =
      Some (PushDone True, q') \<and> lfq_holds k (Suc n) q' (xs @ [x])" if len: "length xs < 2 ^ k"
  proof -
    have "rtail r < rhead r + 2 ^ k" using len r(4,5) by linarith
    from quiet_push [OF r(1) assms(2,3) small(1) this, of a b m c e f x] obtain q' r' where
      "lfq_run ([a, b] @ concat (replicate m [False, c]) @ [True, e, f]) (PushLoad x, q) = Some (PushDone True, q')"
      and q': "quiet k q' r'" "rtail r' = rtail r + 1" "rhead r' = rhead r" "rhist r' = rhist r @ [x]"
      by blast
    moreover have "lfq_holds k (Suc n) q' (xs @ [x])"
      unfolding lfq_holds_def using q' r(2,3) hd by (intro exI [of _ r']) simp
    ultimately show ?thesis by blast
  qed
  moreover have "\<exists>q'. lfq_run ([a, b] @ concat (replicate m [False, c]) @ [True, e, f]) (PopLoad, q) =
      Some (PopDone (Some (hd xs)), q') \<and> lfq_holds k n q' (tl xs)" if ne: "xs \<noteq> []"
  proof -
    have lt: "rhead r < rtail r" using ne r(4,5) by (cases xs) auto
    have x: "hd xs = rhist r ! rhead r" "tl xs = drop (rhead r + 1) (rhist r)"
      using r(3) ne by (simp_all add: hd_drop_conv_nth drop_Suc tl_drop)
    from quiet_pop [OF r(1) assms(2,3) small(2) lt, of a b m c e f] obtain q' r' where
      "lfq_run ([a, b] @ concat (replicate m [False, c]) @ [True, e, f]) (PopLoad, q) = Some (PopDone (Some (hd xs)), q')"
      and q': "quiet k q' r'" "rtail r' = rtail r" "rhead r' = rhead r + 1" "rhist r' = rhist r"
      unfolding x(1) by blast
    moreover have "lfq_holds k n q' (tl xs)"
      unfolding lfq_holds_def using q' r(2) x(2) by (intro exI [of _ r']) simp
    ultimately show ?thesis by blast
  qed
  ultimately show ?thesis by blast
qed

theorem calls_return_despite_spurious_failures_witness:
  "\<exists>q'. lfq_run ([True, True] @ concat (replicate 100 [False, True]) @ [True, True, True])
      (PushLoad 7, lfq_new (2 ^ 1) (0 :: nat)) = Some (PushDone True, q') \<and> lfq_holds 1 (Suc 0) q' ([] @ [7])"
  using calls_return_despite_spurious_failures [OF lfq_new_holds [of 1 "0 :: nat"], where m = 100 and a = True and b = True and c = True
      and e = True and f = True and x = 7] by simp

end
