(* ===== verification/Sender.thy ===== *)
theory Sender
  imports Packet_Types
begin

text \<open>
  \<^verbatim>\<open>send_packet_info\<close> of \<^verbatim>\<open>cpp/packet_capture.cpp\<close>: the record of 1088 bytes that carries one
  \<^verbatim>\<open>PacketInfo\<close> and its HMAC, and the loop that hands it to \<^verbatim>\<open>SSL_write\<close> until everything is
  written or the connection fails. OpenSSL is a parameter: \<^verbatim>\<open>HMAC\<close> is a function of the key and
  the message, \<^verbatim>\<open>SSL_write\<close> and \<^verbatim>\<open>SSL_get_error\<close> act on a connection of any type. The loop may
  spin for ever, so it is a partial function: \<^term>\<open>None\<close> is a call that does not return.
\<close>

section \<open>The operations of OpenSSL\<close>

datatype ssl_error = Want_Write | Want_Read | Other_Error

text \<open>\<^verbatim>\<open>SSL_write\<close> takes the bytes from the pointer on and returns what the C function returns;
  \<^verbatim>\<open>SSL_get_error\<close> looks at the connection after that call and its result.\<close>

record 's ssl_ops =
  SSL_write :: "'s \<Rightarrow> byte list \<Rightarrow> int \<times> 's"
  SSL_get_error :: "'s \<Rightarrow> int \<Rightarrow> ssl_error"

section \<open>The record on the wire\<close>

definition hmac_key :: "byte list option \<Rightarrow> byte list" where
  "hmac_key secret = (case secret of None \<Rightarrow> [] | Some k \<Rightarrow> k)"

text \<open>\<^verbatim>\<open>memcpy\<close> of a hash of more than 64 bytes would run past \<^verbatim>\<open>combined\<close>.\<close>

definition combined :: "(byte list \<Rightarrow> byte list \<Rightarrow> byte list) \<Rightarrow> byte list option \<Rightarrow> packet_info \<Rightarrow> byte list option" where
  "combined hmac secret info = do {
     let hmac_result = hmac (hmac_key secret) (packet_info_bytes info);
     let buf = replicate (1024 + 64) 0;
     buf \<leftarrow> wr_bytes buf 0 (packet_info_bytes info);
     wr_bytes buf 1024 hmac_result }"

section \<open>The write loop\<close>

partial_function (option) send_loop :: "'s ssl_ops \<Rightarrow> byte list \<Rightarrow> nat \<Rightarrow> 's \<Rightarrow> 's option" where
  "send_loop ops buf sent ssl =
     (if sent < length buf then
        (case SSL_write ops ssl (drop sent buf) of (n, ssl') \<Rightarrow>
           if n \<le> 0 then
             (case SSL_get_error ops ssl' n of
                Want_Write \<Rightarrow> send_loop ops buf sent ssl'
              | Want_Read \<Rightarrow> send_loop ops buf sent ssl'
              | Other_Error \<Rightarrow> Some ssl')
           else send_loop ops buf (sent + nat n) ssl')
      else Some ssl)"

definition send_packet_info ::
  "(byte list \<Rightarrow> byte list \<Rightarrow> byte list) \<Rightarrow> byte list option \<Rightarrow> 's ssl_ops \<Rightarrow> 's option \<Rightarrow> packet_info \<Rightarrow> 's option option" where
  "send_packet_info hmac secret ops ssl info =
     (case ssl of
        None \<Rightarrow> Some None
      | Some s \<Rightarrow> do {
          buf \<leftarrow> combined hmac secret info;
          s' \<leftarrow> send_loop ops buf 0 s;
          Some (Some s') })"

section \<open>What OpenSSL promises\<close>

text \<open>\<^term>\<open>stream s\<close> is what the peer of the connection \<^term>\<open>s\<close> has been sent: a positive result is
  the number of bytes written, of those offered, and any other result has written none.\<close>

definition ssl_writes :: "'s ssl_ops \<Rightarrow> ('s \<Rightarrow> byte list) \<Rightarrow> bool" where
  "ssl_writes ops stream \<longleftrightarrow> (\<forall>s bs n s'. bs \<noteq> [] \<longrightarrow> SSL_write ops s bs = (n, s') \<longrightarrow>
     n \<le> int (length bs) \<and> stream s' = stream s @ take (nat n) bs)"

text \<open>A healthy connection only ever asks to try again, and not for ever: \<^term>\<open>patience s\<close> bounds
  how often it still does.\<close>

definition ssl_healthy :: "'s ssl_ops \<Rightarrow> ('s \<Rightarrow> bool) \<Rightarrow> ('s \<Rightarrow> nat) \<Rightarrow> bool" where
  "ssl_healthy ops healthy patience \<longleftrightarrow> (\<forall>s bs n s'. healthy s \<longrightarrow> bs \<noteq> [] \<longrightarrow> SSL_write ops s bs = (n, s') \<longrightarrow>
     healthy s' \<and> (n \<le> 0 \<longrightarrow> SSL_get_error ops s' n \<noteq> Other_Error \<and> patience s' < patience s))"

text \<open>A scripted connection: what the calls of \<^verbatim>\<open>SSL_write\<close> return one after the other (everything
  is written once the script is over), and the bytes sent so far.\<close>

type_synonym script = "int list \<times> byte list"

definition script_ops :: "ssl_error \<Rightarrow> script ssl_ops" where
  "script_ops e = \<lparr>
     SSL_write = (\<lambda>(rs, out) bs.
       let n = (case rs of [] \<Rightarrow> int (length bs) | r # _ \<Rightarrow> min r (int (length bs))) in
       (n, tl rs, out @ take (nat n) bs)),
     SSL_get_error = (\<lambda>_ _. e)\<rparr>"

lemma script_writes: "ssl_writes (script_ops e) snd"
  by (auto simp: ssl_writes_def script_ops_def Let_def split: list.splits prod.splits)

lemma script_healthy:
  assumes "e \<noteq> Other_Error"
  shows "ssl_healthy (script_ops e) (\<lambda>_. True) (\<lambda>s. length (fst s))"
  using assms by (auto simp: ssl_healthy_def script_ops_def Let_def split: list.splits prod.splits)

section \<open>Lemmas\<close>

lemma length_combined:
  "combined hmac secret info = Some buf \<Longrightarrow> wf_info info \<Longrightarrow> length buf = 1088"
  by (auto simp: combined_def wr_bytes_def Let_def length_packet_info_bytes split: if_splits option.splits)

lemma combined_bytes:
  assumes "wf_info info" "length (hmac (hmac_key secret) (packet_info_bytes info)) \<le> 64"
  shows "combined hmac secret info = Some (packet_info_bytes info @
    hmac (hmac_key secret) (packet_info_bytes info) @
    replicate (64 - length (hmac (hmac_key secret) (packet_info_bytes info))) 0)"
  using assms by (simp add: combined_def wr_bytes_def length_packet_info_bytes Let_def)

text \<open>A loop that returns has sent a prefix of what was left, and all of it unless the connection
  failed.\<close>

lemma ssl_writesD:
  assumes "ssl_writes ops stream" "SSL_write ops s (drop sent buf) = (k, t)" "sent < length buf"
  shows "k \<le> int (length buf - sent)" "stream t = stream s @ take (nat k) (drop sent buf)"
  using assms unfolding ssl_writes_def by (metis drop_eq_Nil length_drop not_le)+

lemma ssl_healthyD:
  assumes "ssl_healthy ops healthy patience" "SSL_write ops s (drop sent buf) = (k, t)" "sent < length buf" "healthy s"
  shows "healthy t" "k \<le> 0 \<Longrightarrow> SSL_get_error ops t k \<noteq> Other_Error" "k \<le> 0 \<Longrightarrow> patience t < patience s"
  using assms unfolding ssl_healthy_def by (metis drop_eq_Nil not_le)+

lemma send_loop_prefix:
  assumes "send_loop ops buf sent s = Some s'" "ssl_writes ops stream" "sent \<le> length buf"
  shows "\<exists>n. sent + n \<le> length buf \<and> stream s' = stream s @ take n (drop sent buf) \<and>
      (sent + n < length buf \<longrightarrow> (\<exists>r \<le> 0. SSL_get_error ops s' r = Other_Error))"
  using assms
proof (induction ops buf sent s s' rule: send_loop.raw_induct [rotated, consumes 1, case_names 1])
  case (1 loop ops buf sent s s')
  obtain k t where w: "SSL_write ops s (drop sent buf) = (k, t)" by force
  show ?case
  proof (cases "sent < length buf")
    case False
    then show ?thesis using 1 by auto
  next
    case more: True
    note st = ssl_writesD [OF 1(3) w more]
    show ?thesis
    proof (cases "k \<le> 0 \<and> SSL_get_error ops t k = Other_Error")
      case True
      then show ?thesis using 1(2) more w st(2) by auto
    next
      case False
      then have "loop ops buf (sent + nat k) t = Some s'"
        using 1(2) more w by (auto split: if_splits ssl_error.splits)
      then obtain n where "sent + nat k + n \<le> length buf" 
        "stream s' = stream t @ take n (drop (sent + nat k) buf)"
        "sent + nat k + n < length buf \<longrightarrow> (\<exists>r \<le> 0. SSL_get_error ops s' r = Other_Error)"
        using 1(1) [OF _ 1(3)] st(1) more by fastforce
      moreover have "take (nat k + n) (drop sent buf) = take (nat k) (drop sent buf) @ take n (drop (sent + nat k) buf)"
        unfolding take_add by (simp add: add.commute)
      ultimately show ?thesis using st(2) by (intro exI [of _ "nat k + n"]) (simp add: add.assoc)
    qed
  qed
qed

text \<open>On a healthy connection the loop returns after everything is sent.\<close>

lemma send_loop_delivers:
  assumes "ssl_writes ops stream" "ssl_healthy ops healthy patience" "healthy s"
  shows "\<exists>s'. send_loop ops buf sent s = Some s' \<and> healthy s' \<and> stream s' = stream s @ drop sent buf"
  using assms(3)
proof (induction "(length buf - sent, patience s)" arbitrary: sent s rule: wf_induct_rule [OF wf_lex_prod [OF wf_less_than wf_less_than]])
  case (1 sent s)
  obtain k t where w: "SSL_write ops s (drop sent buf) = (k, t)" by force
  show ?case
  proof (cases "sent < length buf")
    case False
    then show ?thesis using 1(2) by (subst send_loop.simps) simp
  next
    case more: True
    note st = ssl_writesD [OF assms(1) w more]
    note t = ssl_healthyD [OF assms(2) w more 1(2)]
    have eq: "send_loop ops buf sent s = send_loop ops buf (sent + nat k) t"
      using t more w by (subst send_loop.simps) (auto split: ssl_error.splits)
    have "((length buf - (sent + nat k), patience t), length buf - sent, patience s) \<in> less_than <*lex*> less_than"
      using t(3) more by (cases "k \<le> 0") auto
    from 1(1) [OF this t(1)] show ?thesis using st(2) unfolding eq
      by (metis append.assoc append_take_drop_id drop_drop add.commute)
  qed
qed

section \<open>Properties\<close>

text \<open>C6: on a connection that does not fail, \<^verbatim>\<open>send_packet_info\<close> returns, however the connection
  splits the writes and however often it asks to try again, and the peer has been sent exactly the
  1024 bytes of the struct followed by the 64 bytes of their HMAC under the shared secret.\<close>

theorem send_packet_info_delivers:
  assumes "ssl_writes ops stream" "ssl_healthy ops healthy patience" "healthy s" "wf_info info"
    and "length (hmac (hmac_key secret) (packet_info_bytes info)) = 64"
  shows "\<exists>s'. send_packet_info hmac secret ops (Some s) info = Some (Some s') \<and> healthy s' \<and>
    stream s' = stream s @ packet_info_bytes info @ hmac (hmac_key secret) (packet_info_bytes info)"
proof -
  have "combined hmac secret info = Some (packet_info_bytes info @ hmac (hmac_key secret) (packet_info_bytes info))"
    using combined_bytes [OF assms(4)] assms(5) by simp
  then show ?thesis
    using send_loop_delivers [OF assms(1-3), of "packet_info_bytes info @ hmac (hmac_key secret) (packet_info_bytes info)" 0]
    by (auto simp: send_packet_info_def)
qed

theorem send_packet_info_delivers_witness:
  "\<exists>s'. send_packet_info (\<lambda>k m. replicate 64 7) None (script_ops Want_Write) (Some ([-1, 1000, -1], [9])) zero_info = Some (Some s') \<and>
     True \<and> snd s' = snd ([-1, 1000, -1] :: int list, [9]) @ packet_info_bytes zero_info @ replicate 64 7"
  by (rule send_packet_info_delivers [OF script_writes script_healthy]) simp_all

text \<open>C16: whatever the connection does, a call that returns has sent a prefix of the record, in
  order and without a gap, and less than the whole record only when the connection failed.\<close>

theorem send_packet_info_prefix:
  assumes "ssl_writes ops stream" "wf_info info"
    and "send_packet_info hmac secret ops (Some s) info = Some ssl'"
  shows "\<exists>s' msg n. ssl' = Some s' \<and> combined hmac secret info = Some msg \<and> length msg = 1088 \<and>
    n \<le> 1088 \<and> stream s' = stream s @ take n msg \<and>
    (n < 1088 \<longrightarrow> (\<exists>r \<le> 0. SSL_get_error ops s' r = Other_Error))"
proof -
  obtain msg s' where r: "combined hmac secret info = Some msg" "send_loop ops msg 0 s = Some s'"
    and s': "ssl' = Some s'"
    using assms(3) by (fastforce simp: send_packet_info_def bind_eq_Some_conv)
  have len: "length msg = 1088" using length_combined [OF r(1) assms(2)] .
  show ?thesis using send_loop_prefix [OF r(2) assms(1)] r(1) s' len by auto
qed

theorem send_packet_info_prefix_witness:
  "\<exists>s' msg n. Some ([], take 3 (packet_info_bytes zero_info)) = Some s' \<and>
     combined (\<lambda>k m. []) None zero_info = Some msg \<and> length msg = 1088 \<and>
     n \<le> 1088 \<and> snd s' = snd ([3, -1] :: int list, []) @ take n msg \<and>
     (n < 1088 \<longrightarrow> (\<exists>r \<le> 0. SSL_get_error (script_ops Other_Error) s' r = Other_Error))"
proof (rule send_packet_info_prefix [OF script_writes wf_zero_info])
  have "combined (\<lambda>k m. []) None zero_info = Some (packet_info_bytes zero_info @ replicate 64 0)"
    using combined_bytes [OF wf_zero_info, of "\<lambda>k m. []" None] by simp
  then show "send_packet_info (\<lambda>k m. []) None (script_ops Other_Error) (Some ([3, -1], [])) zero_info =
      Some (Some ([], take 3 (packet_info_bytes zero_info)))"
    using length_packet_info_bytes [OF wf_zero_info]
    by (simp add: send_packet_info_def send_loop.simps script_ops_def)
qed

end
