(* ===== verification/Pipeline.thy ===== *)
theory Pipeline
  imports Dissect_Raw Queue_Calls Sender "HOL-Library.Sublist"
begin

text \<open>
  The threads of \<^verbatim>\<open>cpp/packet_capture.cpp\<close> around the two queues of \<^verbatim>\<open>CaptureContext\<close>: the capture
  thread (\<^verbatim>\<open>main\<close> inside \<^verbatim>\<open>pcap_loop\<close>, which calls \<^verbatim>\<open>packet_handler\<close>, and the joins after it), four
  workers (\<^verbatim>\<open>worker_thread_main\<close>), the sender (\<^verbatim>\<open>sender_thread_main\<close>) and \<^verbatim>\<open>signal_handler\<close>. A thread
  makes one access to a queue per step, as in \<^verbatim>\<open>Lock_Free_Queue\<close>, and the threads interleave
  freely. The waits (\<^verbatim>\<open>yield\<close>, \<^verbatim>\<open>sleep_for\<close>) have no effect on the state.
\<close>

section \<open>packet\_handler\<close>

type_synonym timeval = "int \<times> int"

text \<open>The subtraction is done in a 64-bit \<^verbatim>\<open>long\<close> and cast to \<^verbatim>\<open>uint32_t\<close>.\<close>

definition handler_delta :: "timeval \<Rightarrow> pcap_pkthdr \<Rightarrow> u32" where
  "handler_delta last_ts h =
     (if fst last_ts = 0 then 0
      else of_int ((tv_sec h - fst last_ts) * 1000000 + (tv_usec h - snd last_ts)))"

text \<open>\<^term>\<open>junk\<close> is what the uninitialised \<^verbatim>\<open>raw.data\<close> holds.\<close>

definition handler_raw :: "timeval \<Rightarrow> byte list \<Rightarrow> pcap_pkthdr \<Rightarrow> byte list \<Rightarrow> raw_packet option" where
  "handler_raw last_ts junk h packet = do {
     let n = (if unat (caplen h) < MAX_PAYLOAD_SIZE then unat (caplen h) else MAX_PAYLOAD_SIZE);
     bs \<leftarrow> rd_bytes packet 0 n;
     data \<leftarrow> wr_bytes junk 0 bs;
     Some \<lparr>pkthdr = h, rp_data = data, rp_delta_time = handler_delta last_ts h\<rparr> }"

section \<open>The state\<close>

text \<open>Where a thread stands. The capture thread waits for a frame, pushes one, or has left
  \<^verbatim>\<open>pcap_loop\<close> and joins the others. A worker tests \<^verbatim>\<open>keep_running\<close>, is inside \<^verbatim>\<open>raw_queue.pop\<close>, or
  inside \<^verbatim>\<open>dissected_queue.push\<close>; the same again in the loops that drain the queue after
  \<^verbatim>\<open>keep_running\<close> was false; \<^verbatim>\<open>W_Undefined\<close> is a dissection with undefined behaviour.\<close>

datatype capture_loc = C_Loop | C_Push | C_JoinWorkers | C_JoinSender | C_Joined

datatype worker_loc =
    W_Loop | W_Pop | W_Push packet_info | W_DrainPop | W_DrainPush packet_info | W_Done | W_Undefined

datatype sender_loc =
    S_Loop | S_Pop | S_Send packet_info | S_DrainPop | S_DrainSend packet_info | S_Done

text \<open>\<^verbatim>\<open>frames\<close> is a history variable that no step reads: what \<^verbatim>\<open>packet_handler\<close> has tried to push.\<close>

record 's pipeline =
  keep_running :: bool
  ctx_ssl :: 's
  dissected_queue :: "packet_info lfq_sys"
  raw_queue :: "raw_packet lfq_sys"
  last_ts :: timeval
  capture :: capture_loc
  worker :: "nat \<Rightarrow> worker_loc"
  sender :: sender_loc
  frames :: "raw_packet list"

text \<open>What the threads use: floating-point functions, \<^verbatim>\<open>HMAC\<close>, the shared secret, OpenSSL.\<close>

record ('d, 's) capture_env =
  env_fp :: "'d fp_ops"
  env_hmac :: "byte list \<Rightarrow> byte list \<Rightarrow> byte list"
  env_secret :: "byte list option"
  env_ssl :: "'s ssl_ops"

text \<open>\<^verbatim>\<open>num_workers\<close> of \<^verbatim>\<open>main\<close>. In the queues, thread \<^term>\<open>t < num_workers\<close> is worker \<^term>\<open>t\<close>; thread
  \<^term>\<open>num_workers\<close> is the capture thread in the raw queue and the sender in the dissected one.\<close>

definition num_workers :: nat where
  "num_workers = 4"

definition start_push :: "nat \<Rightarrow> 'a \<Rightarrow> 'a lfq_sys \<Rightarrow> 'a lfq_sys" where
  "start_push t d q = q\<lparr>pcs := (pcs q)(t := PushLoad d)\<rparr>"

definition start_pop :: "nat \<Rightarrow> 'a lfq_sys \<Rightarrow> 'a lfq_sys" where
  "start_pop t q = q\<lparr>pcs := (pcs q)(t := PopLoad)\<rparr>"

text \<open>\<^verbatim>\<open>CaptureContext ctx\<close> and the threads that \<^verbatim>\<open>main\<close> starts, with queues of capacity \<^term>\<open>cap\<close>
  (8192 in the source); \<^term>\<open>r\<close> and \<^term>\<open>i\<close> are what fresh nodes hold.\<close>

definition pipe_init :: "nat \<Rightarrow> raw_packet \<Rightarrow> packet_info \<Rightarrow> 's \<Rightarrow> 's pipeline" where
  "pipe_init cap r i ssl = \<lparr>keep_running = True, ctx_ssl = ssl, dissected_queue = lfq_init cap i,
     raw_queue = lfq_init cap r, last_ts = (0, 0), capture = C_Loop, worker = (\<lambda>_. W_Loop),
     sender = S_Loop, frames = []\<rparr>"

section \<open>The steps of the threads\<close>

text \<open>\<^verbatim>\<open>pcap_loop\<close> hands a frame to \<^verbatim>\<open>packet_handler\<close>.\<close>

definition packet_handler :: "pcap_pkthdr \<Rightarrow> byte list \<Rightarrow> byte list \<Rightarrow> 's pipeline \<Rightarrow> 's pipeline" where
  "packet_handler h packet junk s =
     (case handler_raw (last_ts s) junk h packet of
        None \<Rightarrow> s
      | Some raw \<Rightarrow> s\<lparr>last_ts := (tv_sec h, tv_usec h), capture := C_Push,
          raw_queue := start_push num_workers raw (raw_queue s), frames := frames s @ [raw]\<rparr>)"

text \<open>The accesses of its push; the result is ignored. After \<^verbatim>\<open>pcap_loop\<close>, \<^verbatim>\<open>main\<close> joins the workers
  and then the sender.\<close>

definition capture_step :: "bool \<Rightarrow> 's pipeline \<Rightarrow> 's pipeline" where
  "capture_step ok s =
     (case capture s of
        C_Loop \<Rightarrow> s
      | C_Push \<Rightarrow>
          (case pcs (raw_queue s) num_workers of
             PushDone _ \<Rightarrow> s\<lparr>capture := C_Loop\<rparr>
           | _ \<Rightarrow> s\<lparr>raw_queue := thread_step num_workers ok (raw_queue s)\<rparr>)
      | C_JoinWorkers \<Rightarrow> if \<forall>t < num_workers. worker s t = W_Done then s\<lparr>capture := C_JoinSender\<rparr> else s
      | C_JoinSender \<Rightarrow> if sender s = S_Done then s\<lparr>capture := C_Joined\<rparr> else s
      | C_Joined \<Rightarrow> s)"

text \<open>\<^term>\<open>junk\<close> is what the uninitialised \<^verbatim>\<open>PacketInfo info\<close> holds.\<close>

definition worker_dissect ::
  "('d, 's) capture_env \<Rightarrow> nat \<Rightarrow> packet_info \<Rightarrow> raw_packet \<Rightarrow> (packet_info \<Rightarrow> worker_loc) \<Rightarrow> 's pipeline \<Rightarrow> 's pipeline" where
  "worker_dissect env t junk raw loc s =
     (case dissect_raw_packet (env_fp env) raw junk of
        None \<Rightarrow> s\<lparr>worker := (worker s)(t := W_Undefined)\<rparr>
      | Some info \<Rightarrow> s\<lparr>worker := (worker s)(t := loc info),
          dissected_queue := start_push t info (dissected_queue s)\<rparr>)"

definition worker_step :: "('d, 's) capture_env \<Rightarrow> nat \<Rightarrow> bool \<Rightarrow> packet_info \<Rightarrow> 's pipeline \<Rightarrow> 's pipeline" where
  "worker_step env t ok junk s =
     (case worker s t of
        W_Loop \<Rightarrow> s\<lparr>worker := (worker s)(t := if keep_running s then W_Pop else W_DrainPop),
          raw_queue := start_pop t (raw_queue s)\<rparr>
      | W_Pop \<Rightarrow>
          (case pcs (raw_queue s) t of
             PopDone (Some raw) \<Rightarrow> worker_dissect env t junk raw W_Push s
           | PopDone None \<Rightarrow> s\<lparr>worker := (worker s)(t := W_Loop)\<rparr>
           | _ \<Rightarrow> s\<lparr>raw_queue := thread_step t ok (raw_queue s)\<rparr>)
      | W_Push info \<Rightarrow>
          (case pcs (dissected_queue s) t of
             PushDone True \<Rightarrow> s\<lparr>worker := (worker s)(t := W_Loop)\<rparr>
           | PushDone False \<Rightarrow>
               if keep_running s then s\<lparr>dissected_queue := start_push t info (dissected_queue s)\<rparr>
               else s\<lparr>worker := (worker s)(t := W_Loop)\<rparr>
           | _ \<Rightarrow> s\<lparr>dissected_queue := thread_step t ok (dissected_queue s)\<rparr>)
      | W_DrainPop \<Rightarrow>
          (case pcs (raw_queue s) t of
             PopDone (Some raw) \<Rightarrow> worker_dissect env t junk raw W_DrainPush s
           | PopDone None \<Rightarrow> s\<lparr>worker := (worker s)(t := W_Done)\<rparr>
           | _ \<Rightarrow> s\<lparr>raw_queue := thread_step t ok (raw_queue s)\<rparr>)
      | W_DrainPush info \<Rightarrow>
          (case pcs (dissected_queue s) t of
             PushDone True \<Rightarrow> s\<lparr>worker := (worker s)(t := W_DrainPop), raw_queue := start_pop t (raw_queue s)\<rparr>
           | PushDone False \<Rightarrow> s\<lparr>dissected_queue := start_push t info (dissected_queue s)\<rparr>
           | _ \<Rightarrow> s\<lparr>dissected_queue := thread_step t ok (dissected_queue s)\<rparr>)
      | W_Done \<Rightarrow> s
      | W_Undefined \<Rightarrow> s)"

text \<open>The connection is used by the sender only, so a whole \<^verbatim>\<open>send_packet_info\<close> is one step; one that
  does not return leaves the thread where it is.\<close>

definition sender_send :: "('d, 's) capture_env \<Rightarrow> packet_info \<Rightarrow> 's pipeline \<Rightarrow> 's option" where
  "sender_send env info s =
     Option.bind (send_packet_info (env_hmac env) (env_secret env) (env_ssl env) (Some (ctx_ssl s)) info) (\<lambda>r. r)"

definition sender_step :: "('d, 's) capture_env \<Rightarrow> bool \<Rightarrow> 's pipeline \<Rightarrow> 's pipeline" where
  "sender_step env ok s =
     (case sender s of
        S_Loop \<Rightarrow> s\<lparr>sender := if keep_running s then S_Pop else S_DrainPop,
          dissected_queue := start_pop num_workers (dissected_queue s)\<rparr>
      | S_Pop \<Rightarrow>
          (case pcs (dissected_queue s) num_workers of
             PopDone (Some info) \<Rightarrow> s\<lparr>sender := S_Send info\<rparr>
           | PopDone None \<Rightarrow> s\<lparr>sender := S_Loop\<rparr>
           | _ \<Rightarrow> s\<lparr>dissected_queue := thread_step num_workers ok (dissected_queue s)\<rparr>)
      | S_Send info \<Rightarrow>
          (case sender_send env info s of None \<Rightarrow> s | Some ssl \<Rightarrow> s\<lparr>ctx_ssl := ssl, sender := S_Loop\<rparr>)
      | S_DrainPop \<Rightarrow>
          (case pcs (dissected_queue s) num_workers of
             PopDone (Some info) \<Rightarrow> s\<lparr>sender := S_DrainSend info\<rparr>
           | PopDone None \<Rightarrow> s\<lparr>sender := S_Done\<rparr>
           | _ \<Rightarrow> s\<lparr>dissected_queue := thread_step num_workers ok (dissected_queue s)\<rparr>)
      | S_DrainSend info \<Rightarrow>
          (case sender_send env info s of
             None \<Rightarrow> s
           | Some ssl \<Rightarrow> s\<lparr>ctx_ssl := ssl, sender := S_DrainPop,
               dissected_queue := start_pop num_workers (dissected_queue s)\<rparr>)
      | S_Done \<Rightarrow> s)"

section \<open>The pipeline\<close>

datatype pipe_action =
    Frame pcap_pkthdr "byte list" "byte list"
  | LoopReturns
  | Signal
  | Capture bool
  | Worker nat bool packet_info
  | Sender bool

text \<open>\<^verbatim>\<open>signal_handler\<close> clears \<^verbatim>\<open>keep_running\<close> (and asks \<^verbatim>\<open>pcap_loop\<close> to return, which it may do
  between any two frames); so does \<^verbatim>\<open>main\<close> when \<^verbatim>\<open>pcap_loop\<close> has returned.\<close>

definition signal_handler :: "'s pipeline \<Rightarrow> 's pipeline" where
  "signal_handler s = s\<lparr>keep_running := False\<rparr>"

fun pipe_step :: "('d, 's) capture_env \<Rightarrow> pipe_action \<Rightarrow> 's pipeline \<Rightarrow> 's pipeline" where
  "pipe_step env (Frame h packet junk) s = (if capture s = C_Loop then packet_handler h packet junk s else s)"
| "pipe_step env LoopReturns s = (if capture s = C_Loop then s\<lparr>keep_running := False, capture := C_JoinWorkers\<rparr> else s)"
| "pipe_step env Signal s = signal_handler s"
| "pipe_step env (Capture ok) s = capture_step ok s"
| "pipe_step env (Worker t ok junk) s = worker_step env t ok junk s"
| "pipe_step env (Sender ok) s = sender_step env ok s"

text \<open>libpcap hands over as many bytes as the header says; the uninitialised objects have the size of
  their type.\<close>

fun admissible :: "pipe_action \<Rightarrow> bool" where
  "admissible (Frame h packet junk) \<longleftrightarrow> unat (caplen h) \<le> length packet \<and> length junk = MAX_PAYLOAD_SIZE"
| "admissible (Worker t ok junk) \<longleftrightarrow> t < num_workers \<and> wf_info junk"
| "admissible _ \<longleftrightarrow> True"

inductive pipe_reachable :: "('d, 's) capture_env \<Rightarrow> nat \<Rightarrow> raw_packet \<Rightarrow> packet_info \<Rightarrow> 's \<Rightarrow> 's pipeline \<Rightarrow> bool"
  for env cap r i ssl where
  start: "pipe_reachable env cap r i ssl (pipe_init cap r i ssl)"
| step: "pipe_reachable env cap r i ssl s \<Longrightarrow> admissible a \<Longrightarrow> pipe_reachable env cap r i ssl (pipe_step env a s)"

end
