(* ===== verification/Pipeline_Safety.thy ===== *)
theory Pipeline_Safety
  imports Pipeline
begin

text \<open>
  What the threads of the pipeline do to a packet: between its capture and its record on the
  connection it is in one place at a time. The invariant names, for every element of the
  dissected queue and for every worker that carries a packet, the position of that packet in the
  raw queue.
\<close>

section \<open>The accesses of a call, as its thread sees them\<close>

text \<open>\<^verbatim>\<open>pending\<close>: the push of an element that is not in the queue yet; \<^verbatim>\<open>placed\<close>: of one that is;
  \<^verbatim>\<open>searching\<close>: a pop that has not taken a position yet.\<close>

fun pending :: "('a, 'p) pc \<Rightarrow> 'a option" where
  "pending (PushLoad d) = Some d"
| "pending (PushSeq d pos) = Some d"
| "pending (PushCas d pos) = Some d"
| "pending _ = None"

fun placed :: "('a, 'p) pc \<Rightarrow> bool" where
  "placed (PushWrite d pos) = True"
| "placed (PushStore pos) = True"
| "placed _ = False"

fun searching :: "('a, 'p) pc \<Rightarrow> bool" where
  "searching PopLoad = True"
| "searching (PopSeq pos) = True"
| "searching (PopCas pos) = True"
| "searching _ = False"

lemma access_others [simp]: "t' \<noteq> t \<Longrightarrow> pcs (thread_step t ok s) t' = pcs s t'"
  by (simp add: thread_step_def split: prod.splits)

lemma pending_access:
  assumes "pending (pcs s t) = Some d"
  shows "taken (thread_step t ok s) = taken s \<and>
    ((pending (pcs (thread_step t ok s) t) = Some d \<or> pcs (thread_step t ok s) t = PushDone False) \<and>
       hist (thread_step t ok s) = hist s \<or>
     placed (pcs (thread_step t ok s) t) \<and> hist (thread_step t ok s) = hist s @ [d])"
  using assms
  by (cases "pcs s t") (auto simp: thread_step_def ghost_hist_def ghost_taken_def Let_def)

lemma placed_access:
  assumes "placed (pcs s t)"
  shows "taken (thread_step t ok s) = taken s \<and> hist (thread_step t ok s) = hist s \<and>
    (placed (pcs (thread_step t ok s) t) \<or> pcs (thread_step t ok s) t = PushDone True)"
  using assms
  by (cases "pcs s t") (auto simp: thread_step_def ghost_hist_def ghost_taken_def Let_def)

lemma store_access:
  assumes "pcs s t = PopStore pos v"
  shows "taken (thread_step t ok s) = taken s \<and> hist (thread_step t ok s) = hist s \<and>
    pcs (thread_step t ok s) t = PopDone (Some v)"
  using assms by (auto simp: thread_step_def ghost_hist_def ghost_taken_def Let_def)

lemma searching_access:
  assumes "searching (pcs s t)" "reachable (2 ^ k) d0 s" "1 \<le> k" "k \<le> 61" "length (hist s) < 2 ^ 62"
  shows "hist (thread_step t ok s) = hist s \<and>
    ((searching (pcs (thread_step t ok s) t) \<or> pcs (thread_step t ok s) t = PopDone None) \<and>
       taken (thread_step t ok s) = taken s \<or>
     pcs (thread_step t ok s) t = PopRead (of_nat (taken s)) \<and> taken (thread_step t ok s) = Suc (taken s))"
proof -
  obtain r where "refines k s r" "ring_inv (2 ^ k) r" using reachable_ring [OF assms(2-5)] by blast
  then have "dequeue_pos (queue s) = of_nat (taken s)" by (simp add: refines_def)
  then show ?thesis using assms(1)
    by (cases "pcs s t") (auto simp: thread_step_def ghost_hist_def ghost_taken_def Let_def)
qed

lemma read_access:
  assumes "pcs s t = PopRead (of_nat j)" "j < 2 ^ 62"
    and "reachable (2 ^ k) d0 s" "1 \<le> k" "k \<le> 61" "length (hist s) < 2 ^ 62"
  shows "taken (thread_step t ok s) = taken s \<and> hist (thread_step t ok s) = hist s \<and>
    pcs (thread_step t ok s) t = PopStore (of_nat j) (hist s ! j)"
proof -
  obtain r where r: "refines k s r" "ring_inv (2 ^ k) r" using reachable_ring [OF assms(3-6)] by blast
  obtain i where i: "rpcs r t = PopRead i" "(of_nat j :: u64) = of_nat i"
    using refines_pc(6) [OF r(1) assms(1)] by blast
  then have p: "popping r t i" by (simp add: popping_def)
  have "i < 2 ^ 62" using ring_invD(5) [OF r(2) p] ring_fifo [OF r] ring_invD(2) [OF r(2)] assms(6) by simp
  then have "i = j" using pos_eq [of j i] i(2) assms(2) by simp
  then have "data_of (queue s) (of_nat j) = hist s ! j"
    using refines_access(3) [OF r(1) _ assms(5), of j] ring_invD(5) [OF r(2) p] ring_fifo(3) [OF r] assms(2) by simp
  then show ?thesis using assms(1) by (simp add: thread_step_def ghost_hist_def ghost_taken_def)
qed

lemma start_simps [simp]:
  "hist (start_push t d q) = hist q" "taken (start_push t d q) = taken q"
  "pcs (start_push t d q) = (pcs q)(t := PushLoad d)" "queue (start_push t d q) = queue q"
  "hist (start_pop t q) = hist q" "taken (start_pop t q) = taken q"
  "pcs (start_pop t q) = (pcs q)(t := PopLoad)" "queue (start_pop t q) = queue q"
  by (simp_all add: start_push_def start_pop_def)

lemma start_reachable:
  "reachable cap d q \<Longrightarrow> finished (pcs q t) \<Longrightarrow> reachable cap d (start_push t x q)"
  "reachable cap d q \<Longrightarrow> finished (pcs q t) \<Longrightarrow> reachable cap d (start_pop t q)"
  "reachable cap d q \<Longrightarrow> reachable cap d (thread_step t ok q)"
  by (auto simp: start_push_def start_pop_def intro: reachable.step sys_step.intros)

section \<open>One step of a worker\<close>

definition dissects :: "('d, 's) capture_env \<Rightarrow> raw_packet \<Rightarrow> packet_info \<Rightarrow> bool" where
  "dissects env raw info \<longleftrightarrow> (\<exists>junk. wf_info junk \<and> dissect_raw_packet (env_fp env) raw junk = Some info)"

text \<open>A worker carries a packet from the moment its pop has taken a position to the moment its push
  has appended the result.\<close>

fun carries :: "worker_loc \<Rightarrow> (raw_packet, u64) pc \<Rightarrow> (packet_info, u64) pc \<Rightarrow> bool" where
  "carries W_Pop p q \<longleftrightarrow> \<not> searching p \<and> p \<noteq> PopDone None"
| "carries W_DrainPop p q \<longleftrightarrow> \<not> searching p \<and> p \<noteq> PopDone None"
| "carries (W_Push i) p q \<longleftrightarrow> pending q \<noteq> None \<or> q = PushDone False"
| "carries (W_DrainPush i) p q \<longleftrightarrow> pending q \<noteq> None \<or> q = PushDone False"
| "carries _ p q \<longleftrightarrow> False"

abbreviation carrying :: "'s pipeline \<Rightarrow> nat \<Rightarrow> bool" where
  "carrying s t \<equiv> carries (worker s t) (pcs (raw_queue s) t) (pcs (dissected_queue s) t)"

text \<open>What holds at each point of a worker that last took position \<^term>\<open>j\<close> of the pushes \<^term>\<open>h\<close>.\<close>

definition pop_ok :: "raw_packet list \<Rightarrow> nat \<Rightarrow> (raw_packet, u64) pc \<Rightarrow> bool" where
  "pop_ok h j p \<longleftrightarrow> searching p \<or> p = PopDone None \<or> p = PopRead (of_nat j) \<or> p = PopStore (of_nat j) (h ! j) \<or>
     p = PopDone (Some (h ! j))"

definition push_ok :: "packet_info \<Rightarrow> (packet_info, u64) pc \<Rightarrow> bool" where
  "push_ok i q \<longleftrightarrow> pending q = Some i \<or> placed q \<or> (\<exists>b. q = PushDone b)"

fun worker_ok :: "('d, 's) capture_env \<Rightarrow> raw_packet list \<Rightarrow> nat \<Rightarrow> worker_loc \<Rightarrow> (raw_packet, u64) pc \<Rightarrow> (packet_info, u64) pc \<Rightarrow> bool" where
  "worker_ok env h j W_Pop p q \<longleftrightarrow> pop_ok h j p \<and> finished q"
| "worker_ok env h j W_DrainPop p q \<longleftrightarrow> pop_ok h j p \<and> finished q"
| "worker_ok env h j (W_Push i) p q \<longleftrightarrow> finished p \<and> push_ok i q \<and>
     (pending q \<noteq> None \<or> q = PushDone False \<longrightarrow> dissects env (h ! j) i)"
| "worker_ok env h j (W_DrainPush i) p q \<longleftrightarrow> finished p \<and> push_ok i q \<and>
     (pending q \<noteq> None \<or> q = PushDone False \<longrightarrow> dissects env (h ! j) i)"
| "worker_ok env h j _ p q \<longleftrightarrow> finished p \<and> finished q"

abbreviation at_worker :: "('d, 's) capture_env \<Rightarrow> 's pipeline \<Rightarrow> nat \<Rightarrow> nat \<Rightarrow> bool" where
  "at_worker env s j t \<equiv> worker_ok env (hist (raw_queue s)) j (worker s t) (pcs (raw_queue s) t) (pcs (dissected_queue s) t)"

text \<open>What a step of worker \<^term>\<open>t\<close> leaves alone.\<close>

definition worker_frame :: "nat \<Rightarrow> 's pipeline \<Rightarrow> 's pipeline \<Rightarrow> bool" where
  "worker_frame t s s' \<longleftrightarrow> keep_running s' = keep_running s \<and> ctx_ssl s' = ctx_ssl s \<and> last_ts s' = last_ts s \<and>
     capture s' = capture s \<and> sender s' = sender s \<and> frames s' = frames s \<and>
     hist (raw_queue s') = hist (raw_queue s) \<and> taken (dissected_queue s') = taken (dissected_queue s) \<and>
     (\<forall>t'. t' \<noteq> t \<longrightarrow> worker s' t' = worker s t' \<and> pcs (raw_queue s') t' = pcs (raw_queue s) t' \<and>
        pcs (dissected_queue s') t' = pcs (dissected_queue s) t')"

definition quiet_event :: "('d, 's) capture_env \<Rightarrow> nat \<Rightarrow> nat \<Rightarrow> 's pipeline \<Rightarrow> 's pipeline \<Rightarrow> bool" where
  "quiet_event env j t s s' \<longleftrightarrow> taken (raw_queue s') = taken (raw_queue s) \<and>
     hist (dissected_queue s') = hist (dissected_queue s) \<and> at_worker env s' j t \<and> (carrying s' t \<longrightarrow> carrying s t)"

definition take_event :: "('d, 's) capture_env \<Rightarrow> nat \<Rightarrow> 's pipeline \<Rightarrow> 's pipeline \<Rightarrow> bool" where
  "take_event env t s s' \<longleftrightarrow> taken (raw_queue s') = Suc (taken (raw_queue s)) \<and>
     hist (dissected_queue s') = hist (dissected_queue s) \<and> at_worker env s' (taken (raw_queue s)) t \<and>
     \<not> carrying s t \<and> carrying s' t"

definition give_event :: "('d, 's) capture_env \<Rightarrow> nat \<Rightarrow> nat \<Rightarrow> 's pipeline \<Rightarrow> 's pipeline \<Rightarrow> bool" where
  "give_event env j t s s' \<longleftrightarrow> taken (raw_queue s') = taken (raw_queue s) \<and>
     (\<exists>i. hist (dissected_queue s') = hist (dissected_queue s) @ [i] \<and> dissects env (hist (raw_queue s) ! j) i) \<and>
     at_worker env s' j t \<and> carrying s t \<and> \<not> carrying s' t"

lemma pending_finished: "pending p = Some d \<Longrightarrow> \<not> finished p" "placed p \<Longrightarrow> \<not> finished p"
    "searching p \<Longrightarrow> \<not> finished p" "pending p = Some d \<Longrightarrow> \<not> placed p"
    "pending p = Some d \<Longrightarrow> p \<noteq> PushDone b" "placed p \<Longrightarrow> p \<noteq> PushDone b" "searching p \<Longrightarrow> p \<noteq> PopDone x"
    "placed p \<Longrightarrow> pending p = None"
  by (cases p; simp)+

text \<open>Inside the pop of a worker: an access.\<close>

lemma raw_access_event:
  assumes ok: "pop_ok (hist (raw_queue s)) j (pcs (raw_queue s) t)" "\<not> finished (pcs (raw_queue s) t)"
    and loc: "worker s t = W_Pop \<or> worker s t = W_DrainPop" "finished (pcs (dissected_queue s) t)"
    and j: "carrying s t \<longrightarrow> j < taken (raw_queue s)"
    and q: "reachable (2 ^ k) d0 (raw_queue s)" "1 \<le> k" "k \<le> 61" "length (hist (raw_queue s)) < 2 ^ 62"
    and s': "s' = s\<lparr>raw_queue := thread_step t b (raw_queue s)\<rparr>"
  shows "worker_frame t s s' \<and> (quiet_event env j t s s' \<or> take_event env t s s')"
proof -
  note defs = worker_frame_def quiet_event_def take_event_def pop_ok_def s'
  obtain r where r: "refines k (raw_queue s) r" "ring_inv (2 ^ k) r" using reachable_ring [OF q] by blast
  have small: "taken (raw_queue s) < 2 ^ 62" using ring_fifo [OF r] ring_invD(2) [OF r(2)] q(4) by simp
  consider (search) "searching (pcs (raw_queue s) t)" | (read) "pcs (raw_queue s) t = PopRead (of_nat j)"
    | (store) "pcs (raw_queue s) t = PopStore (of_nat j) (hist (raw_queue s) ! j)"
    using ok by (auto simp: pop_ok_def)
  then show ?thesis
  proof cases
    case search
    from searching_access [OF this q, of b] show ?thesis using search loc by (auto simp: defs)
  next
    case read
    then have "j < 2 ^ 62" using j loc small by auto
    from read_access [OF read this q, of b] show ?thesis using read loc by (auto simp: defs)
  next
    case store
    from store_access [OF this, of b] show ?thesis using store loc by (auto simp: defs)
  qed
qed

text \<open>Inside the push of a worker: an access.\<close>

lemma dissected_access_event:
  assumes ok: "push_ok i (pcs (dissected_queue s) t)" "\<not> finished (pcs (dissected_queue s) t)"
    and loc: "worker s t = W_Push i \<or> worker s t = W_DrainPush i" "finished (pcs (raw_queue s) t)"
    and i: "carrying s t \<longrightarrow> dissects env (hist (raw_queue s) ! j) i"
    and s': "s' = s\<lparr>dissected_queue := thread_step t b (dissected_queue s)\<rparr>"
  shows "worker_frame t s s' \<and> (quiet_event env j t s s' \<or> give_event env j t s s')"
proof -
  note defs = worker_frame_def quiet_event_def give_event_def push_ok_def s'
  consider (pending) "pending (pcs (dissected_queue s) t) = Some i" | (placed) "placed (pcs (dissected_queue s) t)"
    using ok by (auto simp: push_ok_def)
  then show ?thesis
  proof cases
    case pending
    consider (again) "pending (pcs (dissected_queue s') t) = Some i \<or> pcs (dissected_queue s') t = PushDone False"
        "hist (dissected_queue s') = hist (dissected_queue s)"
      | (append) "placed (pcs (dissected_queue s') t)" "hist (dissected_queue s') = hist (dissected_queue s) @ [i]"
      using pending_access [OF pending, of b] by (auto simp: s')
    then show ?thesis
    proof cases
      case again
      then have "worker_frame t s s' \<and> quiet_event env j t s s'" using pending_access [OF pending, of b] pending loc i
        by (auto simp: defs)
      then show ?thesis by blast
    next
      case append
      then have "worker_frame t s s' \<and> give_event env j t s s'"
        using pending_access [OF pending, of b] pending loc i pending_finished(6,8) [OF append(1)]
        by (auto simp: defs)
      then show ?thesis by blast
    qed
  next
    case placed
    then have "worker_frame t s s' \<and> quiet_event env j t s s'"
      using placed_access [OF placed, of b] loc i pending_finished(8) [of "pcs (dissected_queue s') t"]
        pending_finished(6) [of "pcs (dissected_queue s') t" False] by (auto simp: defs)
    then show ?thesis by blast
  qed
qed

text \<open>A step of a worker between two accesses.\<close>

lemma worker_dissect_event:
  assumes "pcs (raw_queue s) t = PopDone (Some (hist (raw_queue s) ! j))" "finished (pcs (dissected_queue s) t)"
    and "worker s t = W_Pop \<and> loc = W_Push \<or> worker s t = W_DrainPop \<and> loc = W_DrainPush" "wf_info junk"
    and "s' = worker_dissect env t junk (hist (raw_queue s) ! j) loc s"
  shows "worker_frame t s s' \<and> quiet_event env j t s s'"
proof (cases "dissect_raw_packet (env_fp env) (hist (raw_queue s) ! j) junk")
  case None
  then show ?thesis using assms by (auto simp: worker_dissect_def worker_frame_def quiet_event_def)
next
  case (Some info)
  then have "dissects env (hist (raw_queue s) ! j) info" using assms(4) by (auto simp: dissects_def)
  then show ?thesis using assms Some
    by (auto simp: worker_dissect_def worker_frame_def quiet_event_def push_ok_def)
qed

lemma worker_pop_event:
  assumes loc: "worker s t = W_Pop \<or> worker s t = W_DrainPop"
    and ok: "at_worker env s j t" "wf_info junk"
    and j: "carrying s t \<longrightarrow> j < taken (raw_queue s)"
    and q: "reachable (2 ^ k) d0 (raw_queue s)" "1 \<le> k" "k \<le> 61" "length (hist (raw_queue s)) < 2 ^ 62"
    and s': "s' = worker_step env t b junk s"
  shows "worker_frame t s s' \<and> (quiet_event env j t s s' \<or> take_event env t s s')"
proof -
  have p: "pop_ok (hist (raw_queue s)) j (pcs (raw_queue s) t)" "finished (pcs (dissected_queue s) t)"
    using loc ok(1) by auto
  define loc' where "loc' = (if worker s t = W_Pop then W_Push else W_DrainPush)"
  show ?thesis
  proof (cases "finished (pcs (raw_queue s) t)")
    case True
    then consider "pcs (raw_queue s) t = PopDone None" | "pcs (raw_queue s) t = PopDone (Some (hist (raw_queue s) ! j))"
      using p(1) by (auto simp: pop_ok_def pending_finished)
    then show ?thesis
    proof cases
      case 1
      then show ?thesis using p(2) loc
        by (auto simp: s' worker_step_def worker_frame_def quiet_event_def)
    next
      case 2
      have "s' = worker_dissect env t junk (hist (raw_queue s) ! j) loc' s"
        using loc 2 by (auto simp: s' worker_step_def loc'_def)
      from worker_dissect_event [OF 2 p(2) _ ok(2) this] show ?thesis using loc by (auto simp: loc'_def)
    qed
  next
    case False
    then have "s' = s\<lparr>raw_queue := thread_step t b (raw_queue s)\<rparr>"
      using loc by (auto simp: s' worker_step_def split: pc.splits)
    from raw_access_event [OF p(1) False loc p(2) j q this] show ?thesis .
  qed
qed

lemma worker_push_event:
  assumes loc: "worker s t = W_Push i \<or> worker s t = W_DrainPush i" and ok: "at_worker env s j t"
    and s': "s' = worker_step env t b junk s"
  shows "worker_frame t s s' \<and> (quiet_event env j t s s' \<or> give_event env j t s s')"
proof -
  have p: "push_ok i (pcs (dissected_queue s) t)" "finished (pcs (raw_queue s) t)"
    "carrying s t \<longrightarrow> dissects env (hist (raw_queue s) ! j) i"
    using loc ok by auto
  show ?thesis
  proof (cases "finished (pcs (dissected_queue s) t)")
    case True
    then obtain c where c: "pcs (dissected_queue s) t = PushDone c"
      using p(1) by (auto simp: push_ok_def pending_finished)
    then have "worker_frame t s s' \<and> quiet_event env j t s s'" using p(2,3) loc
      by (cases c) (auto simp: s' worker_step_def worker_frame_def quiet_event_def push_ok_def pop_ok_def)
    then show ?thesis by blast
  next
    case False
    then have "s' = s\<lparr>dissected_queue := thread_step t b (dissected_queue s)\<rparr>"
      using loc by (auto simp: s' worker_step_def split: pc.splits)
    from dissected_access_event [OF p(1) False loc p(2,3) this] show ?thesis .
  qed
qed

lemma worker_step_event:
  assumes ok: "at_worker env s j t" "wf_info junk"
    and j: "carrying s t \<longrightarrow> j < taken (raw_queue s)"
    and q: "reachable (2 ^ k) d0 (raw_queue s)" "1 \<le> k" "k \<le> 61" "length (hist (raw_queue s)) < 2 ^ 62"
    and s': "s' = worker_step env t b junk s"
  shows "worker_frame t s s' \<and> (quiet_event env j t s s' \<or> take_event env t s s' \<or> give_event env j t s s')"
proof (cases "worker s t")
  case W_Loop
  then show ?thesis using ok by (auto simp: s' worker_step_def worker_frame_def quiet_event_def pop_ok_def)
next
  case W_Pop
  then show ?thesis using worker_pop_event [OF _ ok j q s'] by blast
next
  case W_DrainPop
  then show ?thesis using worker_pop_event [OF _ ok j q s'] by blast
next
  case (W_Push i)
  then show ?thesis using worker_push_event [OF _ ok(1) s'] by blast
next
  case (W_DrainPush i)
  then show ?thesis using worker_push_event [OF _ ok(1) s'] by blast
qed (use ok in \<open>auto simp: s' worker_step_def worker_frame_def quiet_event_def\<close>)

section \<open>One step of the sender\<close>

text \<open>What holds at each point of the sender when the first \<^term>\<open>m\<close> of the pushes \<^term>\<open>h\<close> are on the
  connection and \<^term>\<open>n\<close> positions of the queue are taken.\<close>

fun sender_ok :: "packet_info list \<Rightarrow> nat \<Rightarrow> nat \<Rightarrow> sender_loc \<Rightarrow> (packet_info, u64) pc \<Rightarrow> bool" where
  "sender_ok h m n (S_Send i) p \<longleftrightarrow> finished p \<and> n = Suc m \<and> i = h ! m"
| "sender_ok h m n (S_DrainSend i) p \<longleftrightarrow> finished p \<and> n = Suc m \<and> i = h ! m"
| "sender_ok h m n S_Loop p \<longleftrightarrow> finished p \<and> n = m"
| "sender_ok h m n S_Done p \<longleftrightarrow> finished p \<and> n = m"
| "sender_ok h m n _ p \<longleftrightarrow> n = m \<and> (searching p \<or> p = PopDone None) \<or>
     n = Suc m \<and> (p = PopRead (of_nat m) \<or> p = PopStore (of_nat m) (h ! m) \<or> p = PopDone (Some (h ! m)))"

abbreviation at_sender :: "'s pipeline \<Rightarrow> nat \<Rightarrow> bool" where
  "at_sender s m \<equiv> sender_ok (hist (dissected_queue s)) m (taken (dissected_queue s)) (sender s)
     (pcs (dissected_queue s) num_workers)"

definition sender_frame :: "'s pipeline \<Rightarrow> 's pipeline \<Rightarrow> bool" where
  "sender_frame s s' \<longleftrightarrow> keep_running s' = keep_running s \<and> last_ts s' = last_ts s \<and>
     capture s' = capture s \<and> worker s' = worker s \<and> frames s' = frames s \<and> raw_queue s' = raw_queue s \<and>
     hist (dissected_queue s') = hist (dissected_queue s) \<and>
     (\<forall>t. t \<noteq> num_workers \<longrightarrow> pcs (dissected_queue s') t = pcs (dissected_queue s) t)"

text \<open>Either nothing new is on the connection or the next element of the queue is.\<close>

definition sender_event :: "('d, 's) capture_env \<Rightarrow> nat \<Rightarrow> 's pipeline \<Rightarrow> 's pipeline \<Rightarrow> bool" where
  "sender_event env m s s' \<longleftrightarrow> ctx_ssl s' = ctx_ssl s \<and> at_sender s' m \<or>
     sender_send env (hist (dissected_queue s) ! m) s = Some (ctx_ssl s') \<and> at_sender s' (Suc m)"

lemma sender_step_event:
  assumes ok: "at_sender s m"
    and q: "reachable (2 ^ k) d0 (dissected_queue s)" "1 \<le> k" "k \<le> 61" "length (hist (dissected_queue s)) < 2 ^ 62"
    and s': "s' = sender_step env b s"
  shows "sender_frame s s' \<and> sender_event env m s s'"
proof -
  let ?p = "pcs (dissected_queue s) num_workers"
  note defs = sender_frame_def sender_event_def s' sender_step_def
  obtain r where r: "refines k (dissected_queue s) r" "ring_inv (2 ^ k) r" using reachable_ring [OF q] by blast
  have small: "m < 2 ^ 62" if "taken (dissected_queue s) = Suc m"
    using that ring_fifo [OF r] ring_invD(2) [OF r(2)] q(4) by simp
  have pop: ?thesis if loc: "sender s = S_Pop \<or> sender s = S_DrainPop"
  proof -
    consider (search) "searching ?p" "taken (dissected_queue s) = m"
      | (read) "?p = PopRead (of_nat m)" "taken (dissected_queue s) = Suc m"
      | (store) "?p = PopStore (of_nat m) (hist (dissected_queue s) ! m)" "taken (dissected_queue s) = Suc m"
      | (nothing) "?p = PopDone None" "taken (dissected_queue s) = m"
        | (got) "?p = PopDone (Some (hist (dissected_queue s) ! m))" "taken (dissected_queue s) = Suc m"
      using ok loc by auto
    then show ?thesis
    proof cases
      case search
      then have "s' = s\<lparr>dissected_queue := thread_step num_workers b (dissected_queue s)\<rparr>"
        using loc by (auto simp: s' sender_step_def split: pc.splits)
      then show ?thesis using searching_access [OF search(1) q, of b] search(2) loc
        by (auto simp: sender_frame_def sender_event_def)
    next
      case read
      then show ?thesis using read_access [OF read(1) small [OF read(2)] q, of b] loc by (auto simp: defs)
    next
      case store
      then show ?thesis using store_access [OF store(1), of b] loc by (auto simp: defs)
    qed (use loc in \<open>auto simp: defs\<close>)
  qed
  show ?thesis
  proof (cases "sender s")
    case (S_Send i)
    then show ?thesis using ok by (auto simp: defs split: option.splits)
  next
    case (S_DrainSend i)
    then show ?thesis using ok by (auto simp: defs split: option.splits)
  qed (use ok pop in \<open>auto simp: defs\<close>)
qed

section \<open>The capture thread\<close>

text \<open>The pushed packets are those of the handler, in their order; one may be on its way.\<close>

fun capture_ok :: "raw_packet list \<Rightarrow> raw_packet list \<Rightarrow> capture_loc \<Rightarrow> (raw_packet, u64) pc \<Rightarrow> bool" where
  "capture_ok h fs C_Push p \<longleftrightarrow> (\<exists>d. pending p = Some d \<and> subseq (h @ [d]) fs) \<or>
     (placed p \<or> (\<exists>b. p = PushDone b)) \<and> subseq h fs"
| "capture_ok h fs _ p \<longleftrightarrow> finished p \<and> subseq h fs"

abbreviation at_capture :: "'s pipeline \<Rightarrow> bool" where
  "at_capture s \<equiv> capture_ok (hist (raw_queue s)) (frames s) (capture s) (pcs (raw_queue s) num_workers) \<and>
     (\<forall>f \<in> set (frames s). wf_raw f)"

definition capture_frame :: "'s pipeline \<Rightarrow> 's pipeline \<Rightarrow> bool" where
  "capture_frame s s' \<longleftrightarrow> ctx_ssl s' = ctx_ssl s \<and> worker s' = worker s \<and> sender s' = sender s \<and>
     dissected_queue s' = dissected_queue s \<and> taken (raw_queue s') = taken (raw_queue s) \<and>
     prefix (hist (raw_queue s)) (hist (raw_queue s')) \<and>
     (\<forall>t. t \<noteq> num_workers \<longrightarrow> pcs (raw_queue s') t = pcs (raw_queue s) t)"

lemma handler_raw_wf:
  "handler_raw lt junk h packet = Some raw \<Longrightarrow> length junk = MAX_PAYLOAD_SIZE \<Longrightarrow> wf_raw raw"
  by (auto simp: handler_raw_def Let_def rd_bytes_def wr_bytes_def wf_raw_def bind_eq_Some_conv split: if_splits)

lemma subseq_init: "subseq (h @ [d]) fs \<Longrightarrow> subseq h fs"
  by (metis prefixI prefix_imp_subseq subseq_order.trans)

lemma packet_handler_event:
  assumes "at_capture s" "capture s = C_Loop" "length junk = MAX_PAYLOAD_SIZE" "s' = packet_handler h packet junk s"
  shows "capture_frame s s' \<and> at_capture s'"
  using assms handler_raw_wf [of "last_ts s" junk h packet]
  by (auto simp: packet_handler_def capture_frame_def split: option.splits)

lemma capture_step_event:
  assumes ok: "at_capture s" and s': "s' = capture_step b s"
  shows "capture_frame s s' \<and> at_capture s'"
proof -
  let ?p = "pcs (raw_queue s) num_workers"
  note defs = capture_frame_def s' capture_step_def
  show ?thesis
  proof (cases "capture s")
    case C_Push
    consider (pending) d where "pending ?p = Some d" "subseq (hist (raw_queue s) @ [d]) (frames s)"
      | (placed) "placed ?p" "subseq (hist (raw_queue s)) (frames s)"
        | (returned) c where "?p = PushDone c" "subseq (hist (raw_queue s)) (frames s)"
      using ok C_Push by auto
    then show ?thesis
    proof cases
      case pending
      then have "s' = s\<lparr>raw_queue := thread_step num_workers b (raw_queue s)\<rparr>"
        using C_Push by (auto simp: s' capture_step_def split: pc.splits)
      then show ?thesis using pending_access [OF pending(1), of b] pending(2) ok C_Push subseq_init [OF pending(2)]
        by (auto simp: capture_frame_def)
    next
      case placed
      then have "s' = s\<lparr>raw_queue := thread_step num_workers b (raw_queue s)\<rparr>"
        using C_Push by (auto simp: s' capture_step_def split: pc.splits)
      then show ?thesis using placed_access [OF placed(1), of b] placed(2) ok C_Push
        by (auto simp: capture_frame_def)
    next
      case returned
      then show ?thesis using ok C_Push by (auto simp: defs)
    qed
  qed (use ok in \<open>auto simp: defs\<close>)
qed

section \<open>The invariant\<close>

text \<open>Every element of the dissected queue, and every packet that a worker carries, comes from a
  position of the raw queue of its own: \<^term>\<open>src ! n\<close> is the one of element \<^term>\<open>n\<close>, \<^term>\<open>wp t\<close>
  the one that worker \<^term>\<open>t\<close> took last.\<close>

definition traced :: "('d, 's) capture_env \<Rightarrow> nat list \<Rightarrow> (nat \<Rightarrow> nat) \<Rightarrow> 's pipeline \<Rightarrow> bool" where
  "traced env src wp s \<longleftrightarrow>
     length src = length (hist (dissected_queue s)) \<and> distinct src \<and>
     (\<forall>j \<in> set src. j < taken (raw_queue s)) \<and>
     (\<forall>n < length src. dissects env (hist (raw_queue s) ! (src ! n)) (hist (dissected_queue s) ! n)) \<and>
     (\<forall>t < num_workers. carrying s t \<longrightarrow> wp t < taken (raw_queue s) \<and> wp t \<notin> set src) \<and>
     (\<forall>t < num_workers. \<forall>t' < num_workers. carrying s t \<longrightarrow> carrying s t' \<longrightarrow> wp t = wp t' \<longrightarrow> t = t')"

definition pipe_inv ::
  "('d, 's) capture_env \<Rightarrow> nat \<Rightarrow> raw_packet \<Rightarrow> packet_info \<Rightarrow> nat list \<Rightarrow> (nat \<Rightarrow> nat) \<Rightarrow> nat \<Rightarrow> 's pipeline \<Rightarrow> bool" where
  "pipe_inv env cap r i src wp m s \<longleftrightarrow>
     reachable cap r (raw_queue s) \<and> reachable cap i (dissected_queue s) \<and>
     (\<forall>t < num_workers. at_worker env s (wp t) t) \<and> at_sender s m \<and> at_capture s \<and> traced env src wp s"

lemma pipe_inv_init: "pipe_inv env cap r i [] (\<lambda>_. 0) 0 (pipe_init cap r i ssl)"
  by (simp add: pipe_inv_def traced_def pipe_init_def reachable.start lfq_init_def [THEN arg_cong, of pcs]
      lfq_init_def [THEN arg_cong, of hist] lfq_init_def [THEN arg_cong, of taken])

text \<open>The queues only see calls that the threads may make.\<close>

lemma worker_step_reachable:
  assumes "at_worker env s j t" "reachable cap r (raw_queue s)" "reachable cap i (dissected_queue s)"
  shows "reachable cap r (raw_queue (worker_step env t b junk s)) \<and>
    reachable cap i (dissected_queue (worker_step env t b junk s))"
  using assms
  by (cases "worker s t")
     (auto simp: worker_step_def worker_dissect_def intro: start_reachable split: pc.splits option.splits bool.splits)

lemma sender_step_reachable:
  assumes "at_sender s m" "reachable cap i (dissected_queue s)"
  shows "reachable cap i (dissected_queue (sender_step env b s))"
  using assms
  by (cases "sender s")
     (auto simp: sender_step_def intro: start_reachable split: pc.splits option.splits)

lemma capture_step_reachable:
  assumes "reachable cap r (raw_queue s)"
  shows "reachable cap r (raw_queue (capture_step b s))"
  using assms by (auto simp: capture_step_def intro: start_reachable split: capture_loc.splits pc.splits)

lemma packet_handler_reachable:
  assumes "reachable cap r (raw_queue s)" "at_capture s" "capture s = C_Loop"
  shows "reachable cap r (raw_queue (packet_handler h packet junk s))"
  using assms by (auto simp: packet_handler_def intro: start_reachable split: option.splits)

text \<open>More pushes change nothing for the packets already taken.\<close>

lemma worker_ok_mono:
  assumes "worker_ok env h j loc p q" "prefix h h'" "carries loc p q \<Longrightarrow> j < length h"
  shows "worker_ok env h' j loc p q"
proof -
  have "h' ! j = h ! j" if "carries loc p q" using assms(2,3) that by (auto simp: prefix_def nth_append)
  then show ?thesis using assms(1) by (cases loc) (auto simp: pop_ok_def)
qed

lemma sender_ok_mono:
  assumes "sender_ok h m n loc p" "prefix h h'" "n \<le> length h"
  shows "sender_ok h' m n loc p"
proof -
  have "h' ! m = h ! m" if "n = Suc m" using assms(2,3) that by (auto simp: prefix_def nth_append)
  then show ?thesis using assms(1) by (cases loc) auto
qed

lemma traced_bound: "traced env src wp s \<Longrightarrow> length (hist (dissected_queue s)) \<le> taken (raw_queue s)"
  using card_mono [of "{..<taken (raw_queue s)}" "set src"] unfolding traced_def
  by (auto simp: distinct_card [symmetric] subset_iff)

text \<open>The packets stay apart under the events of a worker.\<close>

lemma traced_quiet:
  assumes "traced env src wp s" "worker_frame t s s'" "quiet_event env (wp t) t s s'"
  shows "traced env src wp s'"
proof -
  have c: "carrying s' t' \<Longrightarrow> carrying s t'" for t'
    using assms(2,3) by (cases "t' = t") (auto simp: worker_frame_def quiet_event_def)
  then show ?thesis using assms unfolding traced_def worker_frame_def quiet_event_def by auto
qed

lemma traced_take:
  assumes "traced env src wp s" "worker_frame t s s'" "take_event env t s s'"
  shows "traced env src (wp(t := taken (raw_queue s))) s'"
proof -
  have c: "carrying s' t' \<longleftrightarrow> carrying s t'" if "t' \<noteq> t" for t'
    using assms(2) that by (auto simp: worker_frame_def)
  have "carrying s t' \<Longrightarrow> t' < num_workers \<Longrightarrow> wp t' < taken (raw_queue s)" "j \<in> set src \<Longrightarrow> j < taken (raw_queue s)" for t' j
    using assms(1) by (auto simp: traced_def)
  then show ?thesis using assms c unfolding traced_def worker_frame_def take_event_def
    by (auto simp: less_Suc_eq)
qed

lemma traced_give:
  assumes tr: "traced env src wp s" and fr: "worker_frame t s s'" and ev: "give_event env (wp t) t s s'" and t: "t < num_workers"
  shows "traced env (src @ [wp t]) wp s'"
proof -
  have c: "carrying s' t' \<Longrightarrow> carrying s t' \<and> t' \<noteq> t" for t'
    using fr ev by (cases "t' = t") (auto simp: worker_frame_def give_event_def)
  obtain i where i: "hist (dissected_queue s') = hist (dissected_queue s) @ [i]"
      "dissects env (hist (raw_queue s) ! wp t) i"
    and same: "taken (raw_queue s') = taken (raw_queue s)" "hist (raw_queue s') = hist (raw_queue s)" "carrying s t"
    using ev fr by (auto simp: give_event_def worker_frame_def)
  have new: "wp t < taken (raw_queue s)" "wp t \<notin> set src" using tr same(3) t by (auto simp: traced_def)
  have "dissects env (hist (raw_queue s') ! ((src @ [wp t]) ! n)) (hist (dissected_queue s') ! n)"
    if "n < length (src @ [wp t])" for n
    using that tr i unfolding same traced_def by (cases "n < length src") (auto simp: nth_append less_Suc_eq)
  moreover have "wp t' \<noteq> wp t" if "carrying s' t'" "t' < num_workers" for t'
    using c [OF that(1)] tr same(3) t that(2) unfolding traced_def by blast
  ultimately show ?thesis using tr new c unfolding traced_def i(1) same by simp
qed

lemma traced_capture:
  assumes "traced env src wp s" "capture_frame s s'" "taken (raw_queue s) \<le> length (hist (raw_queue s))"
  shows "traced env src wp s'"
proof -
  have "hist (raw_queue s') ! j = hist (raw_queue s) ! j" if "j < taken (raw_queue s)" for j
    using assms(2,3) that by (auto simp: capture_frame_def prefix_def nth_append)
  then have "hist (raw_queue s') ! (src ! n) = hist (raw_queue s) ! (src ! n)" if "n < length src" for n
    using assms(1) that by (auto simp: traced_def)
  moreover have "carrying s' t \<longleftrightarrow> carrying s t" if "t < num_workers" for t
    using assms(2) that by (auto simp: capture_frame_def)
  ultimately show ?thesis using assms(1,2) unfolding traced_def capture_frame_def by auto
qed

lemma reachable_taken:
  assumes "reachable (2 ^ k) d s" "1 \<le> k" "k \<le> 61" "length (hist s) < 2 ^ 62"
  shows "taken s \<le> length (hist s)"
proof -
  obtain r where "refines k s r" "ring_inv (2 ^ k) r" using reachable_ring [OF assms] by blast
  then show ?thesis using ring_fifo [of k s r] ring_invD(2) [of "2 ^ k" r] by simp
qed

lemma worker_keeps_inv:
  assumes inv: "pipe_inv env (2 ^ k) r i src wp m s" and k: "1 \<le> k" "k \<le> 61"
    and small: "length (hist (raw_queue s)) < 2 ^ 62" and t: "t < num_workers" "wf_info junk"
    and s': "s' = worker_step env t b junk s"
  shows "(\<exists>src' wp'. pipe_inv env (2 ^ k) r i src' wp' m s') \<and> ctx_ssl s' = ctx_ssl s \<and>
    prefix (hist (dissected_queue s)) (hist (dissected_queue s'))"
proof -
  have q: "reachable (2 ^ k) r (raw_queue s)" "reachable (2 ^ k) i (dissected_queue s)"
    and w: "\<And>t. t < num_workers \<Longrightarrow> at_worker env s (wp t) t"
    and sc: "at_sender s m" "at_capture s" and tr: "traced env src wp s"
    using inv by (auto simp: pipe_inv_def)
  have b: "taken (raw_queue s) \<le> length (hist (raw_queue s))" by (rule reachable_taken [OF q(1) k small])
  then have "length (hist (dissected_queue s)) < 2 ^ 62" using traced_bound [OF tr] small by simp
  then have b2: "taken (dissected_queue s) \<le> length (hist (dissected_queue s))" by (rule reachable_taken [OF q(2) k])
  have j: "carrying s t \<longrightarrow> wp t < taken (raw_queue s)" using tr t(1) by (simp add: traced_def)
  have fr: "worker_frame t s s'"
    and ev: "quiet_event env (wp t) t s s' \<or> take_event env t s s' \<or> give_event env (wp t) t s s'"
    using worker_step_event [OF w [OF t(1)] t(2) j q(1) k small s'] by auto
  have pre: "prefix (hist (dissected_queue s)) (hist (dissected_queue s'))"
    using ev by (auto simp: quiet_event_def take_event_def give_event_def)
  have "num_workers \<noteq> t" using t(1) by simp
  then have sc': "at_sender s' m" "at_capture s'"
    using sc sender_ok_mono [OF sc(1) pre b2] fr by (simp_all add: worker_frame_def)
  have q': "reachable (2 ^ k) r (raw_queue s')" "reachable (2 ^ k) i (dissected_queue s')"
    using worker_step_reachable [OF w [OF t(1)] q] unfolding s' by auto
  have others: "at_worker env s' (wp t') t'" if "t' < num_workers" "t' \<noteq> t" for t'
    using w [OF that(1)] that(2) fr by (simp add: worker_frame_def)
  consider (quiet) "quiet_event env (wp t) t s s'" | (take) "take_event env t s s'" | (give) "give_event env (wp t) t s s'"
    using ev by blast
  then have "\<exists>src' wp'. pipe_inv env (2 ^ k) r i src' wp' m s'"
  proof cases
    case quiet
    then have "at_worker env s' (wp t') t'" if "t' < num_workers" for t'
      using others [OF that] by (cases "t' = t") (auto simp: quiet_event_def)
    then show ?thesis unfolding pipe_inv_def using traced_quiet [OF tr fr quiet] q' sc' by blast
  next
    case take
    define wp' where "wp' = wp(t := taken (raw_queue s))"
    have "at_worker env s' (wp' t') t'" if "t' < num_workers" for t'
      using others [OF that] take by (cases "t' = t") (auto simp: take_event_def wp'_def)
    then show ?thesis unfolding pipe_inv_def
      using traced_take [OF tr fr take, folded wp'_def] q' sc' by blast
  next
    case give
    then have "at_worker env s' (wp t') t'" if "t' < num_workers" for t'
      using others [OF that] by (cases "t' = t") (auto simp: give_event_def)
    then show ?thesis unfolding pipe_inv_def using traced_give [OF tr fr give t(1)] q' sc' by blast
  qed
  then show ?thesis using pre fr by (simp add: worker_frame_def)
qed

lemma sender_keeps_inv:
  assumes inv: "pipe_inv env (2 ^ k) r i src wp m s" and k: "1 \<le> k" "k \<le> 61"
    and small: "length (hist (raw_queue s)) < 2 ^ 62"
    and s': "s' = sender_step env b s"
  shows "(\<exists>m'. pipe_inv env (2 ^ k) r i src wp m' s' \<and> (m' = m \<and> ctx_ssl s' = ctx_ssl s \<or>
      m' = Suc m \<and> sender_send env (hist (dissected_queue s) ! m) s = Some (ctx_ssl s'))) \<and>
    hist (dissected_queue s') = hist (dissected_queue s)"
proof -
  have q: "reachable (2 ^ k) r (raw_queue s)" "reachable (2 ^ k) i (dissected_queue s)"
    and w: "\<And>t. t < num_workers \<Longrightarrow> at_worker env s (wp t) t"
    and sc: "at_sender s m" "at_capture s" and tr: "traced env src wp s"
    using inv by (auto simp: pipe_inv_def)
  have "taken (raw_queue s) \<le> length (hist (raw_queue s))" by (rule reachable_taken [OF q(1) k small])
  then have "length (hist (dissected_queue s)) < 2 ^ 62" using traced_bound [OF tr] small by simp
  then have fr: "sender_frame s s'" and ev: "sender_event env m s s'"
    using sender_step_event [OF sc(1) q(2) k _ s'] by auto
  have same: "pcs (dissected_queue s') t = pcs (dissected_queue s) t" if "t < num_workers" for t
    using that fr by (simp add: sender_frame_def)
  have rest: "raw_queue s' = raw_queue s" "worker s' = worker s" "hist (dissected_queue s') = hist (dissected_queue s)"
    "frames s' = frames s" "capture s' = capture s"
    using fr by (simp_all add: sender_frame_def)
  have "reachable (2 ^ k) i (dissected_queue s')" using sender_step_reachable [OF sc(1) q(2)] by (simp add: s')
  moreover have "\<forall>t < num_workers. at_worker env s' (wp t) t" using w same by (simp add: rest)
  moreover have "traced env src wp s'" using tr same unfolding traced_def rest by simp
  ultimately have "pipe_inv env (2 ^ k) r i src wp m' s'" if "at_sender s' m'" for m'
    using that q(1) sc(2) unfolding pipe_inv_def rest by simp
  then show ?thesis using ev rest(3) by (auto simp: sender_event_def)
qed

lemma capture_keeps_inv:
  assumes inv: "pipe_inv env (2 ^ k) r i src wp m s" and k: "1 \<le> k" "k \<le> 61"
    and small: "length (hist (raw_queue s)) < 2 ^ 62"
    and s': "capture_frame s s'" "at_capture s'" "reachable (2 ^ k) r (raw_queue s')"
  shows "pipe_inv env (2 ^ k) r i src wp m s'"
proof -
  have q: "reachable (2 ^ k) r (raw_queue s)" "reachable (2 ^ k) i (dissected_queue s)"
    and w: "\<And>t. t < num_workers \<Longrightarrow> at_worker env s (wp t) t"
    and sc: "at_sender s m" "at_capture s" and tr: "traced env src wp s"
    using inv by (auto simp: pipe_inv_def)
  have b: "taken (raw_queue s) \<le> length (hist (raw_queue s))" by (rule reachable_taken [OF q(1) k small])
  have rest: "worker s' = worker s" "dissected_queue s' = dissected_queue s" "sender s' = sender s"
    and same: "\<And>t. t < num_workers \<Longrightarrow> pcs (raw_queue s') t = pcs (raw_queue s) t"
    and pre: "prefix (hist (raw_queue s)) (hist (raw_queue s'))"
    using s'(1) by (auto simp: capture_frame_def)
  have "at_worker env s' (wp t) t" if "t < num_workers" for t
    using worker_ok_mono [OF w [OF that] pre] tr that b by (fastforce simp: rest same traced_def)
  then show ?thesis using traced_capture [OF tr s'(1) b] q(2) s'(2,3) sc(1) unfolding pipe_inv_def rest by blast
qed

lemma pipe_inv_step:
  assumes inv: "pipe_inv env (2 ^ k) r i src wp m s" and k: "1 \<le> k" "k \<le> 61"
    and small: "length (hist (raw_queue s)) < 2 ^ 62" and a: "admissible a" and s': "s' = pipe_step env a s"
  shows "(\<exists>src' wp' m'. pipe_inv env (2 ^ k) r i src' wp' m' s' \<and> (m' = m \<and> ctx_ssl s' = ctx_ssl s \<or>
      m' = Suc m \<and> sender_send env (hist (dissected_queue s) ! m) s = Some (ctx_ssl s') \<and>
        hist (dissected_queue s') = hist (dissected_queue s))) \<and>
    prefix (hist (dissected_queue s)) (hist (dissected_queue s'))"
proof -
  have q: "reachable (2 ^ k) r (raw_queue s)" and c: "at_capture s" using inv by (simp_all add: pipe_inv_def)
  have cap: ?thesis if "capture_frame s s'" "at_capture s'" "reachable (2 ^ k) r (raw_queue s')"
    using capture_keeps_inv [OF inv k small that] that(1) by (auto simp: capture_frame_def)
  show ?thesis
  proof (cases a)
    case (Frame h packet junk)
    show ?thesis
    proof (cases "capture s = C_Loop")
      case True
      then have e: "s' = packet_handler h packet junk s" using Frame s' by simp
      show ?thesis using cap packet_handler_event [OF c True _ e] packet_handler_reachable [OF q c True] a Frame e by simp
    next
      case False
      then have "s' = s" using Frame s' by simp
      then show ?thesis using inv by auto
    qed
  next
    case LoopReturns
    show ?thesis by (rule cap) (use LoopReturns s' c q in \<open>auto simp: capture_frame_def\<close>)
  next
    case Signal
    show ?thesis by (rule cap) (use Signal s' c q in \<open>auto simp: capture_frame_def signal_handler_def\<close>)
  next
    case (Capture b)
    then have e: "s' = capture_step b s" using s' by simp
    show ?thesis using cap capture_step_event [OF c e] capture_step_reachable [OF q] e by simp
  next
    case (Worker t b junk)
    then have "s' = worker_step env t b junk s" using s' by simp
    from worker_keeps_inv [OF inv k small _ _ this] show ?thesis using a Worker by auto
  next
    case (Sender b)
    then have "s' = sender_step env b s" using s' by simp
    from sender_keeps_inv [OF inv k small this] show ?thesis by auto
  qed
qed

lemma pipe_step_hist: "length (hist (raw_queue s)) \<le> length (hist (raw_queue (pipe_step env a s)))"
  by (cases a) (auto simp: packet_handler_def capture_step_def worker_step_def worker_dissect_def sender_step_def
      signal_handler_def thread_step_hist split: option.splits capture_loc.splits worker_loc.splits sender_loc.splits pc.splits bool.splits)

lemma pipe_reachable_inv:
  assumes "pipe_reachable env (2 ^ k) r i ssl s" "1 \<le> k" "k \<le> 61" "length (hist (raw_queue s)) < 2 ^ 62"
  shows "\<exists>src wp m. pipe_inv env (2 ^ k) r i src wp m s"
  using assms(1,4)
proof (induction rule: pipe_reachable.induct)
  case start
  show ?case by (intro exI) (rule pipe_inv_init)
next
  case (step s a)
  have small: "length (hist (raw_queue s)) < 2 ^ 62" using pipe_step_hist [of s env a] step.prems by simp
  then show ?case using step.IH pipe_inv_step [OF _ assms(2,3) small step.hyps(2) refl] by blast
qed

section \<open>What is on the connection\<close>

lemma dissects_wf:
  assumes "dissects env raw info" "wf_raw raw"
  shows "wf_info info"
proof -
  obtain junk where j: "wf_info junk" "dissect_raw_packet (env_fp env) raw junk = Some info"
    using assms(1) by (auto simp: dissects_def)
  have len: "length (rp_data raw) = 256" using assms(2) by (simp add: wf_raw_def MAX_PAYLOAD_SIZE_def)
  obtain e where e: "parse_ethernet_layer (rp_data raw) (caplen (pkthdr raw)) = Some e"
    using j(2) unfolding dissect_raw_packet_def Let_def by (elim bind_SomeE)
  show ?thesis
  proof (cases e)
    case None
    then show ?thesis using e j by (simp add: dissect_raw_packet_def Let_def)
  next
    case (Some eth)
    then show ?thesis using dissect_raw_packet_cases [OF j(2)] e payload_tail_fills [OF _ _ len]
      by (metis clean_ok info_ok_wf)
  qed
qed

lemma pipe_inv_wf:
  assumes inv: "pipe_inv env (2 ^ k) r i src wp m s" and k: "1 \<le> k" "k \<le> 61"
    and small: "length (hist (raw_queue s)) < 2 ^ 62"
  shows "\<forall>raw \<in> set (hist (raw_queue s)). wf_raw raw" "\<forall>info \<in> set (hist (dissected_queue s)). wf_info info"
proof -
  have tr: "traced env src wp s" and c: "at_capture s" and q: "reachable (2 ^ k) r (raw_queue s)"
    using inv by (simp_all add: pipe_inv_def)
  have "subseq (hist (raw_queue s)) (frames s)"
    using c subseq_init by (cases "capture s") auto
  then show raw: "\<forall>raw \<in> set (hist (raw_queue s)). wf_raw raw" using c by (auto elim: list_emb_set)
  have "taken (raw_queue s) \<le> length (hist (raw_queue s))" by (rule reachable_taken [OF q k small])
  then have "wf_info (hist (dissected_queue s) ! n)" if "n < length (hist (dissected_queue s))" for n
    using tr raw that dissects_wf [of env "hist (raw_queue s) ! (src ! n)"] unfolding traced_def
    by (metis nth_mem order_less_le_trans)
  then show "\<forall>info \<in> set (hist (dissected_queue s)). wf_info info" by (metis in_set_conv_nth)
qed

definition wire_record :: "('d, 's) capture_env \<Rightarrow> packet_info \<Rightarrow> byte list" where
  "wire_record env info =
     packet_info_bytes info @ env_hmac env (hmac_key (env_secret env)) (packet_info_bytes info)"

lemma sender_combined:
  assumes "wf_info info" "\<And>msg. length (env_hmac env (hmac_key (env_secret env)) msg) = 64"
  shows "combined (env_hmac env) (env_secret env) info = Some (wire_record env info)"
  using combined_bytes [OF assms(1), of "env_hmac env" "env_secret env"] assms(2) by (simp add: wire_record_def)

lemma sender_send_record:
  assumes "sender_send env info s = Some ssl'" "wf_info info"
    and ssl: "ssl_writes (env_ssl env) stream" "ssl_healthy (env_ssl env) healthy patience" "healthy (ctx_ssl s)"
    and hmac: "\<And>msg. length (env_hmac env (hmac_key (env_secret env)) msg) = 64"
  shows "healthy ssl' \<and> stream ssl' = stream (ctx_ssl s) @ wire_record env info"
  using send_loop_delivers [OF ssl, of "wire_record env info" 0] assms(1)
  by (auto simp: sender_send_def send_packet_info_def sender_combined [OF assms(2) hmac])

definition on_wire :: "('d, 's) capture_env \<Rightarrow> ('s \<Rightarrow> byte list) \<Rightarrow> 's \<Rightarrow> nat \<Rightarrow> 's pipeline \<Rightarrow> bool" where
  "on_wire env stream ssl m s \<longleftrightarrow>
     stream (ctx_ssl s) = stream ssl @ concat (map (wire_record env) (take m (hist (dissected_queue s))))"

lemma at_sender_bound:
  assumes "at_sender s m"
  shows "m \<le> taken (dissected_queue s)"
  using assms by (cases "sender s") auto

lemma pipe_reachable_stream:
  assumes reach: "pipe_reachable env (2 ^ k) r i ssl s" and k: "1 \<le> k" "k \<le> 61" and "length (hist (raw_queue s)) < 2 ^ 62"
    and ssl: "ssl_writes (env_ssl env) stream" "ssl_healthy (env_ssl env) healthy patience" "healthy ssl"
    and hmac: "\<And>msg. length (env_hmac env (hmac_key (env_secret env)) msg) = 64"
  shows "\<exists>src wp m. pipe_inv env (2 ^ k) r i src wp m s \<and> healthy (ctx_ssl s) \<and> on_wire env stream ssl m s \<and>
    m \<le> length (hist (dissected_queue s))"
  using reach assms(4)
proof (induction rule: pipe_reachable.induct)
  case start
  have "healthy (ctx_ssl (pipe_init (2 ^ k) r i ssl))" "on_wire env stream ssl 0 (pipe_init (2 ^ k) r i ssl)"
    using ssl(3) by (simp_all add: pipe_init_def on_wire_def)
  then show ?case using pipe_inv_init [of env "2 ^ k" r i ssl] by blast
next
  case (step s a)
  let ?s = "pipe_step env a s"
  have small: "length (hist (raw_queue s)) < 2 ^ 62" using pipe_step_hist [of s env a] step.prems by simp
  then obtain src wp m where inv: "pipe_inv env (2 ^ k) r i src wp m s" and ok: "healthy (ctx_ssl s)" "on_wire env stream ssl m s"
      "m \<le> length (hist (dissected_queue s))"
    using step.IH by blast
  obtain src' wp' m' where inv': "pipe_inv env (2 ^ k) r i src' wp' m' ?s"
    and m': "m' = m \<and> ctx_ssl ?s = ctx_ssl s \<or>
        m' = Suc m \<and> sender_send env (hist (dissected_queue s) ! m) s = Some (ctx_ssl ?s) \<and>
          hist (dissected_queue ?s) = hist (dissected_queue s)"
    and pre: "prefix (hist (dissected_queue s)) (hist (dissected_queue ?s))"
    using pipe_inv_step [OF inv k small step.hyps(2) refl] by blast
  have "reachable (2 ^ k) r (raw_queue ?s)" "reachable (2 ^ k) i (dissected_queue ?s)" "traced env src' wp' ?s" "at_sender ?s m'"
    using inv' by (simp_all add: pipe_inv_def)
  then have bound: "m' \<le> length (hist (dissected_queue ?s))"
    using at_sender_bound [of ?s m'] traced_bound [of env src' wp' ?s] reachable_taken [OF _ k step.prems]
      reachable_taken [OF _ k, of i "dissected_queue ?s"] step.prems by fastforce
  have "healthy (ctx_ssl ?s) \<and> on_wire env stream ssl m' ?s"
    using m'
  proof
    assume "m' = m \<and> ctx_ssl ?s = ctx_ssl s"
    then show ?thesis using ok pre by (auto simp: on_wire_def prefix_def)
  next
    assume new: "m' = Suc m \<and> sender_send env (hist (dissected_queue s) ! m) s = Some (ctx_ssl ?s) \<and>
        hist (dissected_queue ?s) = hist (dissected_queue s)"
    then have lt: "m < length (hist (dissected_queue s))"
      using bound by simp
    then have "wf_info (hist (dissected_queue s) ! m)" using pipe_inv_wf(2) [OF inv k small] by simp
    from sender_send_record [OF _ this ssl(1,2) ok(1) hmac] new
    have "healthy (ctx_ssl ?s)" "stream (ctx_ssl ?s) = stream (ctx_ssl s) @ wire_record env (hist (dissected_queue s) ! m)"
      by auto
    then show ?thesis using ok(2) lt pre new
      by (auto simp: on_wire_def prefix_def take_Suc_conv_app_nth)
  qed
  then show ?case using inv' bound by blast
qed

end
