(* ===== verification/Pipeline_Shutdown.thy ===== *)
theory Pipeline_Shutdown
  imports Pipeline_Safety
begin

text \<open>
  The end of a run. After \<^verbatim>\<open>keep_running\<close> is cleared the workers and the sender empty their queues and
  return, without waiting for each other: a sender that outlives the workers sends everything that
  is left, a sender that returns first leaves the workers with a queue that nobody empties. The
  theorems about whole runs, with the schedules of their witnesses, are at the end.
\<close>

section \<open>Schedules\<close>

text \<open>A schedule is a list of admissible actions; what it leads to is reachable.\<close>

abbreviation pipe_run :: "('d, 's) capture_env \<Rightarrow> pipe_action list \<Rightarrow> 's pipeline \<Rightarrow> 's pipeline" where
  "pipe_run env as s \<equiv> fold (pipe_step env) as s"

lemma pipe_run_reachable:
  "pipe_reachable env cap r i ssl s \<Longrightarrow> list_all admissible as \<Longrightarrow> pipe_reachable env cap r i ssl (pipe_run env as s)"
  by (induction as arbitrary: s) (auto intro: pipe_reachable.step)

lemma pipe_run_hist: "length (hist (raw_queue s)) \<le> length (hist (raw_queue (pipe_run env as s)))"
  by (induction as arbitrary: s) (auto intro: order_trans [OF pipe_step_hist])

section \<open>A sender that has returned\<close>

lemma worker_step_capture: "capture (worker_step env t b junk s) = capture s"
  by (simp add: worker_step_def worker_dissect_def split: worker_loc.splits pc.splits option.splits bool.splits)

lemma worker_step_done: "worker s t' = W_Done \<Longrightarrow> worker (worker_step env t b junk s) t' = W_Done"
  by (cases "t' = t") (auto simp: worker_step_def worker_dissect_def split: worker_loc.splits pc.splits option.splits bool.splits)

lemma sender_step_others: "capture (sender_step env b s) = capture s" "worker (sender_step env b s) = worker s"
  by (simp_all add: sender_step_def split: sender_loc.splits pc.splits option.splits)

text \<open>The workers are joined before the sender.\<close>

lemma joined_workers_done:
  assumes "pipe_reachable env cap r i ssl s"
  shows "capture s = C_JoinSender \<or> capture s = C_Joined \<Longrightarrow> \<forall>t < num_workers. worker s t = W_Done"
  using assms
proof (induction rule: pipe_reachable.induct)
  case start
  then show ?case by (simp add: pipe_init_def)
next
  case (step s a)
  show ?case using step.IH step.prems
    by (cases a) (auto simp: packet_handler_def capture_step_def signal_handler_def sender_step_others
        worker_step_capture worker_step_done split: if_splits option.splits capture_loc.splits pc.splits)
qed

text \<open>A worker that has an element to push while the sender has returned and the queue is full.\<close>

definition stuck :: "nat \<Rightarrow> nat \<Rightarrow> packet_info \<Rightarrow> 's pipeline \<Rightarrow> bool" where
  "stuck cap t info s \<longleftrightarrow> sender s = S_Done \<and> length (fifo (dissected_queue s)) = cap \<and>
     worker s t = W_DrainPush info \<and> carrying s t"

lemma full_queue_stays:
  assumes "length (fifo q) = 2 ^ k" "taken q' = taken q" "prefix (hist q) (hist q')"
    and "reachable (2 ^ k) d q'" "1 \<le> k" "k \<le> 61" "length (hist q') < 2 ^ 62"
  shows "hist q' = hist q" "length (fifo q') = 2 ^ k"
proof -
  obtain r where r: "refines k q' r" "ring_inv (2 ^ k) r" using reachable_ring [OF assms(4-7)] by blast
  have "length (hist q') \<le> taken q' + 2 ^ k" using ring_fifo [OF r] ring_room [OF r(2)] by simp
  moreover have "length (hist q) - taken q = 2 ^ k" using assms(1) by (simp add: fifo_def)
  then have "length (hist q) = taken q + 2 ^ k" using zero_less_power [of "2 :: nat" k] by linarith
  ultimately show h: "hist q' = hist q" using assms(2,3) by (auto simp: prefix_def)
  show "length (fifo q') = 2 ^ k" using assms(1,2) by (simp add: fifo_def h)
qed

lemma stuck_step:
  assumes st: "stuck (2 ^ k) t info s" and t: "t < num_workers" and k: "1 \<le> k" "k \<le> 61"
    and inv: "pipe_inv env (2 ^ k) r i src wp m s" "pipe_inv env (2 ^ k) r i src' wp' m' (pipe_step env a s)" "admissible a"
    and small: "length (hist (raw_queue (pipe_step env a s))) < 2 ^ 62"
  shows "stuck (2 ^ k) t info (pipe_step env a s) \<and> ctx_ssl (pipe_step env a s) = ctx_ssl s"
proof -
  let ?s = "pipe_step env a s"
  have small0: "length (hist (raw_queue s)) < 2 ^ 62" using pipe_step_hist [of s env a] small by simp
  have q': "reachable (2 ^ k) i (dissected_queue ?s)" "traced env src' wp' ?s" "reachable (2 ^ k) r (raw_queue ?s)"
    using inv(2) by (simp_all add: pipe_inv_def)
  have small': "length (hist (dissected_queue ?s)) < 2 ^ 62"
    using traced_bound [OF q'(2)] reachable_taken [OF q'(3) k small] small by simp
  have w: "\<And>t. t < num_workers \<Longrightarrow> at_worker env s (wp t) t" and tr: "traced env src wp s"
    and q: "reachable (2 ^ k) r (raw_queue s)" using inv(1) by (simp_all add: pipe_inv_def)
  note full = full_queue_stays [OF _ _ _ q'(1) k small']
  show ?thesis
  proof (cases a)
    case (Worker t' b junk)
    then have t': "t' < num_workers" "wf_info junk" and e: "?s = worker_step env t' b junk s" using inv(3) by auto
    have j: "carrying s t' \<longrightarrow> wp t' < taken (raw_queue s)" using tr t'(1) by (simp add: traced_def)
    have fr: "worker_frame t' s ?s"
      using worker_step_event [OF w [OF t'(1)] t'(2) j q k small0 e] by blast
    have "prefix (hist (dissected_queue s)) (hist (dissected_queue ?s))"
      using worker_keeps_inv [OF inv(1) k small0 t' e] by blast
    then have same: "hist (dissected_queue ?s) = hist (dissected_queue s)" "length (fifo (dissected_queue ?s)) = 2 ^ k"
      using full [of "dissected_queue s"] st fr by (auto simp: stuck_def worker_frame_def)
    show ?thesis
    proof (cases "t' = t")
      case False
      then show ?thesis using st fr same(2) by (auto simp: stuck_def worker_frame_def)
    next
      case True
      have p: "pending (pcs (dissected_queue s) t) = Some info \<or> pcs (dissected_queue s) t = PushDone False"
        using st w [OF t] by (auto simp: stuck_def push_ok_def dest: pending_finished(8))
      then have "worker ?s t = W_DrainPush info \<and> carrying ?s t"
      proof
        assume pend: "pending (pcs (dissected_queue s) t) = Some info"
        then have "?s = s\<lparr>dissected_queue := thread_step t b (dissected_queue s)\<rparr>"
          using st unfolding e True by (auto simp: worker_step_def stuck_def split: pc.splits)
        then show ?thesis using pending_access [OF pend, of b] st same(1) by (auto simp: stuck_def)
      next
        assume "pcs (dissected_queue s) t = PushDone False"
        then show ?thesis using st unfolding e True by (auto simp: worker_step_def stuck_def)
      qed
      then show ?thesis using st fr same(2) by (auto simp: stuck_def worker_frame_def)
    qed
  qed (use st in \<open>auto simp: stuck_def packet_handler_def capture_step_def signal_handler_def sender_step_def
    t [THEN less_imp_neq] split: option.splits capture_loc.splits pc.splits\<close>)
qed

section \<open>A sender that outlives the workers\<close>

text \<open>Only the workers and one more thread use a queue.\<close>

lemma unused_threads:
  assumes "pipe_reachable env cap r i ssl s" "num_workers < t"
  shows "pcs (dissected_queue s) t = Idle"
  using assms
proof (induction rule: pipe_reachable.induct)
  case start
  then show ?case by (simp add: pipe_init_def lfq_init_def)
next
  case (step s a)
  then show ?case
  proof (cases a)
    case (Worker t' b junk)
    then have "t \<noteq> t'" using step by auto
    then show ?thesis using step Worker
      by (simp add: worker_step_def worker_dissect_def split: worker_loc.splits pc.splits option.splits bool.splits)
  qed (auto simp: packet_handler_def capture_step_def signal_handler_def sender_step_def
      split: option.splits capture_loc.splits pc.splits sender_loc.splits)
qed

text \<open>A queue whose threads have all returned holds its contents.\<close>

lemma idle_ring:
  assumes "ring_inv N r" "\<And>t. finished (rpcs r t)"
  shows "ring_inv N (r\<lparr>rpcs := \<lambda>_. Idle\<rparr>)"
proof -
  have no: "\<not> pushing r t j" "\<not> popping r t j" for t j
    using assms(2) [of t] by (auto simp: pushing_def popping_def)
  have no': "\<not> pushing (r\<lparr>rpcs := \<lambda>_. Idle\<rparr>) t j" "\<not> popping (r\<lparr>rpcs := \<lambda>_. Idle\<rparr>) t j" for t j
    by (auto simp: pushing_def popping_def)
  show ?thesis using assms(1) unfolding ring_inv_def by (simp add: no no' window_def)
qed

lemma idle_queue_holds:
  assumes "reachable (2 ^ k) d q" "1 \<le> k" "k \<le> 61" "length (hist q) < 2 ^ 62" "\<And>t. finished (pcs q t)"
  shows "lfq_holds k (length (hist q)) (queue q) (fifo q)"
proof -
  obtain r where r: "refines k q r" "ring_inv (2 ^ k) r" using reachable_ring [OF assms(1-4)] by blast
  have "finished (rpcs r t)" for t using assms(5) [of t] r(1) by (simp add: refines_def finished_map)
  then have "ring_inv (2 ^ k) (r\<lparr>rpcs := \<lambda>_. Idle\<rparr>)" by (rule idle_ring [OF r(2)])
  moreover have "refines k \<lparr>queue = queue q, pcs = \<lambda>_. Idle, hist = rhist r, taken = rhead r\<rparr> (r\<lparr>rpcs := \<lambda>_. Idle\<rparr>)"
    using r(1) by (simp add: refines_def)
  ultimately show ?thesis unfolding lfq_holds_def quiet_def
    using ring_fifo [OF r] by (intro exI [of _ "r\<lparr>rpcs := \<lambda>_. Idle\<rparr>"]) (simp add: fifo_def)
qed

text \<open>The accesses of a pop in the drain loop of the sender.\<close>

lemma drain_pop_run:
  assumes "lfq_run (replicate n True) (pcs (dissected_queue s) num_workers, queue (dissected_queue s)) = Some (p, q)"
    and "sender s = S_DrainPop"
  shows "\<exists>n s'. s' = pipe_run env (replicate n (Sender True)) s \<and> sender s' = S_DrainPop \<and> ctx_ssl s' = ctx_ssl s \<and>
    pcs (dissected_queue s') num_workers = p \<and> queue (dissected_queue s') = q"
  using assms
proof (induction n arbitrary: s)
  case 0
  then have "pcs (dissected_queue s) num_workers = p \<and> queue (dissected_queue s) = q"
    by (simp add: lfq_run.simps split: if_splits)
  then show ?case using 0 by (intro exI [of _ 0]) simp
next
  case (Suc n)
  show ?case
  proof (cases "finished (pcs (dissected_queue s) num_workers)")
    case True
    then have "pcs (dissected_queue s) num_workers = p \<and> queue (dissected_queue s) = q"
      using Suc.prems(1) by (simp add: lfq_run.simps)
    then show ?thesis using Suc.prems(2) by (intro exI [of _ 0]) simp
  next
    case False
    define s1 where "s1 = s\<lparr>dissected_queue := thread_step num_workers True (dissected_queue s)\<rparr>"
    have s1: "pipe_step env (Sender True) s = s1"
      using False Suc.prems(2) by (auto simp: sender_step_def s1_def split: pc.splits)
    have "lfq_run (replicate n True) (pcs (dissected_queue s1) num_workers, queue (dissected_queue s1)) = Some (p, q)"
      using Suc.prems(1) False by (simp add: s1_def lfq_run_step thread_step_call)
    moreover have "sender s1 = S_DrainPop" "ctx_ssl s1 = ctx_ssl s" using Suc.prems(2) by (simp_all add: s1_def)
    ultimately obtain m where "sender (pipe_run env (replicate m (Sender True)) s1) = S_DrainPop"
        "ctx_ssl (pipe_run env (replicate m (Sender True)) s1) = ctx_ssl s"
        "pcs (dissected_queue (pipe_run env (replicate m (Sender True)) s1)) num_workers = p"
        "queue (dissected_queue (pipe_run env (replicate m (Sender True)) s1)) = q"
      using Suc.IH [of s1] by auto
    then show ?thesis using s1 by (intro exI [of _ "Suc m"]) simp
  qed
qed

lemma pop_returns_run:
  assumes "lfq_pop q = Some (q', x)"
  shows "lfq_run (replicate 5 True) (PopLoad, q) = Some (PopDone x, q')"
  using assms by (auto simp: lfq_pop_def split: option.splits pc.splits)

lemma pipe_run_then:
  assumes "s' = pipe_run env (replicate n (Sender True)) s" "s'' = pipe_run env (replicate m (Sender True)) s'"
  shows "s'' = pipe_run env (replicate (n + m) (Sender True)) s"
  by (simp add: assms replicate_add)

lemma sender_send_returns:
  assumes "wf_info x" "ssl_writes (env_ssl env) stream" "ssl_healthy (env_ssl env) healthy patience" "healthy (ctx_ssl s)"
    and hmac: "\<And>msg. length (env_hmac env (hmac_key (env_secret env)) msg) = 64"
  shows "\<exists>ssl'. sender_send env x s = Some ssl' \<and> healthy ssl' \<and> stream ssl' = stream (ctx_ssl s) @ wire_record env x"
proof -
  obtain ssl' where ssl': "sender_send env x s = Some ssl'"
    using send_loop_delivers [OF assms(2-4), of "wire_record env x" 0] sender_combined [OF assms(1) hmac]
    by (auto simp: sender_send_def send_packet_info_def)
  then show ?thesis using sender_send_record [OF ssl' assms] by blast
qed

text \<open>The drain loop ends, with the contents of the queue on the connection.\<close>

lemma sender_drains:
  assumes ssl: "ssl_writes (env_ssl env) stream" "ssl_healthy (env_ssl env) healthy patience"
    and hmac: "\<And>msg. length (env_hmac env (hmac_key (env_secret env)) msg) = 64"
    and small: "n < 2 ^ 62 - 1"
  shows "sender s = S_DrainPop \<Longrightarrow> pcs (dissected_queue s) num_workers = PopLoad \<Longrightarrow>
    lfq_holds 13 n (queue (dissected_queue s)) xs \<Longrightarrow> healthy (ctx_ssl s) \<Longrightarrow> \<forall>x \<in> set xs. wf_info x \<Longrightarrow>
    \<exists>m s'. s' = pipe_run env (replicate m (Sender True)) s \<and> sender s' = S_Done \<and>
      stream (ctx_ssl s') = stream (ctx_ssl s) @ concat (map (wire_record env) xs)"
proof (induction xs arbitrary: s)
  case Nil
  have "lfq_pop (queue (dissected_queue s)) = Some (queue (dissected_queue s), None)"
    by (rule lfq.pop_empty [OF Nil(3) small])
  then have "lfq_run (replicate 5 True) (pcs (dissected_queue s) num_workers, queue (dissected_queue s)) =
      Some (PopDone None, queue (dissected_queue s))"
    using Nil(2) by (simp add: pop_returns_run)
  from drain_pop_run [OF this Nil(1), of env] obtain m s1 where
    s1: "s1 = pipe_run env (replicate m (Sender True)) s" "sender s1 = S_DrainPop" "ctx_ssl s1 = ctx_ssl s"
      "pcs (dissected_queue s1) num_workers = PopDone None" by blast
  define s2 where "s2 = pipe_run env (replicate 1 (Sender True)) s1"
  have "sender s2 = S_Done" "ctx_ssl s2 = ctx_ssl s" using s1(2-4) by (simp_all add: s2_def sender_step_def)
  then have "sender s2 = S_Done \<and> stream (ctx_ssl s2) = stream (ctx_ssl s) @ concat (map (wire_record env) [])" by simp
  then show ?case using pipe_run_then [OF s1(1) s2_def] by blast
next
  case (Cons x xs)
  obtain q' where q': "lfq_pop (queue (dissected_queue s)) = Some (q', Some x)" "lfq_holds 13 n q' xs"
    using lfq.pop_first [OF Cons.prems(3) small] by blast
  then have "lfq_run (replicate 5 True) (pcs (dissected_queue s) num_workers, queue (dissected_queue s)) =
      Some (PopDone (Some x), q')"
    using Cons.prems(2) by (simp add: pop_returns_run)
  from drain_pop_run [OF this Cons.prems(1), of env] obtain m s1 where
    s1: "s1 = pipe_run env (replicate m (Sender True)) s" "sender s1 = S_DrainPop" "ctx_ssl s1 = ctx_ssl s"
      "pcs (dissected_queue s1) num_workers = PopDone (Some x)" "queue (dissected_queue s1) = q'" by blast
  have x: "wf_info x" "healthy (ctx_ssl s1)" using Cons.prems(4,5) s1(3) by simp_all
  obtain ssl' where ssl': "sender_send env x s1 = Some ssl'" and sent: "healthy ssl'"
      "stream ssl' = stream (ctx_ssl s) @ wire_record env x"
    using sender_send_returns [OF x(1) ssl x(2) hmac] s1(3) by auto
  define s2 where "s2 = pipe_run env (replicate 2 (Sender True)) s1"
  have s2: "sender s2 = S_DrainPop" "ctx_ssl s2 = ssl'" "pcs (dissected_queue s2) num_workers = PopLoad"
      "queue (dissected_queue s2) = q'"
    using s1(2-5) ssl' by (simp_all add: s2_def sender_step_def numeral_2_eq_2 sender_send_def)
  obtain l s3 where s3: "s3 = pipe_run env (replicate l (Sender True)) s2" "sender s3 = S_Done"
      "stream (ctx_ssl s3) = stream (ctx_ssl s2) @ concat (map (wire_record env) xs)"
    using Cons.IH [OF s2(1,3)] s2 q'(2) sent(1) Cons.prems(5) by auto
  have "stream (ctx_ssl s3) = stream (ctx_ssl s) @ concat (map (wire_record env) (x # xs))"
    using s3(3) sent(2) s2(2) by simp
  then show ?case using pipe_run_then [OF pipe_run_then [OF s1(1) s2_def] s3(1)] s3(2) by blast
qed

text \<open>The sender inside a pop while no worker is inside a push.\<close>

lemma thread_step_finished: "finished (pcs q t) \<Longrightarrow> thread_step t ok q = q"
  by (cases "pcs q t") (simp_all add: thread_step_def ghost_hist_def ghost_taken_def fun_upd_idem)

lemma sender_pop_run:
  assumes "sender s = S_Pop \<or> sender s = S_DrainPop"
    and "finished (pcs (fold (thread_step num_workers) (replicate n True) (dissected_queue s)) num_workers)"
  shows "\<exists>m. pipe_run env (replicate m (Sender True)) s =
    s\<lparr>dissected_queue := fold (thread_step num_workers) (replicate n True) (dissected_queue s)\<rparr>"
  using assms
proof (induction n arbitrary: s)
  case 0
  then show ?case by (intro exI [of _ 0]) simp
next
  case (Suc n)
  show ?case
  proof (cases "finished (pcs (dissected_queue s) num_workers)")
    case True
    then show ?thesis using Suc.IH [OF Suc.prems(1)] Suc.prems(2) by (simp add: thread_step_finished)
  next
    case False
    define s1 where "s1 = s\<lparr>dissected_queue := thread_step num_workers True (dissected_queue s)\<rparr>"
    have "pipe_step env (Sender True) s = s1"
      using False Suc.prems(1) by (auto simp: sender_step_def s1_def split: pc.splits)
    moreover obtain m where "pipe_run env (replicate m (Sender True)) s1 =
        s1\<lparr>dissected_queue := fold (thread_step num_workers) (replicate n True) (dissected_queue s1)\<rparr>"
      using Suc.IH [of s1] Suc.prems by (auto simp: s1_def)
    ultimately show ?thesis by (intro exI [of _ "Suc m"]) (simp add: s1_def)
  qed
qed

lemma workers_finished:
  assumes "pipe_reachable env (2 ^ k) r i ssl s" "1 \<le> k" "k \<le> 61" "length (hist (raw_queue s)) < 2 ^ 62"
    and "\<forall>t < num_workers. worker s t = W_Done" "t \<noteq> num_workers"
  shows "finished (pcs (dissected_queue s) t)"
proof -
  obtain src wp m where "pipe_inv env (2 ^ k) r i src wp m s" using pipe_reachable_inv [OF assms(1-4)] by blast
  then have w: "\<And>t. t < num_workers \<Longrightarrow> at_worker env s (wp t) t" by (simp add: pipe_inv_def)
  show ?thesis
    using w [of t] assms(5,6) unused_threads [OF assms(1), of t] by (cases t num_workers rule: linorder_cases) auto
qed

lemma dissected_small:
  assumes "pipe_inv env (2 ^ k) r i src wp m s" "1 \<le> k" "k \<le> 61" "length (hist (raw_queue s)) < 2 ^ 62"
  shows "length (hist (dissected_queue s)) \<le> length (hist (raw_queue s))"
  using assms traced_bound [of env src wp s] reachable_taken [of k r "raw_queue s"] by (fastforce simp: pipe_inv_def)

lemma sender_pop_finishes:
  assumes reach: "pipe_reachable env (2 ^ 13) r i ssl s" "length (hist (raw_queue s)) < 2 ^ 62 - 1"
    and "\<forall>t < num_workers. worker s t = W_Done" "sender s = S_Pop \<or> sender s = S_DrainPop"
  shows "\<exists>n s1. s1 = pipe_run env (replicate n (Sender True)) s \<and> finished (pcs (dissected_queue s1) num_workers) \<and>
    hist (dissected_queue s1) = hist (dissected_queue s) \<and> raw_queue s1 = raw_queue s \<and> worker s1 = worker s \<and>
    keep_running s1 = keep_running s \<and> sender s1 = sender s \<and>
    (pcs (dissected_queue s1) num_workers = PopDone None \<longrightarrow>
     fifo (dissected_queue s1) = [] \<or> pcs (dissected_queue s) num_workers = PopDone None)"
proof (cases "finished (pcs (dissected_queue s) num_workers)")
  case True
  then show ?thesis by (intro exI [of _ 0] exI [of _ s]) auto
next
  case False
  have k: "(1 :: nat) \<le> 13" "(13 :: nat) \<le> 61" and small: "length (hist (raw_queue s)) < 2 ^ 62" using assms(2) by simp_all
  obtain src wp m where inv: "pipe_inv env (2 ^ 13) r i src wp m s" using pipe_reachable_inv [OF reach(1) k small] by blast
  then have q: "reachable (2 ^ 13) i (dissected_queue s)" and se: "at_sender s m" by (simp_all add: pipe_inv_def)
  have few: "length (hist (dissected_queue s)) < 2 ^ 62" using dissected_small [OF inv k small] small by simp
  have "in_pop (pcs (dissected_queue s) num_workers)"
    using se assms(4) False by (cases "pcs (dissected_queue s) num_workers") auto
  then obtain n where n: "finished (pcs (fold (thread_step num_workers) (replicate n True) (dissected_queue s)) num_workers)"
      "hist (fold (thread_step num_workers) (replicate n True) (dissected_queue s)) = hist (dissected_queue s)"
      "pcs (fold (thread_step num_workers) (replicate n True) (dissected_queue s)) num_workers = PopDone None \<longrightarrow>
        fifo (fold (thread_step num_workers) (replicate n True) (dissected_queue s)) = []"
    using alone_pop_run [OF q k few workers_finished [OF reach(1) k small assms(3)]] by blast
  obtain l where "pipe_run env (replicate l (Sender True)) s =
      s\<lparr>dissected_queue := fold (thread_step num_workers) (replicate n True) (dissected_queue s)\<rparr>"
    using sender_pop_run [OF assms(4) n(1)] by blast
  then show ?thesis using n False by (intro exI [of _ l] exI [of _ "pipe_run env (replicate l (Sender True)) s"]) auto
qed

text \<open>The sender between two pops.\<close>

lemma drain_start:
  assumes reach: "pipe_reachable env (2 ^ 13) r i ssl s" "length (hist (raw_queue s)) < 2 ^ 62 - 1"
    and idle: "\<And>t. finished (pcs (dissected_queue s) t)"
    and ssl: "ssl_writes (env_ssl env) stream" "ssl_healthy (env_ssl env) healthy patience"
    and hmac: "\<And>msg. length (env_hmac env (hmac_key (env_secret env)) msg) = 64"
    and s1: "s1 = pipe_run env (replicate l (Sender True)) s" "sender s1 = S_DrainPop"
      "pcs (dissected_queue s1) num_workers = PopLoad" "queue (dissected_queue s1) = queue (dissected_queue s)" "healthy (ctx_ssl s1)"
      "stream (ctx_ssl s1) = stream ssl @ concat (map (wire_record env) (take (taken (dissected_queue s)) (hist (dissected_queue s))))"
  shows "\<exists>n s'. s' = pipe_run env (replicate n (Sender True)) s \<and> sender s' = S_Done \<and>
    stream (ctx_ssl s') = stream ssl @ concat (map (wire_record env) (hist (dissected_queue s)))"
proof -
  have k: "(1 :: nat) \<le> 13" "(13 :: nat) \<le> 61" and small: "length (hist (raw_queue s)) < 2 ^ 62" using reach(2) by simp_all
  obtain src wp m where inv: "pipe_inv env (2 ^ 13) r i src wp m s" using pipe_reachable_inv [OF reach(1) k small] by blast
  then have q: "reachable (2 ^ 13) i (dissected_queue s)" by (simp add: pipe_inv_def)
  have few: "length (hist (dissected_queue s)) < 2 ^ 62 - 1" using dissected_small [OF inv k small] reach(2) by simp
  then have holds: "lfq_holds 13 (length (hist (dissected_queue s))) (queue (dissected_queue s)) (fifo (dissected_queue s))"
    using idle_queue_holds [OF q k _ idle] by simp
  have wf: "\<forall>x \<in> set (fifo (dissected_queue s)). wf_info x"
    using pipe_inv_wf(2) [OF inv k small] by (auto simp: fifo_def dest: in_set_dropD)
  obtain n s' where s': "s' = pipe_run env (replicate n (Sender True)) s1" "sender s' = S_Done"
      "stream (ctx_ssl s') = stream (ctx_ssl s1) @ concat (map (wire_record env) (fifo (dissected_queue s)))"
    using sender_drains [OF ssl hmac few s1(2,3)] holds s1(4,5) wf by metis
  have "stream (ctx_ssl s') = stream ssl @ concat (map (wire_record env) (hist (dissected_queue s)))"
    using s'(3) unfolding s1(6) fifo_def by (metis append.assoc append_take_drop_id concat_append map_append)
  then show ?thesis using pipe_run_then [OF s1(1) s'(1)] s'(2) by blast
qed

lemma sender_finishes_between:
  assumes reach: "pipe_reachable env (2 ^ 13) r i ssl s" "length (hist (raw_queue s)) < 2 ^ 62 - 1"
    and down: "\<not> keep_running s" "\<forall>t < num_workers. worker s t = W_Done"
    and ssl: "ssl_writes (env_ssl env) stream" "ssl_healthy (env_ssl env) healthy patience" "healthy ssl"
    and hmac: "\<And>msg. length (env_hmac env (hmac_key (env_secret env)) msg) = 64"
    and loc: "sender s = S_Loop \<or> sender s = S_Send info \<or> sender s = S_DrainSend info"
  shows "\<exists>n s'. s' = pipe_run env (replicate n (Sender True)) s \<and> sender s' = S_Done \<and>
    stream (ctx_ssl s') = stream ssl @ concat (map (wire_record env) (hist (dissected_queue s)))"
proof -
  have k: "(1 :: nat) \<le> 13" "(13 :: nat) \<le> 61" and small: "length (hist (raw_queue s)) < 2 ^ 62" using reach(2) by simp_all
  obtain src wp m where inv: "pipe_inv env (2 ^ 13) r i src wp m s" and h: "healthy (ctx_ssl s)" "on_wire env stream ssl m s"
    using pipe_reachable_stream [OF reach(1) k small ssl hmac] by blast
  have se: "at_sender s m" and q: "reachable (2 ^ 13) i (dissected_queue s)" using inv by (simp_all add: pipe_inv_def)
  have idle: "finished (pcs (dissected_queue s) t)" for t
    using workers_finished [OF reach(1) k small down(2), of t] se loc by (cases "t = num_workers") auto
  have few: "length (hist (dissected_queue s)) < 2 ^ 62" using dissected_small [OF inv k small] small by simp
  note start = drain_start [OF reach idle ssl(1,2) hmac]
  define s1 where "s1 = pipe_run env (replicate 1 (Sender True)) s"
  show ?thesis
  proof (cases "sender s = S_Loop")
    case True
    then have "m = taken (dissected_queue s)" using se by simp
    then show ?thesis
      using start [OF s1_def] h True down(1) by (simp add: s1_def sender_step_def on_wire_def)
  next
    case False
    then have m: "taken (dissected_queue s) = Suc m" "info = hist (dissected_queue s) ! m"
      "sender s = S_Send info \<or> sender s = S_DrainSend info" using se loc by auto
    then have lt: "m < length (hist (dissected_queue s))" using reachable_taken [OF q k few] by simp
    then have wf: "wf_info info" using pipe_inv_wf(2) [OF inv k small] m(2) by simp
    obtain ssl' where ssl': "sender_send env info s = Some ssl'" "healthy ssl'"
        "stream ssl' = stream (ctx_ssl s) @ wire_record env info"
      using sender_send_returns [OF wf ssl(1,2) h(1) hmac] by blast
    have all: "stream ssl' = stream ssl @ concat (map (wire_record env) (take (Suc m) (hist (dissected_queue s))))"
      using ssl'(3) h(2) lt by (simp add: on_wire_def m(2) take_Suc_conv_app_nth)
    from m(3) show ?thesis
    proof
      assume "sender s = S_DrainSend info"
      then show ?thesis using start [OF s1_def] ssl' all m(1) by (simp add: s1_def sender_step_def)
    next
      assume loc: "sender s = S_Send info"
      then have step: "s1 = s\<lparr>ctx_ssl := ssl', sender := S_Loop\<rparr>" using ssl'(1) by (simp add: s1_def sender_step_def)
      define s2 where "s2 = pipe_run env (replicate 2 (Sender True)) s"
      have "s2 = pipe_step env (Sender True) s1" by (simp add: s2_def s1_def numeral_2_eq_2)
      then have "s2 = s\<lparr>ctx_ssl := ssl', sender := S_DrainPop, dissected_queue := start_pop num_workers (dissected_queue s)\<rparr>"
        using down(1) by (simp add: step sender_step_def)
      then show ?thesis using start [OF s2_def] ssl'(2) all m(1) by simp
    qed
  qed
qed

lemma sender_after_pop:
  assumes reach: "pipe_reachable env (2 ^ 13) r i ssl s" "length (hist (raw_queue s)) < 2 ^ 62 - 1"
    and down: "\<not> keep_running s" "\<forall>t < num_workers. worker s t = W_Done"
    and ssl: "ssl_writes (env_ssl env) stream" "ssl_healthy (env_ssl env) healthy patience" "healthy ssl"
    and hmac: "\<And>msg. length (env_hmac env (hmac_key (env_secret env)) msg) = 64"
    and loc: "sender s = S_Pop \<or> sender s = S_DrainPop" "finished (pcs (dissected_queue s) num_workers)"
    and empty: "sender s = S_DrainPop \<Longrightarrow> pcs (dissected_queue s) num_workers = PopDone None \<Longrightarrow> fifo (dissected_queue s) = []"
  shows "\<exists>n s'. s' = pipe_run env (replicate n (Sender True)) s \<and> sender s' = S_Done \<and>
    stream (ctx_ssl s') = stream ssl @ concat (map (wire_record env) (hist (dissected_queue s)))"
proof -
  have k: "(1 :: nat) \<le> 13" "(13 :: nat) \<le> 61" and small: "length (hist (raw_queue s)) < 2 ^ 62" using reach(2) by simp_all
  obtain src wp m where inv: "pipe_inv env (2 ^ 13) r i src wp m s" and h: "on_wire env stream ssl m s"
    using pipe_reachable_stream [OF reach(1) k small ssl hmac] by blast
  then have se: "at_sender s m" by (simp add: pipe_inv_def)
  define s1 where "s1 = pipe_run env (replicate 1 (Sender True)) s"
  have r1: "pipe_reachable env (2 ^ 13) r i ssl s1" unfolding s1_def by (rule pipe_run_reachable [OF reach(1)]) simp
  obtain x where x: "pcs (dissected_queue s) num_workers = PopDone x"
    using se loc pending_finished(3) by fastforce
  consider (leave) "sender s = S_DrainPop" "pcs (dissected_queue s) num_workers = PopDone None"
    | (on) info where "sender s1 = S_Loop \<or> sender s1 = S_Send info \<or> sender s1 = S_DrainSend info"
      "raw_queue s1 = raw_queue s" "keep_running s1 = keep_running s" "worker s1 = worker s" "dissected_queue s1 = dissected_queue s"
    using loc(1) x by (cases x) (auto simp: s1_def sender_step_def)
  then show ?thesis
  proof cases
    case leave
    then have "m = taken (dissected_queue s)" "sender s1 = S_Done" "ctx_ssl s1 = ctx_ssl s"
      using se by (auto simp: s1_def sender_step_def)
    moreover have "take m (hist (dissected_queue s)) = hist (dissected_queue s)"
      using empty [OF leave] calculation(1) by (simp add: fifo_def)
    ultimately show ?thesis using h s1_def unfolding on_wire_def by metis
  next
    case on
    then obtain n s' where "s' = pipe_run env (replicate n (Sender True)) s1" "sender s' = S_Done"
        "stream (ctx_ssl s') = stream ssl @ concat (map (wire_record env) (hist (dissected_queue s)))"
      using sender_finishes_between [OF r1 _ _ _ ssl hmac on(1)] reach(2) down by auto
    then show ?thesis using pipe_run_then [OF s1_def] by metis
  qed
qed

section \<open>The handler\<close>

lemma handler_raw_fields:
  assumes "unat (caplen h) \<le> length packet" "length junk = MAX_PAYLOAD_SIZE"
  shows "\<exists>raw. handler_raw lt junk h packet = Some raw \<and> pkthdr raw = h \<and> wf_raw raw \<and>
    take (min (unat (caplen h)) 256) (rp_data raw) = take (min (unat (caplen h)) 256) packet \<and>
    rp_delta_time raw = handler_delta lt h"
proof -
  define n where "n = min (unat (caplen h)) 256"
  have n: "(if unat (caplen h) < MAX_PAYLOAD_SIZE then unat (caplen h) else MAX_PAYLOAD_SIZE) = n"
    by (simp add: n_def MAX_PAYLOAD_SIZE_def)
  have fits: "n \<le> length packet" "n \<le> length junk" using assms by (simp_all add: n_def MAX_PAYLOAD_SIZE_def)
  define raw where "raw = \<lparr>pkthdr = h, rp_data = take n packet @ drop n junk, rp_delta_time = handler_delta lt h\<rparr>"
  have "handler_raw lt junk h packet = Some raw"
    using fits unfolding handler_raw_def n Let_def by (simp add: rd_bytes_def wr_bytes_def raw_def min_absorb2)
  moreover have "wf_raw raw" using fits assms(2) by (simp add: wf_raw_def raw_def)
  moreover have "take n (rp_data raw) = take n packet" using fits by (simp add: raw_def)
  ultimately show ?thesis unfolding n_def by (intro exI [of _ raw]) (simp add: raw_def)
qed

text \<open>\<^verbatim>\<open>last_ts\<close> is the time stamp of the last frame.\<close>

lemma handler_last_ts:
  assumes "pipe_reachable env cap r i ssl s"
  shows "last_ts s = (if frames s = [] then (0, 0) else (tv_sec (pkthdr (last (frames s))), tv_usec (pkthdr (last (frames s)))))"
  using assms
proof (induction rule: pipe_reachable.induct)
  case start
  then show ?case by (simp add: pipe_init_def)
next
  case (step s a)
  have hdr: "pkthdr raw = h" if "handler_raw lt junk h packet = Some raw" for lt junk h packet raw
    using that by (auto simp: handler_raw_def Let_def elim!: bind_SomeE)
  have "last_ts (pipe_step env a s) = last_ts s \<and> frames (pipe_step env a s) = frames s \<or>
      (\<exists>raw. frames (pipe_step env a s) = frames s @ [raw] \<and> last_ts (pipe_step env a s) = (tv_sec (pkthdr raw), tv_usec (pkthdr raw)))"
    by (cases a) (auto simp: packet_handler_def capture_step_def worker_step_def worker_dissect_def sender_step_def signal_handler_def hdr
        split: option.splits capture_loc.splits worker_loc.splits sender_loc.splits pc.splits bool.splits)
  then show ?case using step.IH by auto
qed

section \<open>Queues with one element\<close>

text \<open>The first nodes of a fresh queue, for the evaluation of schedules on queues of any capacity.\<close>

lemma one_and_mask: "1 \<le> k \<Longrightarrow> (1 :: u64) AND (2 ^ k - 1) = 1"
proof -
  assume "1 \<le> k"
  have "(1 :: u64) AND mask k = take_bit k 1" by (simp only: take_bit_eq_mask)
  then show ?thesis using \<open>1 \<le> k\<close> by (simp add: mask_eq_exp_minus_1)
qed

definition fresh_nodes :: "nat \<Rightarrow> 'a \<Rightarrow> 'a node list" where
  "fresh_nodes k d = map (\<lambda>i. \<lparr>sequence = of_nat i, node_data = d\<rparr>) [0..<2 ^ k]"

lemma fresh_nodes:
  assumes "1 \<le> k"
  shows "fresh_nodes k d ! 0 = \<lparr>sequence = 0, node_data = d\<rparr>" "fresh_nodes k d ! Suc 0 = \<lparr>sequence = 1, node_data = d\<rparr>"
    "fresh_nodes k d \<noteq> []" "Suc 0 < length (fresh_nodes k d)"
proof -
  have "Suc 0 < 2 ^ k" using assms power_increasing [of 1 k "2 :: nat"] by simp
  then show "fresh_nodes k d ! 0 = \<lparr>sequence = 0, node_data = d\<rparr>" "fresh_nodes k d ! Suc 0 = \<lparr>sequence = 1, node_data = d\<rparr>"
    "fresh_nodes k d \<noteq> []" "Suc 0 < length (fresh_nodes k d)"
    by (simp_all add: fresh_nodes_def)
qed

lemma fresh_queue: "lfq_new (2 ^ k) d = \<lparr>capacity_mask = 2 ^ k - 1, buffer = fresh_nodes k d, enqueue_pos = 0, dequeue_pos = 0\<rparr>"
  by (simp add: lfq_new_def fresh_nodes_def)

lemmas fresh_simps = fresh_queue pipe_init_def lfq_init_def thread_step_def seq_of_def data_of_def
  node_index_def set_seq_def set_data_def ghost_hist_def ghost_taken_def fifo_def packet_handler_def capture_step_def
  worker_step_def worker_dissect_def sender_step_def signal_handler_def num_workers_def start_push_def start_pop_def

text \<open>A worker takes the packet; the signal comes and the sender returns; then the workers return.\<close>

definition sched_lost :: "pcap_pkthdr \<Rightarrow> byte list \<Rightarrow> byte list \<Rightarrow> packet_info \<Rightarrow> pipe_action list" where
  "sched_lost h packet junk junk' =
     (let c = Capture True; s = Sender True; w = (\<lambda>t. Worker t True junk') in
      [Frame h packet junk, c, c, c, c, c, c, w 0, w 0, w 0, w 0, w 0, w 0, w 0, Signal, s, s, s, s,
       w 0, w 0, w 0, w 0, w 0, w 0, w 0, w 0, w 0, w 0, w 1, w 1, w 1, w 1, w 2, w 2, w 2, w 2, w 3, w 3, w 3, w 3])"

lemma sched_lost_state:
  assumes "1 \<le> k" "handler_raw (0, 0) junk h packet = Some raw" "dissect_raw_packet (env_fp env) raw junk' = Some info"
    and "s = pipe_run env (sched_lost h packet junk junk') (pipe_init (2 ^ k) r i ssl)"
  shows "capture s = C_Loop \<and> sender s = S_Done \<and> ctx_ssl s = ssl \<and> fifo (dissected_queue s) = [info] \<and>
    hist (raw_queue s) = [raw] \<and> frames s = [raw] \<and>
    worker s = (\<lambda>_. W_Loop)(0 := W_Done, 1 := W_Done, 2 := W_Done, 3 := W_Done)"
  unfolding assms(4)
  by (simp add: sched_lost_def Let_def assms(2,3) fresh_simps fresh_nodes [OF assms(1)] one_and_mask [OF assms(1)])

text \<open>The same packet, pushed by the worker before it returns while the sender has not moved.\<close>

definition sched_left :: "pcap_pkthdr \<Rightarrow> byte list \<Rightarrow> byte list \<Rightarrow> packet_info \<Rightarrow> pipe_action list" where
  "sched_left h packet junk junk' =
     (let c = Capture True; w = (\<lambda>t. Worker t True junk') in
      [Frame h packet junk, c, c, c, c, c, c, w 0, w 0, w 0, w 0, w 0, w 0, w 0, Signal,
       w 0, w 0, w 0, w 0, w 0, w 0, w 0, w 0, w 0, w 0, w 1, w 1, w 1, w 1, w 2, w 2, w 2, w 2, w 3, w 3, w 3, w 3])"

lemma sched_left_state:
  assumes "1 \<le> k" "handler_raw (0, 0) junk h packet = Some raw" "dissect_raw_packet (env_fp env) raw junk' = Some info"
    and "s = pipe_run env (sched_left h packet junk junk') (pipe_init (2 ^ k) r i ssl)"
  shows "\<not> keep_running s \<and> sender s = S_Loop \<and> hist (dissected_queue s) = [info] \<and> hist (raw_queue s) = [raw] \<and>
    worker s = (\<lambda>_. W_Loop)(0 := W_Done, 1 := W_Done, 2 := W_Done, 3 := W_Done)"
  unfolding assms(4)
  by (simp add: sched_left_def Let_def assms(2,3) fresh_simps fresh_nodes [OF assms(1)] one_and_mask [OF assms(1)])

section \<open>Properties\<close>

text \<open>C2: under every interleaving of the capture thread, the workers, the sender and signals, on a
  connection that does not fail, the bytes on the connection are the signed records of the first
  results in the dissected queue, in the order of that queue; every result in the queue is the
  dissection of a packet of the raw queue, no two of the same packet; and the packets in the raw
  queue are those of the handler, in the order of capture (those that did not find room are missing).\<close>

theorem pipeline_end_to_end:
  assumes "pipe_reachable env (2 ^ k) r i ssl s" "1 \<le> k" "k \<le> 61" "length (hist (raw_queue s)) < 2 ^ 62"
    and "ssl_writes (env_ssl env) stream" "ssl_healthy (env_ssl env) healthy patience" "healthy ssl"
    and "\<And>msg. length (env_hmac env (hmac_key (env_secret env)) msg) = 64"
  shows "\<exists>m src. m \<le> length (hist (dissected_queue s)) \<and>
    stream (ctx_ssl s) = stream ssl @ concat (map (wire_record env) (take m (hist (dissected_queue s)))) \<and>
    length src = length (hist (dissected_queue s)) \<and> distinct src \<and>
    (\<forall>n < length src. src ! n < length (hist (raw_queue s)) \<and>
       dissects env (hist (raw_queue s) ! (src ! n)) (hist (dissected_queue s) ! n)) \<and>
    subseq (hist (raw_queue s)) (frames s)"
proof -
  obtain src wp m where inv: "pipe_inv env (2 ^ k) r i src wp m s" and w: "on_wire env stream ssl m s"
      "m \<le> length (hist (dissected_queue s))"
    using pipe_reachable_stream [OF assms] by blast
  then have q: "reachable (2 ^ k) r (raw_queue s)" and c: "at_capture s" and tr: "traced env src wp s"
    by (simp_all add: pipe_inv_def)
  have b: "taken (raw_queue s) \<le> length (hist (raw_queue s))" by (rule reachable_taken [OF q assms(2-4)])
  have "src ! n < length (hist (raw_queue s))" if "n < length src" for n
    using tr b nth_mem [OF that] unfolding traced_def by (meson order_less_le_trans)
  then have "\<forall>n < length src. src ! n < length (hist (raw_queue s)) \<and>
      dissects env (hist (raw_queue s) ! (src ! n)) (hist (dissected_queue s) ! n)"
    using tr unfolding traced_def by simp
  moreover have "subseq (hist (raw_queue s)) (frames s)" using c subseq_init by (cases "capture s") auto
  ultimately show ?thesis using w tr unfolding on_wire_def traced_def by blast
qed

text \<open>C8: when the shutdown has begun, the workers have returned and the sender has not yet seen an empty
  queue in its drain loop (wherever it is otherwise: at the top of its loop, inside a pop, inside a
  send), then on a connection that does not fail the sender returns, running alone, and every
  result that was ever put into the dissected queue is on the connection.\<close>

theorem sender_finishes_after_workers:
  assumes "pipe_reachable env (2 ^ 13) r i ssl s" "length (hist (raw_queue s)) < 2 ^ 62 - 1"
    and "\<not> keep_running s" "\<forall>t < num_workers. worker s t = W_Done"
    and "ssl_writes (env_ssl env) stream" "ssl_healthy (env_ssl env) healthy patience" "healthy ssl"
    and "\<And>msg. length (env_hmac env (hmac_key (env_secret env)) msg) = 64"
    and "sender s \<noteq> S_Done" "sender s = S_DrainPop \<longrightarrow> pcs (dissected_queue s) num_workers \<noteq> PopDone None"
  shows "\<exists>n s'. s' = pipe_run env (replicate n (Sender True)) s \<and> sender s' = S_Done \<and>
    stream (ctx_ssl s') = stream ssl @ concat (map (wire_record env) (hist (dissected_queue s)))"
proof (cases "sender s = S_Pop \<or> sender s = S_DrainPop")
  case False
  then obtain info where "sender s = S_Loop \<or> sender s = S_Send info \<or> sender s = S_DrainSend info"
    using assms(9) by (cases "sender s") auto
  then show ?thesis by (rule sender_finishes_between [OF assms(1-8)])
next
  case True
  then obtain n s1 where s1: "s1 = pipe_run env (replicate n (Sender True)) s" "finished (pcs (dissected_queue s1) num_workers)"
      "hist (dissected_queue s1) = hist (dissected_queue s)" "raw_queue s1 = raw_queue s" "worker s1 = worker s"
      "keep_running s1 = keep_running s" "sender s1 = sender s"
      "sender s = S_DrainPop \<Longrightarrow> pcs (dissected_queue s1) num_workers = PopDone None \<Longrightarrow> fifo (dissected_queue s1) = []"
    using sender_pop_finishes [OF assms(1,2,4) True] assms(10) by metis
  have r1: "pipe_reachable env (2 ^ 13) r i ssl s1"
    unfolding s1(1) by (rule pipe_run_reachable [OF assms(1)]) (simp add: list_all_iff)
  have "\<exists>n s'. s' = pipe_run env (replicate n (Sender True)) s1 \<and> sender s' = S_Done \<and>
      stream (ctx_ssl s') = stream ssl @ concat (map (wire_record env) (hist (dissected_queue s1)))"
    by (rule sender_after_pop [OF r1 _ _ _ assms(5-8) _ s1(2)]) (use assms(2-4) True s1(4-8) in simp_all)
  then show ?thesis using pipe_run_then [OF s1(1)] s1(3) by metis
qed

text \<open>C9: when the sender has returned first and a worker has a result for a full dissected queue,
  that worker is in the loop \<^verbatim>\<open>while (!ctx->dissected_queue.push(info))\<close> for ever, whatever the other
  threads do; nothing more is sent and \<^verbatim>\<open>main\<close> never gets past joining the workers.\<close>

theorem shutdown_never_ends:
  assumes "pipe_reachable env (2 ^ k) r i ssl s" "1 \<le> k" "k \<le> 61" "list_all admissible as"
    and "length (hist (raw_queue (pipe_run env as s))) < 2 ^ 62"
    and "t < num_workers" "stuck (2 ^ k) t info s"
  shows "worker (pipe_run env as s) t = W_DrainPush info \<and> ctx_ssl (pipe_run env as s) = ctx_ssl s \<and>
    capture (pipe_run env as s) \<notin> {C_JoinSender, C_Joined}"
proof -
  have "stuck (2 ^ k) t info (pipe_run env as s) \<and> ctx_ssl (pipe_run env as s) = ctx_ssl s"
    using assms(1,4,5,7)
  proof (induction as arbitrary: s)
    case Nil
    then show ?case by simp
  next
    case (Cons a as)
    let ?s = "pipe_step env a s"
    have r': "pipe_reachable env (2 ^ k) r i ssl ?s" using Cons.prems(1,2) by (auto intro: pipe_reachable.step)
    have small: "length (hist (raw_queue ?s)) < 2 ^ 62"
      using pipe_run_hist [of ?s env as] Cons.prems(3) by simp
    then have "length (hist (raw_queue s)) < 2 ^ 62" using pipe_step_hist [of s env a] by simp
    then have "stuck (2 ^ k) t info ?s \<and> ctx_ssl ?s = ctx_ssl s"
      using stuck_step [OF Cons.prems(4) assms(6,2,3) _ _ _ small] Cons.prems(2)
        pipe_reachable_inv [OF Cons.prems(1) assms(2,3)] pipe_reachable_inv [OF r' assms(2,3) small] by fastforce
    then show ?case using Cons.IH [OF r'] Cons.prems(2,3) by simp
  qed
  moreover have "pipe_reachable env (2 ^ k) r i ssl (pipe_run env as s)" by (rule pipe_run_reachable [OF assms(1,4)])
  ultimately show ?thesis using joined_workers_done assms(6) unfolding stuck_def by fastforce
qed

text \<open>C29: when \<^verbatim>\<open>pcap_loop\<close> hands a frame to the handler, in any reachable state, the handler starts the
  push of a packet that keeps the header of libpcap (also a captured length above 256) and the first
  \<^verbatim>\<open>min(caplen, 256)\<close> bytes of the frame in a buffer of 256 bytes. Its time difference is 0 for the first
  frame, and otherwise the microseconds since the time stamp of the frame that the handler had
  before, as long as those fit in 32 bits, the clock does not run backwards and that time stamp is
  not in second 0.\<close>

theorem packet_handler_copies:
  assumes "pipe_reachable env cap r i ssl s" "capture s = C_Loop" "admissible (Frame h packet junk)"
    and "s' = pipe_step env (Frame h packet junk) s" "n = min (unat (caplen h)) 256"
  shows "\<exists>raw. frames s' = frames s @ [raw] \<and> pcs (raw_queue s') num_workers = PushLoad raw \<and> capture s' = C_Push \<and>
    pkthdr raw = h \<and> wf_raw raw \<and> take n (rp_data raw) = take n packet \<and>
    (frames s = [] \<longrightarrow> rp_delta_time raw = 0) \<and>
    (\<forall>prev d. frames s \<noteq> [] \<longrightarrow> prev = pkthdr (last (frames s)) \<longrightarrow> tv_sec prev \<noteq> 0 \<longrightarrow>
       d = (tv_sec h - tv_sec prev) * 1000000 + (tv_usec h - tv_usec prev) \<longrightarrow> 0 \<le> d \<longrightarrow> d < 2 ^ 32 \<longrightarrow>
       uint (rp_delta_time raw) = d)"
proof -
  obtain raw where raw: "handler_raw (last_ts s) junk h packet = Some raw" "pkthdr raw = h" "wf_raw raw"
      "take n (rp_data raw) = take n packet" "rp_delta_time raw = handler_delta (last_ts s) h"
    using handler_raw_fields [of h packet junk "last_ts s"] assms(3,5) by auto
  have ts: "last_ts s = (if frames s = [] then (0, 0) else (tv_sec (pkthdr (last (frames s))), tv_usec (pkthdr (last (frames s)))))"
    by (rule handler_last_ts [OF assms(1)])
  have "uint (handler_delta (last_ts s) h) = d"
    if "frames s \<noteq> []" "prev = pkthdr (last (frames s))" "tv_sec prev \<noteq> 0"
      "d = (tv_sec h - tv_sec prev) * 1000000 + (tv_usec h - tv_usec prev)" "0 \<le> d" "d < 2 ^ 32" for prev d
  proof -
    have "handler_delta (last_ts s) h = word_of_int d" using that(1-4) ts by (simp add: handler_delta_def)
    then show ?thesis using that(5,6) by (simp add: uint_word_of_int take_bit_int_eq_self)
  qed
  moreover have "frames s = [] \<longrightarrow> handler_delta (last_ts s) h = 0" using ts by (simp add: handler_delta_def)
  moreover have "frames s' = frames s @ [raw] \<and> pcs (raw_queue s') num_workers = PushLoad raw \<and> capture s' = C_Push"
    using assms(2,4) raw(1) by (simp add: packet_handler_def)
  ultimately show ?thesis using raw(2-5) by (intro exI [of _ raw]) simp
qed

text \<open>C15: the drain loops do not wait for each other, and a result can be lost at the shutdown: for every
  first frame whose dissection is defined there is a run in which a worker has taken the packet when
  the signal comes, the sender finds the dissected queue empty and returns, and the worker then
  pushes the result and returns. All threads have been joined, nothing was ever sent, and the
  result is still in the queue.\<close>

theorem shutdown_loses_results:
  assumes "1 \<le> k" "admissible (Frame h packet junk)" "wf_info junk'"
    and "handler_raw (0, 0) junk h packet = Some raw" "dissect_raw_packet (env_fp env) raw junk' = Some info"
  shows "\<exists>as s. list_all admissible as \<and> s = pipe_run env as (pipe_init (2 ^ k) r i ssl) \<and> capture s = C_Joined \<and>
    frames s = [raw] \<and> hist (raw_queue s) = [raw] \<and> fifo (dissected_queue s) = [info] \<and> ctx_ssl s = ssl"
proof -
  define s where "s = pipe_run env (sched_lost h packet junk junk') (pipe_init (2 ^ k) r i ssl)"
  define s' where "s' = pipe_run env [LoopReturns, Capture True, Capture True] s"
  have st: "capture s = C_Loop" "sender s = S_Done" "ctx_ssl s = ssl" "fifo (dissected_queue s) = [info]" "hist (raw_queue s) = [raw]"
      "frames s = [raw]" "worker s = (\<lambda>_. W_Loop)(0 := W_Done, 1 := W_Done, 2 := W_Done, 3 := W_Done)"
    using sched_lost_state [OF assms(1,4,5) s_def] by simp_all
  have "\<forall>t < num_workers. worker s t = W_Done" by (auto simp: num_workers_def st(7))
  then have "s' = s\<lparr>keep_running := False, capture := C_Joined\<rparr>" using st(1,2) by (simp add: s'_def capture_step_def)
  moreover have "list_all admissible (sched_lost h packet junk junk' @ [LoopReturns, Capture True, Capture True])"
    using assms(2,3) by (simp add: sched_lost_def Let_def num_workers_def)
  moreover have "s' = pipe_run env (sched_lost h packet junk junk' @ [LoopReturns, Capture True, Capture True]) (pipe_init (2 ^ k) r i ssl)"
    by (simp add: s'_def s_def)
  ultimately show ?thesis using st
    by (intro exI [of _ "sched_lost h packet junk junk' @ [LoopReturns, Capture True, Capture True]"] exI [of _ s']) simp
qed

section \<open>A concrete pipeline\<close>

text \<open>Queues of two nodes, a connection that writes everything at once, frames without a byte.\<close>

definition sample_env :: "(real, script) capture_env" where
  "sample_env = \<lparr>env_fp = real_fp, env_hmac = (\<lambda>k m. replicate 64 7), env_secret = None,
     env_ssl = script_ops Want_Write\<rparr>"

definition empty_raw :: raw_packet where
  "empty_raw = \<lparr>pkthdr = \<lparr>tv_sec = 1, tv_usec = 0, caplen = 0, wlen = 0\<rparr>, rp_data = replicate 256 0, rp_delta_time = 0\<rparr>"

definition empty_frame :: pipe_action where
  "empty_frame = Frame (pkthdr empty_raw) [] (replicate 256 0)"

definition sample_start :: "script pipeline" where
  "sample_start = pipe_init (2 ^ 1) empty_raw zero_info ([], [])"

lemma empty_frame_step:
  assumes "capture s = C_Loop" "last_ts s = (0, 0) \<or> last_ts s = (1, 0)"
  shows "pipe_step env empty_frame s = s\<lparr>last_ts := (1, 0), capture := C_Push,
    raw_queue := start_push num_workers empty_raw (raw_queue s), frames := frames s @ [empty_raw]\<rparr>"
  using assms
  by (auto simp: empty_frame_def packet_handler_def handler_raw_def rd_bytes_def wr_bytes_def empty_raw_def
      MAX_PAYLOAD_SIZE_def handler_delta_def)

lemma dissect_empty [simp]: "dissect_raw_packet fp empty_raw junk = Some junk"
  by (simp add: empty_raw_def dissect_raw_packet_def parse_ethernet_layer_def)

lemma empty_admissible [simp]: "admissible empty_frame"
  by (simp add: empty_frame_def empty_raw_def MAX_PAYLOAD_SIZE_def)

lemma sample_ssl:
  "ssl_writes (env_ssl sample_env) snd" "ssl_healthy (env_ssl sample_env) (\<lambda>_. True) (\<lambda>s. length (fst s))"
  "length (env_hmac sample_env (hmac_key (env_secret sample_env)) msg) = 64"
  by (simp_all add: sample_env_def script_writes script_healthy)

lemmas run_simps = empty_frame_step sample_start_def pipe_init_def capture_step_def worker_step_def worker_dissect_def
  sender_step_def signal_handler_def num_workers_def schedule_simps

text \<open>One packet on its way through all threads, up to the call of \<^verbatim>\<open>send_packet_info\<close>.\<close>

definition sched_packet :: "pipe_action list" where
  "sched_packet = empty_frame # replicate 6 (Capture True) @ replicate 13 (Worker 0 True zero_info) @
     replicate 7 (Sender True)"

lemma sched_packet_state:
  "hist (raw_queue (pipe_run sample_env sched_packet sample_start)) = [empty_raw]"
  "hist (dissected_queue (pipe_run sample_env sched_packet sample_start)) = [zero_info]"
  "sender (pipe_run sample_env sched_packet sample_start) = S_Send zero_info"
  by (simp_all add: sched_packet_def numeral_eq_Suc run_simps)

text \<open>The sender returns, then three frames arrive: the third finds the dissected queue full.\<close>

definition sched_stuck :: "pipe_action list" where
  "sched_stuck = Signal # replicate 4 (Sender True) @
     empty_frame # replicate 6 (Capture True) @ replicate 13 (Worker 0 True zero_info) @
     empty_frame # replicate 6 (Capture True) @ replicate 12 (Worker 0 True zero_info) @
     empty_frame # replicate 6 (Capture True) @ replicate 6 (Worker 0 True zero_info)"

lemma sched_stuck_state:
  "stuck 2 0 zero_info (pipe_run sample_env sched_stuck sample_start) \<and>
   hist (raw_queue (pipe_run sample_env sched_stuck sample_start)) = [empty_raw, empty_raw, empty_raw] \<and>
   fifo (raw_queue (pipe_run sample_env sched_stuck sample_start)) = [] \<and>
   fifo (dissected_queue (pipe_run sample_env sched_stuck sample_start)) = [zero_info, zero_info]"
  by (simp add: sched_stuck_def numeral_eq_Suc run_simps stuck_def)


lemma sample_reachable:
  "list_all admissible as \<Longrightarrow> pipe_reachable sample_env (2 ^ 1) empty_raw zero_info ([], []) (pipe_run sample_env as sample_start)"
  unfolding sample_start_def by (intro pipe_run_reachable pipe_reachable.start)

lemma sched_admissible: "list_all admissible sched_packet" "list_all admissible sched_stuck"
  by (simp_all add: sched_packet_def sched_stuck_def num_workers_def list_all_iff)

lemma sched_small:
  "length (hist (raw_queue (pipe_run sample_env sched_packet sample_start))) < 2 ^ 62"
  "length (hist (raw_queue (pipe_run sample_env sched_stuck sample_start))) < 2 ^ 62"
  by (simp_all add: sched_packet_state sched_stuck_state)

lemma thread_step_hist_Suc: "length (hist (thread_step t ok q)) \<le> Suc (length (hist q))"
  by (auto simp: thread_step_def ghost_hist_def split: prod.splits pc.splits)

lemma pipe_step_hist_Suc: "length (hist (raw_queue (pipe_step env a s))) \<le> Suc (length (hist (raw_queue s)))"
  by (cases a) (auto simp: packet_handler_def capture_step_def worker_step_def worker_dissect_def sender_step_def
      signal_handler_def thread_step_hist_Suc split: option.splits capture_loc.splits worker_loc.splits sender_loc.splits pc.splits bool.splits)

lemma pipe_run_hist_le: "length (hist (raw_queue (pipe_run env as s))) \<le> length (hist (raw_queue s)) + length as"
proof (induction as arbitrary: s)
  case (Cons a as)
  show ?case using Cons [of "pipe_step env a s"] pipe_step_hist_Suc [of env a s] by simp
qed simp

section \<open>Witnesses\<close>

theorem pipeline_end_to_end_witness:
  "\<exists>m src. m \<le> 1 \<and> snd (ctx_ssl (pipe_run sample_env sched_packet sample_start)) =
     concat (map (wire_record sample_env) (take m [zero_info])) \<and>
     length src = 1 \<and> distinct src \<and> (\<forall>n < length src. src ! n < 1 \<and> dissects sample_env ([empty_raw] ! (src ! n)) ([zero_info] ! n)) \<and>
     subseq [empty_raw] (frames (pipe_run sample_env sched_packet sample_start))"
  using pipeline_end_to_end [OF sample_reachable [OF sched_admissible(1)] _ _ sched_small(1) sample_ssl(1,2) TrueI sample_ssl(3)]
  unfolding sched_packet_state by simp

theorem shutdown_never_ends_witness:
  "worker (pipe_run sample_env (replicate 1000 (Worker 0 True zero_info)) (pipe_run sample_env sched_stuck sample_start)) 0 =
     W_DrainPush zero_info"
proof -
  have small: "length (hist (raw_queue (pipe_run sample_env (replicate 1000 (Worker 0 True zero_info))
      (pipe_run sample_env sched_stuck sample_start)))) < 2 ^ 62"
    by (rule le_less_trans [OF pipe_run_hist_le]) (simp add: sched_stuck_state)
  have adm: "list_all admissible (replicate 1000 (Worker 0 True zero_info))"
    by (simp add: list_all_iff num_workers_def)
  have stuck: "stuck (2 ^ 1) 0 zero_info (pipe_run sample_env sched_stuck sample_start)" using sched_stuck_state by simp
  have "0 < num_workers" by (simp add: num_workers_def)
  from shutdown_never_ends [OF sample_reachable [OF sched_admissible(2)] order_refl _ adm small this stuck] show ?thesis
    by simp
qed

text \<open>With queues of 8192 nodes: an ARP frame.\<close>

lemma sample_arp_frame:
  "handler_raw (0, 0) (replicate 256 0) (pkthdr sample_arp) (replicate 12 1 @ [0x08, 0x06]) = Some sample_arp"
  "admissible (Frame (pkthdr sample_arp) (replicate 12 1 @ [0x08, 0x06]) (replicate 256 0))"
  by (simp_all add: handler_raw_def rd_bytes_def wr_bytes_def sample_arp_def sample_raw_def MAX_PAYLOAD_SIZE_def handler_delta_def)

theorem sender_finishes_after_workers_witness:
  "\<exists>n s' info. dissect_raw_packet real_fp sample_arp zero_info = Some info \<and> s' = pipe_run sample_env (replicate n (Sender True))
       (pipe_run sample_env (sched_left (pkthdr sample_arp) (replicate 12 1 @ [0x08, 0x06]) (replicate 256 0) zero_info)
         (pipe_init (2 ^ 13) empty_raw zero_info ([], []))) \<and>
     sender s' = S_Done \<and> snd (ctx_ssl s') = wire_record sample_env info"
proof -
  define as where "as = sched_left (pkthdr sample_arp) (replicate 12 1 @ [0x08, 0x06]) (replicate 256 0) zero_info"
  define s where "s = pipe_run sample_env as (pipe_init (2 ^ 13) empty_raw zero_info ([], []))"
  obtain info where info: "dissect_raw_packet real_fp sample_arp zero_info = Some info" using sample_arp_returns by blast
  have fp: "env_fp sample_env = real_fp" by (simp add: sample_env_def)
  have k: "(1 :: nat) \<le> 13" by simp
  have st: "\<not> keep_running s" "sender s = S_Loop" "hist (dissected_queue s) = [info]" "hist (raw_queue s) = [sample_arp]"
      "worker s = (\<lambda>_. W_Loop)(0 := W_Done, 1 := W_Done, 2 := W_Done, 3 := W_Done)"
    using sched_left_state [OF k sample_arp_frame(1) info [folded fp] s_def [unfolded as_def]] by blast+
  have "list_all admissible as"
    using sample_arp_frame(2) by (simp add: as_def sched_left_def Let_def num_workers_def wf_zero_info del: admissible.simps(1))
  then have r: "pipe_reachable sample_env (2 ^ 13) empty_raw zero_info ([], []) s"
    unfolding s_def by (intro pipe_run_reachable pipe_reachable.start)
  have few: "length (hist (raw_queue s)) < 2 ^ 62 - 1" by (simp add: st(4))
  have returned: "\<forall>t < num_workers. worker s t = W_Done" by (auto simp: num_workers_def st(5))
  have loc: "sender s \<noteq> S_Done" "sender s = S_DrainPop \<longrightarrow> pcs (dissected_queue s) num_workers \<noteq> PopDone None" by (simp_all add: st(2))
  obtain n s' where "s' = pipe_run sample_env (replicate n (Sender True)) s" "sender s' = S_Done"
      "snd (ctx_ssl s') = snd ([] :: int list, [] :: byte list) @ concat (map (wire_record sample_env) [info])"
    using sender_finishes_after_workers [OF r few st(1) returned sample_ssl(1,2) TrueI sample_ssl(3) loc] unfolding st(3) by blast
  then show ?thesis using info unfolding s_def as_def
    by (intro exI [of _ n] exI [of _ s'] exI [of _ info]) (simp only: append_Nil snd_conv list.map concat.simps append_Nil2 simp_thms)
qed

theorem shutdown_loses_results_witness:
  "\<exists>as s info. list_all admissible as \<and> s = pipe_run sample_env as (pipe_init (2 ^ 13) empty_raw zero_info ([], [])) \<and>
     capture s = C_Joined \<and> dissect_raw_packet real_fp sample_arp zero_info = Some info \<and>
     fifo (dissected_queue s) = [info] \<and> ctx_ssl s = ([], [])"
proof -
  obtain info where info: "dissect_raw_packet real_fp sample_arp zero_info = Some info" using sample_arp_returns by blast
  have fp: "env_fp sample_env = real_fp" by (simp add: sample_env_def)
  have "(1 :: nat) \<le> 13" by simp
  from shutdown_loses_results [OF this sample_arp_frame(2) wf_zero_info sample_arp_frame(1) info [folded fp],
      of empty_raw zero_info "([], [])"] info
  show ?thesis by blast
qed

text \<open>A second frame, two seconds and five microseconds after the first.\<close>

theorem packet_handler_copies_witness:
  "\<exists>raw. frames (pipe_run sample_env (empty_frame # replicate 6 (Capture True) @
         [Frame \<lparr>tv_sec = 3, tv_usec = 5, caplen = 2, wlen = 9\<rparr> [1, 2] (replicate 256 0)]) sample_start) = [empty_raw, raw] \<and>
     take 2 (rp_data raw) = [1, 2] \<and> uint (rp_delta_time raw) = 2000005"
proof -
  define s where "s = pipe_run sample_env (empty_frame # replicate 6 (Capture True)) sample_start"
  define h where "h = \<lparr>tv_sec = 3, tv_usec = 5, caplen = (2 :: u32), wlen = (9 :: u32)\<rparr>"
  have r: "pipe_reachable sample_env (2 ^ 1) empty_raw zero_info ([], []) s"
    unfolding s_def by (rule sample_reachable) (simp add: list_all_iff)
  have st: "capture s = C_Loop" "frames s = [empty_raw]"
    by (simp_all add: s_def numeral_eq_Suc run_simps)
  have adm: "admissible (Frame h [1, 2] (replicate 256 0))" by (simp add: h_def MAX_PAYLOAD_SIZE_def)
  have n: "2 = min (unat (caplen h)) 256" by (simp add: h_def)
  obtain raw where raw: "frames (pipe_step sample_env (Frame h [1, 2] (replicate 256 0)) s) = [empty_raw] @ [raw]"
      "take 2 (rp_data raw) = take 2 [1, 2]"
      "\<And>prev d. frames s \<noteq> [] \<Longrightarrow> prev = pkthdr (last (frames s)) \<Longrightarrow> tv_sec prev \<noteq> 0 \<Longrightarrow>
        d = (tv_sec h - tv_sec prev) * 1000000 + (tv_usec h - tv_usec prev) \<Longrightarrow> 0 \<le> d \<Longrightarrow> d < 2 ^ 32 \<Longrightarrow>
        uint (rp_delta_time raw) = d"
    using packet_handler_copies [OF r st(1) adm refl n] unfolding st(2) by blast
  have "uint (rp_delta_time raw) = 2000005"
    by (rule raw(3) [OF _ refl]) (simp_all add: st(2) h_def empty_raw_def)
  then show ?thesis using raw(1,2) by (intro exI [of _ raw]) (simp add: s_def h_def)
qed

end
