(* ===== verification/Main_Setup.thy ===== *)
theory Main_Setup
  imports Packet_Types
begin

text \<open>
  \<^verbatim>\<open>main\<close> of \<^verbatim>\<open>cpp/packet_capture.cpp\<close> up to the start of the threads, and \<^verbatim>\<open>monitor_pcap_stats\<close>. The
  operating system, libpcap and OpenSSL are parameters: a record of what their functions return, and
  for the connection loop the list of what happens in its rounds. An error return of \<^verbatim>\<open>main\<close> is a
  value of \<^verbatim>\<open>main_error\<close>; \<^verbatim>\<open>exit_code\<close> is the number it returns.
\<close>

section \<open>The interface\<close>

record pcap_if =
  if_name :: string
  if_flags :: u32

datatype main_error =
    Not_Root | Ssl_Init_Failed | No_Tls_Method | No_Ssl_Ctx | Min_Version_Failed | Max_Version_Failed
  | Find_Devices_Failed | Interface_Not_Found string "string list" | No_Interfaces
  | Open_Failed string | Bpf_Error | Filter_Error | Invalid_Address string

fun exit_code :: "main_error \<Rightarrow> nat" where
  "exit_code Find_Devices_Failed = 2"
| "exit_code (Interface_Not_Found n ns) = 2"
| "exit_code No_Interfaces = 2"
| "exit_code (Open_Failed n) = 2"
| "exit_code Bpf_Error = 2"
| "exit_code Filter_Error = 2"
| "exit_code _ = 1"

definition PCAP_IF_LOOPBACK :: u32 where
  "PCAP_IF_LOOPBACK = 1"

fun find_named :: "string \<Rightarrow> pcap_if list \<Rightarrow> pcap_if option" where
  "find_named target [] = None"
| "find_named target (d # ds) = (if if_name d = target then Some d else find_named target ds)"

fun find_not_loopback :: "pcap_if list \<Rightarrow> pcap_if option" where
  "find_not_loopback [] = None"
| "find_not_loopback (d # ds) =
     (if if_flags d AND PCAP_IF_LOOPBACK = 0 then Some d else find_not_loopback ds)"

text \<open>\<^term>\<open>argv\<close> are the arguments after the program name.\<close>

definition select_interface :: "string list \<Rightarrow> pcap_if list \<Rightarrow> main_error + pcap_if" where
  "select_interface argv alldevs =
     (case argv of
        target # _ \<Rightarrow>
          (case find_named target alldevs of
             Some d \<Rightarrow> Inr d
           | None \<Rightarrow> Inl (Interface_Not_Found target (map if_name alldevs)))
      | [] \<Rightarrow>
          (case find_not_loopback alldevs of
             Some d \<Rightarrow> Inr d
           | None \<Rightarrow> (case alldevs of d # _ \<Rightarrow> Inr d | [] \<Rightarrow> Inl No_Interfaces)))"

section \<open>The connection loop\<close>

text \<open>What happens in one round: the value of \<^verbatim>\<open>keep_running\<close> at its start and what the calls return.\<close>

record attempt =
  at_running :: bool
  at_socket :: int
  at_connect :: int
  at_ssl_new :: bool
  at_ssl_set_fd :: int
  at_ssl_connect :: int

text \<open>The variables of the loop: \<^verbatim>\<open>sockfd\<close>, whether \<^verbatim>\<open>ssl\<close> is set and whether its handshake is done,
  and, as a history, the descriptors that are open.\<close>

datatype ssl_state = No_Ssl | Ssl_Fresh | Ssl_Connected

record connection =
  sockfd :: int
  conn_ssl :: ssl_state
  open_fds :: "int list"

definition close_fd :: "int \<Rightarrow> connection \<Rightarrow> connection" where
  "close_fd fd c = c\<lparr>open_fds := remove1 fd (open_fds c)\<rparr>"

definition open_socket :: "attempt \<Rightarrow> connection \<Rightarrow> connection" where
  "open_socket a c =
     (let c = (if sockfd c \<noteq> -1 then close_fd (sockfd c) c else c) in
      c\<lparr>sockfd := at_socket a, open_fds := (if at_socket a < 0 then open_fds c else at_socket a # open_fds c)\<rparr>)"

text \<open>\<^term>\<open>pton\<close> is what \<^verbatim>\<open>inet_pton\<close> returns for the address; \<^term>\<open>None\<close>: still trying after all rounds.\<close>

fun connect_loop :: "int \<Rightarrow> string \<Rightarrow> attempt list \<Rightarrow> connection \<Rightarrow> (main_error + connection) option" where
  "connect_loop pton dest_ip [] c = None"
| "connect_loop pton dest_ip (a # as) c =
     (if \<not> at_running a then Some (Inr c)
      else let c = open_socket a c in
        if sockfd c < 0 then connect_loop pton dest_ip as c
        else if pton \<le> 0 then Some (Inl (Invalid_Address dest_ip))
        else if at_connect a = 0 then
          if \<not> at_ssl_new a then connect_loop pton dest_ip as (c\<lparr>conn_ssl := No_Ssl\<rparr>)
          else if at_ssl_set_fd a \<noteq> 1 then connect_loop pton dest_ip as (c\<lparr>conn_ssl := Ssl_Fresh\<rparr>)
          else if at_ssl_connect a = 1 then Some (Inr (c\<lparr>conn_ssl := Ssl_Connected\<rparr>))
          else connect_loop pton dest_ip as (c\<lparr>conn_ssl := No_Ssl\<rparr>)
        else connect_loop pton dest_ip as c)"

section \<open>main\<close>

record main_env =
  geteuid :: nat
  getenv :: "string \<Rightarrow> string option"
  ssl_library_init :: int
  tls_client_method :: bool
  ssl_ctx_new :: bool
  set_min_proto_version :: int
  set_max_proto_version :: int
  findalldevs :: "(pcap_if list) option"
  open_live :: "string \<Rightarrow> bool"
  compile_filter :: "string \<Rightarrow> int"
  set_filter :: "string \<Rightarrow> int"
  inet_pton :: "string \<Rightarrow> int"

definition shared_secret_of :: "main_env \<Rightarrow> string" where
  "shared_secret_of env =
     (case getenv env ''PACSNI_SHARED_SECRET'' of
        Some s \<Rightarrow> s | None \<Rightarrow> ''pacsni_secure_shared_secret_123'')"

definition dest_ip_of :: "main_env \<Rightarrow> string" where
  "dest_ip_of env = (case getenv env ''RUST_SERVICE_HOST'' of Some s \<Rightarrow> s | None \<Rightarrow> ''127.0.0.1'')"

definition init_ssl :: "main_env \<Rightarrow> main_error + unit" where
  "init_ssl env =
     (if ssl_library_init env \<noteq> 1 then Inl Ssl_Init_Failed
      else if \<not> tls_client_method env then Inl No_Tls_Method
      else if \<not> ssl_ctx_new env then Inl No_Ssl_Ctx
      else if set_min_proto_version env \<noteq> 1 then Inl Min_Version_Failed
      else if set_max_proto_version env \<noteq> 1 then Inl Max_Version_Failed
      else Inr ())"

definition open_capture :: "main_env \<Rightarrow> string list \<Rightarrow> main_error + pcap_if" where
  "open_capture env argv =
     (case findalldevs env of
        None \<Rightarrow> Inl Find_Devices_Failed
      | Some alldevs \<Rightarrow>
          (case select_interface argv alldevs of
             Inl e \<Rightarrow> Inl e
           | Inr d \<Rightarrow>
               if \<not> open_live env (if_name d) then Inl (Open_Failed (if_name d))
               else (case argv of
                 _ # expr # _ \<Rightarrow>
                   if compile_filter env expr = -1 then Inl Bpf_Error
                   else if set_filter env expr = -1 then Inl Filter_Error
                   else Inr d
               | _ \<Rightarrow> Inr d)))"

text \<open>What \<^verbatim>\<open>main\<close> has when it reaches the start of the threads. \<^term>\<open>running\<close> is \<^verbatim>\<open>keep_running\<close> there;
  the threads are started when it holds and \<^verbatim>\<open>ssl\<close> is set (\<^verbatim>\<open>handle\<close> always is).\<close>

record started =
  st_secret :: string
  st_device :: pcap_if
  st_connection :: connection
  st_capturing :: bool

definition main_setup :: "main_env \<Rightarrow> string list \<Rightarrow> attempt list \<Rightarrow> bool \<Rightarrow> (main_error + started) option" where
  "main_setup env argv as running =
     (if geteuid env \<noteq> 0 then Some (Inl Not_Root)
      else case init_ssl env of
        Inl e \<Rightarrow> Some (Inl e)
      | Inr _ \<Rightarrow> (case open_capture env argv of
          Inl e \<Rightarrow> Some (Inl e)
        | Inr d \<Rightarrow> (case connect_loop (inet_pton env (dest_ip_of env)) (dest_ip_of env) as \<lparr>sockfd = -1, conn_ssl = No_Ssl, open_fds = []\<rparr> of
            None \<Rightarrow> None
          | Some (Inl e) \<Rightarrow> Some (Inl e)
          | Some (Inr c) \<Rightarrow> Some (Inr \<lparr>st_secret = shared_secret_of env, st_device = d, st_connection = c,
              st_capturing = running \<and> conn_ssl c \<noteq> No_Ssl\<rparr>))))"

section \<open>monitor\_pcap\_stats\<close>

text \<open>\<^verbatim>\<open>for (int i = 0; i < 10 && keep_running; ++i) ::sleep(1)\<close> with \<^term>\<open>n\<close> rounds left: how often it
  sleeps, and the values of \<^verbatim>\<open>keep_running\<close> not read yet (after the list it is false for good).\<close>

fun sleep_loop :: "nat \<Rightarrow> bool list \<Rightarrow> nat \<times> bool list" where
  "sleep_loop 0 ks = (0, ks)"
| "sleep_loop (Suc n) [] = (0, [])"
| "sleep_loop (Suc n) (k # ks) = (if k then (let (m, ks') = sleep_loop n ks in (Suc m, ks')) else (0, ks))"

record pcap_stat =
  ps_ret :: int
  ps_recv :: u32
  ps_drop :: u32

text \<open>One round: what is printed, and the two static counters after it.\<close>

definition stats_round :: "pcap_stat \<Rightarrow> u32 \<times> u32 \<Rightarrow> (u32 \<times> u32) list \<times> (u32 \<times> u32)" where
  "stats_round ps prev =
     (if ps_ret ps = 0 then
        let diff_recv = ps_recv ps - fst prev; diff_drop = ps_drop ps - snd prev in
        (if diff_recv > 0 \<or> diff_drop > 0 then [(diff_recv, diff_drop)] else [], (ps_recv ps, ps_drop ps))
      else ([], prev))"

lemma sleep_loop_shorter: "length (snd (sleep_loop n ks)) \<le> length ks"
  by (induction n ks rule: sleep_loop.induct) (auto split: prod.splits)

text \<open>\<^term>\<open>stats n\<close> is what \<^verbatim>\<open>pcap_stats\<close> reports in round \<^term>\<open>n\<close>. The result: the lines printed, how
  long each round slept, and the counters at the end.\<close>

function monitor_pcap_stats ::
  "(nat \<Rightarrow> pcap_stat) \<Rightarrow> nat \<Rightarrow> u32 \<times> u32 \<Rightarrow> bool list \<Rightarrow> (u32 \<times> u32) list \<times> nat list \<times> (u32 \<times> u32)" where
  "monitor_pcap_stats stats n prev [] = ([], [], prev)"
| "monitor_pcap_stats stats n prev (k # ks) =
     (if \<not> k then ([], [], prev)
      else let (out, prev') = stats_round (stats n) prev; (m, ks') = sleep_loop 10 ks;
               (outs, ms, final) = monitor_pcap_stats stats (Suc n) prev' ks' in
           (out @ outs, m # ms, final))"
  by pat_completeness auto

termination
  by (relation "measure (\<lambda>(stats, n, prev, ks). length ks)")
     (auto simp: less_Suc_eq_le, metis sleep_loop_shorter snd_conv)

section \<open>Lemmas\<close>

lemma find_first: "P d \<Longrightarrow> \<forall>x \<in> set xs. \<not> P x \<Longrightarrow> find P (xs @ d # ys) = Some d"
  by (induction xs) auto

lemma find_found: "find P ds = Some d \<Longrightarrow> \<exists>xs ys. ds = xs @ d # ys \<and> P d \<and> (\<forall>x \<in> set xs. \<not> P x)"
proof (induction ds)
  case (Cons a ds)
  show ?case
  proof (cases "P a")
    case True
    then show ?thesis using Cons.prems by (intro exI [of _ "[]"] exI [of _ ds]) simp
  next
    case False
    then obtain xs ys where "ds = xs @ d # ys" "P d" "\<forall>x \<in> set xs. \<not> P x" using Cons by auto
    then show ?thesis using False by (intro exI [of _ "a # xs"] exI [of _ ys]) simp
  qed
qed simp

lemma find_split:
  "find P ds = Some d \<longleftrightarrow> (\<exists>xs ys. ds = xs @ d # ys \<and> P d \<and> (\<forall>x \<in> set xs. \<not> P x))"
  using find_found find_first by metis

lemma find_named_find: "find_named t ds = find (\<lambda>d. if_name d = t) ds"
  by (induction ds) auto

lemma find_not_loopback_find: "find_not_loopback ds = find (\<lambda>d. if_flags d AND PCAP_IF_LOOPBACK = 0) ds"
  by (induction ds) auto

lemma found_in_list: "find_named t ds = Some d \<Longrightarrow> d \<in> set ds" "find_not_loopback ds = Some d \<Longrightarrow> d \<in> set ds"
  by (auto simp: find_named_find find_not_loopback_find find_split)

text \<open>The loop never holds a descriptor besides \<^verbatim>\<open>sockfd\<close>.\<close>

definition one_socket :: "connection \<Rightarrow> bool" where
  "one_socket c \<longleftrightarrow> open_fds c = (if sockfd c < 0 then [] else [sockfd c])"

lemma open_socket_one: "one_socket c \<Longrightarrow> one_socket (open_socket a c)"
  by (auto simp: one_socket_def open_socket_def close_fd_def Let_def)

lemma open_socket_fields [simp]:
  "sockfd (open_socket a c) = at_socket a" "conn_ssl (open_socket a c) = conn_ssl c"
  by (simp_all add: open_socket_def close_fd_def Let_def)

definition good_round :: "attempt \<Rightarrow> bool" where
  "good_round a \<longleftrightarrow> 0 \<le> at_socket a \<and> at_connect a = 0 \<and> at_ssl_new a \<and> at_ssl_set_fd a = 1 \<and> at_ssl_connect a = 1"

lemma connect_loop_result:
  assumes "connect_loop pton ip as c = Some (Inr c')" "one_socket c"
  shows "one_socket c' \<and> (conn_ssl c' = Ssl_Connected \<and> 0 \<le> sockfd c' \<or> (\<exists>a \<in> set as. \<not> at_running a))"
  using assms
proof (induction as arbitrary: c)
  case (Cons a as)
  have one': "one_socket (open_socket a c)" using Cons.prems(2) by (rule open_socket_one)
  then have one: "one_socket ((open_socket a c)\<lparr>conn_ssl := x\<rparr>)" for x by (simp add: one_socket_def)
  show ?case
  proof (cases "at_running a")
    case False
    then show ?thesis using Cons.prems by simp
  next
    case True
    then show ?thesis using Cons.IH [OF _ one] Cons.IH [OF _ one'] Cons.prems(1) one
      by (auto simp: Let_def split: if_splits)
  qed
qed simp

lemma connect_loop_retries:
  assumes "0 < pton" "at_running a" "\<not> good_round a" "one_socket c"
  shows "\<exists>c'. connect_loop pton ip (a # as) c = connect_loop pton ip as c' \<and> one_socket c'"
proof -
  have "one_socket (open_socket a c)" using assms(4) by (rule open_socket_one)
  then have "one_socket (open_socket a c)" "one_socket ((open_socket a c)\<lparr>conn_ssl := x\<rparr>)" for x
    by (simp_all add: one_socket_def)
  then show ?thesis using assms by (auto simp: Let_def good_round_def)
qed

lemma sleep_loop_le: "fst (sleep_loop n ks) \<le> n"
  by (induction n ks rule: sleep_loop.induct) (auto split: prod.splits)

text \<open>The differences of successive counters, as a list of its own.\<close>

fun count_diffs :: "u32 \<times> u32 \<Rightarrow> (u32 \<times> u32) list \<Rightarrow> (u32 \<times> u32) list" where
  "count_diffs prev [] = []"
| "count_diffs prev (c # cs) = (fst c - fst prev, snd c - snd prev) # count_diffs c cs"

lemma count_diffs_sum:
  fixes prev :: "u32 \<times> u32"
  defines "lines \<equiv> \<lambda>prev cs. filter (\<lambda>(r, d). r \<noteq> 0 \<or> d \<noteq> 0) (count_diffs prev cs)"
  shows "fst prev + sum_list (map fst (lines prev cs)) = fst (last (prev # cs)) \<and>
    snd prev + sum_list (map snd (lines prev cs)) = snd (last (prev # cs))"
proof (induction cs arbitrary: prev)
  case (Cons c cs)
  have "fst prev + sum_list (map fst (lines prev (c # cs))) = fst c + sum_list (map fst (lines c cs))"
      "snd prev + sum_list (map snd (lines prev (c # cs))) = snd c + sum_list (map snd (lines c cs))"
    by (simp_all add: lines_def algebra_simps)
  then show ?case using Cons [of c] by simp
qed (simp add: lines_def)

lemma stats_round_report:
  "stats_round ps prev = (if ps_ret ps = 0
     then (filter (\<lambda>(r, d). r \<noteq> 0 \<or> d \<noteq> 0) (count_diffs prev [(ps_recv ps, ps_drop ps)]), (ps_recv ps, ps_drop ps))
     else ([], prev))"
  by (simp add: stats_round_def Let_def word_gt_0)

lemma monitor_roundE:
  assumes "monitor_pcap_stats stats n prev (True # ks) = (outs, ms, final)"
  obtains out prev' m ks' outs' ms' where "stats_round (stats n) prev = (out, prev')" "length ks' \<le> length ks" "m \<le> 10"
    "monitor_pcap_stats stats (Suc n) prev' ks' = (outs', ms', final)" "outs = out @ outs'" "ms = m # ms'"
proof -
  obtain out prev' where out: "stats_round (stats n) prev = (out, prev')" by (cases "stats_round (stats n) prev")
  obtain m ks' where m: "sleep_loop 10 ks = (m, ks')" by (cases "sleep_loop 10 ks")
  then have "length ks' \<le> length ks" "m \<le> 10" using sleep_loop_shorter [of 10 ks] sleep_loop_le [of 10 ks] by simp_all
  then show ?thesis using assms out m that by (auto split: prod.splits)
qed

lemma monitor_reports:
  assumes "monitor_pcap_stats stats n prev ks = (outs, ms, final)"
  shows "outs = filter (\<lambda>(r, d). r \<noteq> 0 \<or> d \<noteq> 0) (count_diffs prev
        (map (\<lambda>ps. (ps_recv ps, ps_drop ps)) (filter (\<lambda>ps. ps_ret ps = 0) (map stats [n..<n + length ms])))) \<and>
    final = last (prev # map (\<lambda>ps. (ps_recv ps, ps_drop ps)) (filter (\<lambda>ps. ps_ret ps = 0) (map stats [n..<n + length ms]))) \<and>
    (\<forall>m \<in> set ms. m \<le> 10)"
  using assms
proof (induction "length ks" arbitrary: n prev ks outs ms final rule: less_induct)
  case less
  show ?case
  proof (cases "\<exists>ks0. ks = True # ks0")
    case True
    then obtain ks0 where ks: "ks = True # ks0" by blast
    obtain out prev' m ks' outs' ms' where out: "stats_round (stats n) prev = (out, prev')" and m: "length ks' < length ks" "m \<le> 10"
      and r: "monitor_pcap_stats stats (Suc n) prev' ks' = (outs', ms', final)" "outs = out @ outs'" "ms = m # ms'"
      using monitor_roundE [OF less.prems [unfolded ks]] unfolding ks by (metis length_Cons less_Suc_eq_le)
    have rng: "[n..<n + length ms] = n # [Suc n..<Suc n + length ms']" unfolding r(3) by (subst upt_conv_Cons) simp_all
    define cs where "cs = map (\<lambda>ps. (ps_recv ps, ps_drop ps)) (filter (\<lambda>ps. ps_ret ps = 0) (map stats [Suc n..<Suc n + length ms']))"
    have ih: "outs' = filter (\<lambda>(r, d). r \<noteq> 0 \<or> d \<noteq> 0) (count_diffs prev' cs)" "final = last (prev' # cs)" "\<forall>m \<in> set ms'. m \<le> 10"
      using less.hyps [OF m(1) r(1)] unfolding cs_def by blast+
    have ms: "\<forall>m \<in> set ms. m \<le> 10" using ih(3) m(2) by (simp add: r(3))
    show ?thesis
    proof (cases "ps_ret (stats n) = 0")
      case True
      have "(out, prev') = (filter (\<lambda>(r, d). r \<noteq> 0 \<or> d \<noteq> 0) (count_diffs prev [(ps_recv (stats n), ps_drop (stats n))]),
          (ps_recv (stats n), ps_drop (stats n)))"
        unfolding out [symmetric] stats_round_report if_P [OF True] by (rule refl)
      then have o: "out = filter (\<lambda>(r, d). r \<noteq> 0 \<or> d \<noteq> 0) (count_diffs prev [(ps_recv (stats n), ps_drop (stats n))])"
          "prev' = (ps_recv (stats n), ps_drop (stats n))"
        by (simp_all only: prod.inject)
      have reports: "map (\<lambda>ps. (ps_recv ps, ps_drop ps)) (filter (\<lambda>ps. ps_ret ps = 0) (map stats [n..<n + length ms])) = prev' # cs"
        unfolding rng cs_def o(2) using True by simp
      show ?thesis unfolding reports using ms ih(2) by (simp add: r(2) ih(1) o)
    next
      case False
      then have "out = []" "prev' = prev" using out by (simp_all add: stats_round_report)
      moreover have reports: "map (\<lambda>ps. (ps_recv ps, ps_drop ps)) (filter (\<lambda>ps. ps_ret ps = 0) (map stats [n..<n + length ms])) = cs"
        unfolding rng cs_def using False by simp
      ultimately show ?thesis unfolding reports using ms ih by (simp add: r(2))
    qed
  next
    case False
    then have "monitor_pcap_stats stats n prev ks = ([], [], prev)" by (cases ks) auto
    then show ?thesis using less.prems by simp
  qed
qed

lemma sleep_loop_running: "sleep_loop n (replicate n True @ ks) = (n, ks)"
  by (induction n) simp_all

lemma monitor_full_rounds:
  "fst (snd (monitor_pcap_stats stats n prev (replicate (11 * N) True))) = replicate N 10"
proof (induction N arbitrary: n prev)
  case (Suc N)
  have "replicate (11 * Suc N) True = True # replicate 10 True @ replicate (11 * N) True"
    by (simp flip: replicate_Suc replicate_add)
  then show ?case using Suc sleep_loop_running [of 10] by (simp split: prod.splits) (metis fst_conv snd_conv)
qed simp

section \<open>Properties\<close>

text \<open>C33: with an argument the capture interface is the first device of that name, and an error that
  lists all devices when there is none; without one it is the first device that is not a loopback
  device, else the first device, and an error when there is no device at all.\<close>

theorem select_interface_spec:
  "select_interface argv devs = Inr d \<longleftrightarrow>
     (case argv of
        t # _ \<Rightarrow> \<exists>xs ys. devs = xs @ d # ys \<and> if_name d = t \<and> (\<forall>x \<in> set xs. if_name x \<noteq> t)
      | [] \<Rightarrow> (\<exists>xs ys. devs = xs @ d # ys \<and> if_flags d AND PCAP_IF_LOOPBACK = 0 \<and>
                 (\<forall>x \<in> set xs. if_flags x AND PCAP_IF_LOOPBACK \<noteq> 0)) \<or>
              (\<forall>x \<in> set devs. if_flags x AND PCAP_IF_LOOPBACK \<noteq> 0) \<and> (\<exists>ys. devs = d # ys))"
proof (cases argv)
  case Nil
  have none: "(\<forall>x \<in> set devs. if_flags x AND PCAP_IF_LOOPBACK \<noteq> 0) \<longleftrightarrow> find_not_loopback devs = None"
    by (auto simp: find_not_loopback_find find_None_iff)
  have some: "(\<exists>xs ys. devs = xs @ d # ys \<and> if_flags d AND PCAP_IF_LOOPBACK = 0 \<and>
      (\<forall>x \<in> set xs. if_flags x AND PCAP_IF_LOOPBACK \<noteq> 0)) \<longleftrightarrow> find_not_loopback devs = Some d"
    by (simp add: find_not_loopback_find find_split)
  show ?thesis unfolding Nil list.case none some
    by (cases "find_not_loopback devs") (auto simp: select_interface_def split: list.splits)
next
  case (Cons t rest)
  have some: "(\<exists>xs ys. devs = xs @ d # ys \<and> if_name d = t \<and> (\<forall>x \<in> set xs. if_name x \<noteq> t)) \<longleftrightarrow>
      find_named t devs = Some d"
    by (simp add: find_named_find find_split)
  show ?thesis unfolding Cons list.case some by (auto simp: select_interface_def split: option.splits)
qed

text \<open>C17: \<^verbatim>\<open>main\<close> starts the capture threads only as root, with both TLS version bounds set, on an
  opened device of the list with the filter of the command line installed, and over a connection
  whose TLS handshake is done; at that point exactly one socket is open. (\<^verbatim>\<open>keep_running\<close> never
  becomes true again: when it holds after the connection loop, it held in every round.)\<close>

theorem capture_starts_connected:
  assumes "main_setup env argv as running = Some (Inr st)" "st_capturing st"
    and "running \<longrightarrow> (\<forall>a \<in> set as. at_running a)"
  shows "geteuid env = 0 \<and> set_min_proto_version env = 1 \<and> set_max_proto_version env = 1 \<and>
    (\<exists>devs. findalldevs env = Some devs \<and> st_device st \<in> set devs) \<and> open_live env (if_name (st_device st)) \<and>
    (\<forall>n expr rest. argv = n # expr # rest \<longrightarrow> compile_filter env expr \<noteq> -1 \<and> set_filter env expr \<noteq> -1) \<and>
    conn_ssl (st_connection st) = Ssl_Connected \<and> open_fds (st_connection st) = [sockfd (st_connection st)]"
proof -
  obtain d c where d: "open_capture env argv = Inr d" "init_ssl env = Inr ()" "geteuid env = 0"
    and c: "connect_loop (inet_pton env (dest_ip_of env)) (dest_ip_of env) as
        \<lparr>sockfd = -1, conn_ssl = No_Ssl, open_fds = []\<rparr> = Some (Inr c)"
    and st: "st_device st = d" "st_connection st = c" "running"
    using assms(1,2) by (auto simp: main_setup_def split: if_splits sum.splits option.splits)
  have "conn_ssl c = Ssl_Connected \<and> 0 \<le> sockfd c \<and> one_socket c"
    using connect_loop_result [OF c] assms(3) st(3) by (auto simp: one_socket_def)
  moreover have "set_min_proto_version env = 1 \<and> set_max_proto_version env = 1"
    using d(2) by (auto simp: init_ssl_def split: if_splits)
  moreover have "\<exists>devs. findalldevs env = Some devs \<and> d \<in> set devs"
    using d(1) by (auto simp: open_capture_def select_interface_def dest: found_in_list
        split: if_splits option.splits sum.splits list.splits)
  moreover have "open_live env (if_name d) \<and>
      (\<forall>n expr rest. argv = n # expr # rest \<longrightarrow> compile_filter env expr \<noteq> -1 \<and> set_filter env expr \<noteq> -1)"
    using d(1) by (auto simp: open_capture_def split: if_splits option.splits sum.splits list.splits)
  ultimately show ?thesis using d(3) st by (simp add: one_socket_def)
qed

text \<open>C18: the connection loop connects in the first round in which every call succeeds, however many
  rounds failed before and at whichever call; then only the socket of that round is open.\<close>

theorem connect_loop_connects:
  assumes "0 < pton" "\<forall>a \<in> set bad. at_running a \<and> \<not> good_round a" "at_running a" "good_round a" "one_socket c"
  shows "connect_loop pton ip (bad @ a # rest) c =
    Some (Inr \<lparr>sockfd = at_socket a, conn_ssl = Ssl_Connected, open_fds = [at_socket a]\<rparr>)"
  using assms(2,5)
proof (induction bad arbitrary: c)
  case Nil
  have "one_socket (open_socket a c)" using Nil(2) by (rule open_socket_one)
  then show ?case using assms(1,3,4) by (auto simp: Let_def good_round_def one_socket_def)
next
  case (Cons b bad)
  obtain c' where c': "connect_loop pton ip (b # (bad @ a # rest)) c = connect_loop pton ip (bad @ a # rest) c'" "one_socket c'"
    using connect_loop_retries [OF assms(1) _ _ Cons.prems(2)] Cons.prems(1) by (metis list.set_intros(1))
  show ?case unfolding append_Cons c'(1) by (rule Cons.IH) (use Cons.prems(1) c'(2) in auto)
qed

text \<open>An error return of \<^verbatim>\<open>main\<close> is 2 exactly when the process is root, TLS could be set up and
  the capture could not be opened; otherwise it is 1.\<close>

theorem main_exit_codes:
  assumes "main_setup env argv as running = Some (Inl e)"
  shows "exit_code e \<in> {1, 2} \<and> (exit_code e = 2 \<longleftrightarrow> geteuid env = 0 \<and> init_ssl env = Inr () \<and> open_capture env argv = Inl e)"
proof -
  have loop: "connect_loop pton ip as c = Some (Inl e) \<Longrightarrow> e = Invalid_Address ip" for pton ip c
    by (induction as arbitrary: c) (auto simp: Let_def split: if_splits)
  have sel: "select_interface argv devs = Inl e \<Longrightarrow> exit_code e = 2" for devs
    by (auto simp: select_interface_def split: list.splits option.splits)
  have cap: "open_capture env argv = Inl e \<Longrightarrow> exit_code e = 2"
    using sel by (auto simp: open_capture_def split: option.splits sum.splits if_splits list.splits)
  have ssl: "init_ssl env = Inl e \<Longrightarrow> exit_code e = 1" by (auto simp: init_ssl_def split: if_splits)
  show ?thesis using assms cap ssl loop
    by (fastforce simp: main_setup_def split: if_splits sum.splits option.splits)
qed

text \<open>C34: over any finite sequence of values of \<^verbatim>\<open>keep_running\<close> the statistics thread makes some number of
  rounds, one call of \<^verbatim>\<open>pcap_stats\<close> in each. The lines it prints are the differences between the
  counters of successive calls that succeeded, without the lines that would say that nothing
  happened; they add up, in 32-bit arithmetic, to the counters that the last successful call
  reported. No round sleeps more than ten seconds, and while \<^verbatim>\<open>keep_running\<close> stays true every round
  sleeps ten.\<close>

theorem monitor_pcap_stats_totals:
  assumes "monitor_pcap_stats stats n prev ks = (outs, ms, final)"
    and "reports = map (\<lambda>ps. (ps_recv ps, ps_drop ps)) (filter (\<lambda>ps. ps_ret ps = 0) (map stats [n..<n + length ms]))"
  shows "outs = filter (\<lambda>(r, d). r \<noteq> 0 \<or> d \<noteq> 0) (count_diffs prev reports) \<and> final = last (prev # reports) \<and>
    fst prev + sum_list (map fst outs) = fst (last (prev # reports)) \<and>
    snd prev + sum_list (map snd outs) = snd (last (prev # reports)) \<and>
    (\<forall>m \<in> set ms. m \<le> 10) \<and> (\<forall>N. ks = replicate (11 * N) True \<longrightarrow> ms = replicate N 10)"
proof -
  have r: "outs = filter (\<lambda>(r, d). r \<noteq> 0 \<or> d \<noteq> 0) (count_diffs prev reports)" "final = last (prev # reports)"
      "\<forall>m \<in> set ms. m \<le> 10"
    using monitor_reports [OF assms(1)] unfolding assms(2) by auto
  have "ms = replicate N 10" if "ks = replicate (11 * N) True" for N
    using assms(1) monitor_full_rounds [of stats n prev N] unfolding that by simp
  then show ?thesis using r count_diffs_sum [of prev reports] by simp
qed

section \<open>Witnesses\<close>

definition sample_attempt :: attempt where
  "sample_attempt = \<lparr>at_running = True, at_socket = 5, at_connect = 0, at_ssl_new = True, at_ssl_set_fd = 1, at_ssl_connect = 1\<rparr>"

definition sample_main :: main_env where
  "sample_main = \<lparr>geteuid = 0, getenv = (\<lambda>_. None), ssl_library_init = 1, tls_client_method = True, ssl_ctx_new = True,
     set_min_proto_version = 1, set_max_proto_version = 1,
     findalldevs = Some [\<lparr>if_name = ''lo'', if_flags = 1\<rparr>, \<lparr>if_name = ''eth0'', if_flags = 0\<rparr>],
     open_live = (\<lambda>_. True), compile_filter = (\<lambda>_. 0), set_filter = (\<lambda>_. 0), inet_pton = (\<lambda>_. 1)\<rparr>"

theorem capture_starts_connected_witness:
  "\<exists>st. main_setup sample_main [] [sample_attempt\<lparr>at_connect := -1\<rparr>, sample_attempt\<lparr>at_socket := 6\<rparr>] True = Some (Inr st) \<and>
     st_device st = \<lparr>if_name = ''eth0'', if_flags = 0\<rparr> \<and>
     conn_ssl (st_connection st) = Ssl_Connected \<and> open_fds (st_connection st) = [sockfd (st_connection st)]"
proof -
  obtain st where st: "main_setup sample_main [] [sample_attempt\<lparr>at_connect := -1\<rparr>, sample_attempt\<lparr>at_socket := 6\<rparr>] True = Some (Inr st)"
      "st_capturing st" "st_device st = \<lparr>if_name = ''eth0'', if_flags = 0\<rparr>"
    by (simp add: main_setup_def init_ssl_def open_capture_def select_interface_def sample_main_def sample_attempt_def
        open_socket_def close_fd_def PCAP_IF_LOOPBACK_def)
  then show ?thesis using capture_starts_connected [OF st(1,2)] by (auto simp: sample_attempt_def)
qed

theorem connect_loop_connects_witness:
  "connect_loop 1 ''127.0.0.1'' ([sample_attempt\<lparr>at_socket := -1\<rparr>, sample_attempt\<lparr>at_ssl_connect := 0\<rparr>] @ sample_attempt\<lparr>at_socket := 7\<rparr> # [])
     \<lparr>sockfd = -1, conn_ssl = No_Ssl, open_fds = []\<rparr> =
     Some (Inr \<lparr>sockfd = 7, conn_ssl = Ssl_Connected, open_fds = [7]\<rparr>)"
  using connect_loop_connects [of 1 "[sample_attempt\<lparr>at_socket := -1\<rparr>, sample_attempt\<lparr>at_ssl_connect := 0\<rparr>]"
      "sample_attempt\<lparr>at_socket := 7\<rparr>" "\<lparr>sockfd = -1, conn_ssl = No_Ssl, open_fds = []\<rparr>" "''127.0.0.1''" "[]"]
  by (simp add: sample_attempt_def good_round_def one_socket_def)

theorem main_exit_codes_example:
  "exit_code (Interface_Not_Found ''eth9'' [''lo'', ''eth0'']) = 2 \<and>
   open_capture sample_main [''eth9''] = Inl (Interface_Not_Found ''eth9'' [''lo'', ''eth0''])"
proof -
  have "main_setup sample_main [''eth9''] [] True = Some (Inl (Interface_Not_Found ''eth9'' [''lo'', ''eth0'']))"
    by (simp add: main_setup_def init_ssl_def open_capture_def select_interface_def sample_main_def)
  from main_exit_codes [OF this] show ?thesis by simp
qed

theorem select_interface_spec_witness:
  "select_interface [] [\<lparr>if_name = ''lo'', if_flags = 1\<rparr>, \<lparr>if_name = ''eth0'', if_flags = 0\<rparr>] = Inr \<lparr>if_name = ''eth0'', if_flags = 0\<rparr>"
  unfolding select_interface_spec list.case
  by (intro disjI1 exI [of _ "[\<lparr>if_name = ''lo'', if_flags = 1\<rparr>]"] exI [of _ "[]"]) (simp add: PCAP_IF_LOOPBACK_def)

text \<open>Three rounds, the second with a failed call of \<^verbatim>\<open>pcap_stats\<close>.\<close>

definition sample_stats :: "nat \<Rightarrow> pcap_stat" where
  "sample_stats n = (if n = 0 then \<lparr>ps_ret = 0, ps_recv = 7, ps_drop = 0\<rparr>
     else if n = 1 then \<lparr>ps_ret = -1, ps_recv = 9, ps_drop = 9\<rparr> else \<lparr>ps_ret = 0, ps_recv = 12, ps_drop = 2\<rparr>)"

theorem monitor_pcap_stats_totals_witness:
  "\<exists>outs ms. monitor_pcap_stats sample_stats 0 (0, 0) [True, False, True, False, True, False] = (outs, ms, (12, 2)) \<and>
     outs = filter (\<lambda>(r, d). r \<noteq> 0 \<or> d \<noteq> 0) (count_diffs (0, 0) [(7, 0), (12, 2)]) \<and>
     sum_list (map fst outs) = 12 \<and> sum_list (map snd outs) = 2"
proof -
  have sleep: "sleep_loop 10 (False # ks) = (0, ks)" for ks by (simp add: numeral_eq_Suc)
  have run: "monitor_pcap_stats sample_stats 0 (0, 0) [True, False, True, False, True, False] =
      ([(7, 0), (5, 2)], [0, 0, 0], (12, 2))"
    by (simp add: sleep sample_stats_def stats_round_def)
  have reports: "[(7, 0), (12, 2)] = map (\<lambda>ps. (ps_recv ps, ps_drop ps))
      (filter (\<lambda>ps. ps_ret ps = 0) (map sample_stats [0..<0 + length [0 :: nat, 0, 0]]))"
    by (simp add: sample_stats_def)
  note totals = monitor_pcap_stats_totals [OF run reports]
  have "sum_list (map fst [(7 :: u32, 0 :: u32), (5, 2)]) = 12" "sum_list (map snd [(7 :: u32, 0 :: u32), (5, 2)]) = 2" by simp_all
  then show ?thesis using run totals [THEN conjunct1] by (intro exI conjI)
qed

end
