(* ===== verification/Rust_Service.thy ===== *)
theory Rust_Service
  imports Header_Parsers Tcp_Options Text_Dissectors
begin

text \<open>
  The receiving side, \<^verbatim>\<open>rust/packet_service\<close>: \<^verbatim>\<open>handle_cpp_connection\<close> of \<^verbatim>\<open>handlers.rs\<close> cuts the byte
  stream into records, checks the HMAC of each and decodes it into a \<^verbatim>\<open>DashboardPacket\<close>; the
  formatting functions are those of \<^verbatim>\<open>model.rs\<close>. A Rust \<^verbatim>\<open>String\<close> is the list of its UTF-8 bytes. The
  HMAC of the \<^verbatim>\<open>ring\<close> library is a parameter, the same function as on the sending side, and so are
  the reading methods of the \<^verbatim>\<open>bytes\<close> library. The tasks that hand the packets on to the dashboards
  are not modelled.
\<close>

section \<open>Reading from the buffer\<close>

text \<open>The methods of the trait \<^verbatim>\<open>Buf\<close> of the \<^verbatim>\<open>bytes\<close> library, which are a parameter: the value read
  and the rest of the buffer; \<^term>\<open>None\<close> is a panic.\<close>

record buf_ops =
  get_u8 :: "byte list \<Rightarrow> (byte \<times> byte list) option"
  get_u16_le :: "byte list \<Rightarrow> (u16 \<times> byte list) option"
  get_u32_le :: "byte list \<Rightarrow> (u32 \<times> byte list) option"
  get_u64_le :: "byte list \<Rightarrow> (u64 \<times> byte list) option"
  copy_to_slice :: "nat \<Rightarrow> byte list \<Rightarrow> (byte list \<times> byte list) option"
  advance :: "nat \<Rightarrow> byte list \<Rightarrow> (unit \<times> byte list) option"

text \<open>The loop \<^verbatim>\<open>for _ in 0..8\<close> that reads the edges of the SACK blocks.\<close>

fun get_many :: "(byte list \<Rightarrow> ('a \<times> byte list) option) \<Rightarrow> nat \<Rightarrow> byte list \<Rightarrow> ('a list \<times> byte list) option" where
  "get_many get 0 b = Some ([], b)"
| "get_many get (Suc n) b = do { (x, b) \<leftarrow> get b; (xs, b) \<leftarrow> get_many get n b; Some (x # xs, b) }"

section \<open>Strings\<close>

definition utf8_width :: "byte \<Rightarrow> nat" where
  "utf8_width a = (if a < 0x80 then 1 else if a < 0xC2 then 0 else if a < 0xE0 then 2
     else if a < 0xF0 then 3 else if a < 0xF5 then 4 else 0)"

definition continuation :: "byte \<Rightarrow> bool" where
  "continuation a \<longleftrightarrow> a AND 192 = 128"

text \<open>The byte at position \<^term>\<open>n\<close>, or 0 behind the end.\<close>

definition safe_get :: "byte list \<Rightarrow> nat \<Rightarrow> byte" where
  "safe_get s n = (if n < length s then s ! n else 0)"

text \<open>Whether the second byte may follow a first byte of a three- or four-byte sequence.\<close>

definition second_ok :: "byte \<Rightarrow> byte \<Rightarrow> bool" where
  "second_ok a c \<longleftrightarrow>
     (if a = 0xE0 then 0xA0 \<le> c \<and> c \<le> 0xBF else if a = 0xED then 0x80 \<le> c \<and> c \<le> 0x9F
      else if a = 0xF0 then 0x90 \<le> c \<and> c \<le> 0xBF else if a = 0xF4 then 0x80 \<le> c \<and> c \<le> 0x8F
      else 0x80 \<le> c \<and> c \<le> 0xBF)"

text \<open>The first sequence of a non-empty string: whether it is valid, and how many bytes it takes.\<close>

definition utf8_first :: "byte list \<Rightarrow> bool \<times> nat" where
  "utf8_first s =
     (let a = safe_get s 0; w = utf8_width a in
      if w = 1 then (True, 1)
      else if w = 2 then (if continuation (safe_get s 1) then (True, 2) else (False, 1))
      else if w = 3 then
        (if \<not> second_ok a (safe_get s 1) then (False, 1)
         else if \<not> continuation (safe_get s 2) then (False, 2) else (True, 3))
      else if w = 4 then
        (if \<not> second_ok a (safe_get s 1) then (False, 1)
         else if \<not> continuation (safe_get s 2) then (False, 2)
         else if \<not> continuation (safe_get s 3) then (False, 3) else (True, 4))
      else (False, 1))"

lemma utf8_first_pos: "0 < snd (utf8_first s)"
  by (simp add: utf8_first_def Let_def)

text \<open>\<^verbatim>\<open>String::from_utf8_lossy\<close>: an invalid sequence becomes U+FFFD.\<close>

function from_utf8_lossy :: "byte list \<Rightarrow> byte list" where
  "from_utf8_lossy s =
     (if s = [] then []
      else case utf8_first s of (ok, n) \<Rightarrow>
        (if ok then take n s else [0xEF, 0xBF, 0xBD]) @ from_utf8_lossy (drop n s))"
  by pat_completeness auto

termination
  by (relation "measure length") (auto simp: utf8_first_pos [THEN order.strict_implies_not_eq] dest: arg_cong [of _ _ snd] intro!: diff_less, metis snd_conv utf8_first_pos)

declare from_utf8_lossy.simps [simp del]

text \<open>\<^verbatim>\<open>trim_matches('\0')\<close> removes NULs from both ends.\<close>

definition trim_nul :: "byte list \<Rightarrow> byte list" where
  "trim_nul s = rev (dropWhile (\<lambda>b. b = 0) (rev (dropWhile (\<lambda>b. b = 0) s)))"

definition text_of :: "byte list \<Rightarrow> byte list" where
  "text_of raw = trim_nul (from_utf8_lossy raw)"

fun dotted :: "byte list \<Rightarrow> byte list" where
  "dotted [] = []"
| "dotted [a] = dec (unat a)"
| "dotted (a # as) = dec (unat a) @ lit ''.'' @ dotted as"

definition ip_addr_to_string :: "byte list \<Rightarrow> bool \<Rightarrow> byte list" where
  "ip_addr_to_string ip is_v6 =
     (if is_v6 then concat (map (\<lambda>j. (if j = 0 then [] else lit '':'') @ hex2 (ip ! (2 * j)) @ hex2 (ip ! (2 * j + 1))) [0..<8])
      else dotted [ip ! 12, ip ! 13, ip ! 14, ip ! 15])"

definition mac_addr_to_string :: "byte list \<Rightarrow> byte list" where
  "mac_addr_to_string mac = concat (map (\<lambda>j. (if j = 0 then [] else lit '':'') @ hex2 (mac ! j)) [0..<6])"

definition protocol_to_string :: "byte \<Rightarrow> u16 \<Rightarrow> u16 \<Rightarrow> byte list" where
  "protocol_to_string proto sp dp =
     (if proto = 1 then lit ''ICMP''
      else if proto = 6 then
        (if sp = 80 \<or> dp = 80 then lit ''HTTP'' else if sp = 443 \<or> dp = 443 then lit ''HTTPS'' else lit ''TCP'')
      else if proto = 17 then
        (if sp = 67 \<or> sp = 68 \<or> dp = 67 \<or> dp = 68 then lit ''DHCP''
         else if sp = 53 \<or> dp = 53 then lit ''DNS'' else lit ''UDP'')
      else if proto = 58 then lit ''ICMPv6''
      else if proto = 89 then lit ''OSPF''
      else if proto = 200 then lit ''ARP''
      else if proto = 202 then lit ''STP''
      else lit ''Unknown('' @ dec (unat proto) @ lit '')'')"

section \<open>The packet\<close>

record dashboard_packet =
  d_timestamp :: u64
  d_src_ip :: "byte list"
  d_dst_ip :: "byte list"
  d_src_port :: u16
  d_dst_port :: u16
  d_protocol :: "byte list"
  d_has_tcp_ao :: bool
  d_tcp_flags :: byte
  d_l3_offset :: byte
  d_l4_offset :: byte
  d_tcp_seq :: u32
  d_tcp_ack :: u32
  d_icmp_type :: byte
  d_icmp_code :: byte
  d_delta_time :: u32
  d_vlan_id :: u16
  d_ip_ttl :: byte
  d_ip_tos :: byte
  d_tcp_win :: u16
  d_ip_id :: u16
  d_is_ipv6 :: bool
  d_is_fragment :: bool
  d_tcp_mss :: u16
  d_tcp_ws :: byte
  d_ipv6_ext_count :: byte
  d_ipv6_flow :: u32
  d_wire_len :: u32
  d_tcp_ts_val :: u32
  d_tcp_ts_ecr :: u32
  d_tcp_sack :: bool
  d_tcp_rtt :: u32
  d_vxlan_vni :: u32
  d_entropy_scaled :: u32
  d_ntp_stratum :: byte
  d_ntp_mode :: byte
  d_igmp_group :: "byte list"
  d_igmp_type :: byte
  d_lldp_chassis :: "byte list"
  d_lldp_port :: "byte list"
  d_tcp_sack_edges :: "u32 list"
  d_top_byte_info :: "byte list"
  d_dns_query :: "byte list"
  d_tls_sni :: "byte list"
  d_extra_info :: "byte list"
  d_app_layer_info :: "byte list"
  d_payload :: "byte list"
  d_src_mac :: "byte list"
  d_dst_mac :: "byte list"

definition STRUCT_SIZE :: nat where
  "STRUCT_SIZE = 1024"

definition HASH_SIZE :: nat where
  "HASH_SIZE = 64"

definition TOTAL_MSG_SIZE :: nat where
  "TOTAL_MSG_SIZE = STRUCT_SIZE + HASH_SIZE"

definition SHARED_SECRET :: "byte list" where
  "SHARED_SECRET = lit ''pacsni_secure_shared_secret_123''"

definition decode_packet :: "buf_ops \<Rightarrow> byte list \<Rightarrow> (dashboard_packet \<times> byte list) option" where
  "decode_packet buf b = do {
     (v_timestamp, b) \<leftarrow> get_u64_le buf b;
     (v_src_ip_raw, b) \<leftarrow> copy_to_slice buf 16 b;
     (v_dst_ip_raw, b) \<leftarrow> copy_to_slice buf 16 b;
     (v_src_port, b) \<leftarrow> get_u16_le buf b;
     (v_dst_port, b) \<leftarrow> get_u16_le buf b;
     (v_protocol, b) \<leftarrow> get_u8 buf b;
     (v_has_tcp_ao, b) \<leftarrow> get_u8 buf b;
     (v_tcp_flags, b) \<leftarrow> get_u8 buf b;
     (v_l3_offset, b) \<leftarrow> get_u8 buf b;
     (v_l4_offset, b) \<leftarrow> get_u8 buf b;
     (v_tcp_seq, b) \<leftarrow> get_u32_le buf b;
     (v_tcp_ack, b) \<leftarrow> get_u32_le buf b;
     (v_icmp_type, b) \<leftarrow> get_u8 buf b;
     (v_icmp_code, b) \<leftarrow> get_u8 buf b;
     (v_delta_time, b) \<leftarrow> get_u32_le buf b;
     (v_vlan_id, b) \<leftarrow> get_u16_le buf b;
     (v_ip_ttl, b) \<leftarrow> get_u8 buf b;
     (v_ip_tos, b) \<leftarrow> get_u8 buf b;
     (v_tcp_win, b) \<leftarrow> get_u16_le buf b;
     (v_ip_id, b) \<leftarrow> get_u16_le buf b;
     (v_is_ipv6, b) \<leftarrow> get_u8 buf b;
     (v_is_fragment, b) \<leftarrow> get_u8 buf b;
     (v_tcp_mss, b) \<leftarrow> get_u16_le buf b;
     (v_tcp_ws, b) \<leftarrow> get_u8 buf b;
     (v_ipv6_ext_count, b) \<leftarrow> get_u8 buf b;
     (v_ipv6_flow, b) \<leftarrow> get_u32_le buf b;
     (v_wire_len, b) \<leftarrow> get_u32_le buf b;
     (v_tcp_ts_val, b) \<leftarrow> get_u32_le buf b;
     (v_tcp_ts_ecr, b) \<leftarrow> get_u32_le buf b;
     (v_tcp_sack, b) \<leftarrow> get_u8 buf b;
     (v_tcp_rtt, b) \<leftarrow> get_u32_le buf b;
     (v_vxlan_vni, b) \<leftarrow> get_u32_le buf b;
     (v_entropy_scaled, b) \<leftarrow> get_u32_le buf b;
     (v_ntp_stratum, b) \<leftarrow> get_u8 buf b;
     (v_ntp_mode, b) \<leftarrow> get_u8 buf b;
     (v_igmp_type, b) \<leftarrow> get_u8 buf b;
     (v_igmp_group_raw, b) \<leftarrow> copy_to_slice buf 4 b;
     (v_lldp_c_raw, b) \<leftarrow> copy_to_slice buf 32 b;
     (v_lldp_p_raw, b) \<leftarrow> copy_to_slice buf 32 b;
     (v_sack_edges, b) \<leftarrow> get_many (get_u32_le buf) 8 b;
     (v_top_byte, b) \<leftarrow> get_u8 buf b;
     (v_top_freq, b) \<leftarrow> get_u8 buf b;
     (_, b) \<leftarrow> advance buf 151 b;
     (v_payload_len, b) \<leftarrow> get_u16_le buf b;
     (v_src_mac_raw, b) \<leftarrow> copy_to_slice buf 6 b;
     (v_dst_mac_raw, b) \<leftarrow> copy_to_slice buf 6 b;
     (v_dns_raw, b) \<leftarrow> copy_to_slice buf 64 b;
     (v_sni_raw, b) \<leftarrow> copy_to_slice buf 64 b;
     (v_extra_raw, b) \<leftarrow> copy_to_slice buf 128 b;
     (v_app_raw, b) \<leftarrow> copy_to_slice buf 128 b;
     (v_payload_raw, b) \<leftarrow> copy_to_slice buf 256 b;
     (_, b) \<leftarrow> advance buf 8 b;
     (_, b) \<leftarrow> advance buf HASH_SIZE b;
     Some (\<lparr>
       d_timestamp = v_timestamp, d_src_ip = ip_addr_to_string v_src_ip_raw (v_is_ipv6 \<noteq> 0),
       d_dst_ip = ip_addr_to_string v_dst_ip_raw (v_is_ipv6 \<noteq> 0), d_src_port = v_src_port,
       d_dst_port = v_dst_port, d_protocol = protocol_to_string v_protocol v_src_port v_dst_port,
       d_has_tcp_ao = (v_has_tcp_ao \<noteq> 0), d_tcp_flags = v_tcp_flags, d_l3_offset = v_l3_offset,
       d_l4_offset = v_l4_offset, d_tcp_seq = v_tcp_seq, d_tcp_ack = v_tcp_ack, d_icmp_type = v_icmp_type,
       d_icmp_code = v_icmp_code, d_delta_time = v_delta_time, d_vlan_id = v_vlan_id, d_ip_ttl = v_ip_ttl,
       d_ip_tos = v_ip_tos, d_tcp_win = v_tcp_win, d_ip_id = v_ip_id, d_is_ipv6 = (v_is_ipv6 \<noteq> 0),
       d_is_fragment = (v_is_fragment \<noteq> 0), d_tcp_mss = v_tcp_mss, d_tcp_ws = v_tcp_ws,
       d_ipv6_ext_count = v_ipv6_ext_count, d_ipv6_flow = v_ipv6_flow, d_wire_len = v_wire_len,
       d_tcp_ts_val = v_tcp_ts_val, d_tcp_ts_ecr = v_tcp_ts_ecr, d_tcp_sack = (v_tcp_sack \<noteq> 0),
       d_tcp_rtt = v_tcp_rtt, d_vxlan_vni = v_vxlan_vni, d_entropy_scaled = v_entropy_scaled,
       d_ntp_stratum = v_ntp_stratum, d_ntp_mode = v_ntp_mode, d_igmp_group = dotted v_igmp_group_raw,
       d_igmp_type = v_igmp_type, d_lldp_chassis = text_of v_lldp_c_raw,
       d_lldp_port = text_of v_lldp_p_raw, d_tcp_sack_edges = v_sack_edges,
       d_top_byte_info = lit ''0x'' @ hex2 v_top_byte @ lit '' ('' @ dec (unat v_top_freq) @ lit ''%)'',
       d_dns_query = text_of v_dns_raw, d_tls_sni = text_of v_sni_raw, d_extra_info = text_of v_extra_raw,
       d_app_layer_info = text_of v_app_raw,
       d_payload = take (min (unat v_payload_len) 256) v_payload_raw,
       d_src_mac = mac_addr_to_string v_src_mac_raw, d_dst_mac = mac_addr_to_string v_dst_mac_raw\<rparr>, b) }"

section \<open>Fields\<close>

text \<open>The contract of a field on the wire: reading gives back what was written and leaves the bytes
  behind it, for the values that the field can hold.\<close>

locale wire_field =
  fixes get :: "byte list \<Rightarrow> ('a \<times> byte list) option"
    and put :: "'a \<Rightarrow> byte list"
    and fits :: "'a \<Rightarrow> bool"
  assumes get_put: "fits x \<Longrightarrow> get (put x @ rest) = Some (x, rest)"
begin

lemma get_many_puts:
  "list_all fits xs \<Longrightarrow> get_many get (length xs) (concat (map put xs) @ rest) = Some (xs, rest)"
  by (induction xs) (auto simp: get_put)

lemma put_inject: "fits x \<Longrightarrow> fits y \<Longrightarrow> put x = put y \<Longrightarrow> x = y"
  using get_put [of x "[]"] get_put [of y "[]"] by simp

end

text \<open>What the documentation of \<^verbatim>\<open>Buf\<close> says of the methods: they read a byte, little-endian numbers,
  the next bytes into a slice, or skip bytes.\<close>

definition buf_ok :: "buf_ops \<Rightarrow> bool" where
  "buf_ok buf \<longleftrightarrow> wire_field (get_u8 buf) (\<lambda>a. [a]) (\<lambda>_. True) \<and>
     wire_field (get_u16_le buf) le16_bytes (\<lambda>_. True) \<and> wire_field (get_u32_le buf) le32_bytes (\<lambda>_. True) \<and>
     wire_field (get_u64_le buf) le64_bytes (\<lambda>_. True) \<and>
     (\<forall>n. wire_field (copy_to_slice buf n) (\<lambda>x. x) (\<lambda>x. length x = n)) \<and>
     (\<forall>n x rest. length x = n \<longrightarrow> advance buf n (x @ rest) = Some ((), rest))"

text \<open>Methods that do so.\<close>

fun read_u8 :: "byte list \<Rightarrow> (byte \<times> byte list) option" where
  "read_u8 (a # b) = Some (a, b)"
| "read_u8 [] = None"

fun read_u16 :: "byte list \<Rightarrow> (u16 \<times> byte list) option" where
  "read_u16 (a0 # a1 # b) = Some (be16 a1 a0, b)"
| "read_u16 _ = None"

fun read_u32 :: "byte list \<Rightarrow> (u32 \<times> byte list) option" where
  "read_u32 (a0 # a1 # a2 # a3 # b) = Some (le32 a0 a1 a2 a3, b)"
| "read_u32 _ = None"

definition read_u64 :: "byte list \<Rightarrow> (u64 \<times> byte list) option" where
  "read_u64 b = do {
     (low, b) \<leftarrow> read_u32 b;
     (high, b) \<leftarrow> read_u32 b;
     Some (push_bit 32 (ucast high) OR ucast low, b) }"

definition read_slice :: "nat \<Rightarrow> byte list \<Rightarrow> (byte list \<times> byte list) option" where
  "read_slice n b = (if n \<le> length b then Some (take n b, drop n b) else None)"

definition bytes_buf :: buf_ops where
  "bytes_buf = \<lparr>get_u8 = read_u8, get_u16_le = read_u16, get_u32_le = read_u32, get_u64_le = read_u64,
     copy_to_slice = read_slice, advance = (\<lambda>n b. map_option (\<lambda>(x, b). ((), b)) (read_slice n b))\<rparr>"

lemma le32_split:
  "le32 (ucast w) (ucast (drop_bit 8 w)) (ucast (drop_bit 16 w)) (ucast (drop_bit 24 w)) = (w :: u32)"
proof (rule bit_word_eqI)
  fix n :: nat
  assume "n < LENGTH(32)"
  then consider "n < 8" | "8 \<le> n" "n < 16" | "16 \<le> n" "n < 24" | "24 \<le> n" "n < 32" by force
  then show "bit (le32 (ucast w) (ucast (drop_bit 8 w)) (ucast (drop_bit 16 w)) (ucast (drop_bit 24 w))) n = bit w n"
    by cases (auto simp: le32_def be32_def bit_simps)
qed

lemma u64_split: "push_bit 32 (ucast (ucast (drop_bit 32 w) :: u32)) OR ucast (ucast w :: u32) = (w :: u64)"
  by (rule bit_word_eqI) (auto simp: bit_simps)

interpretation u8: wire_field read_u8 "\<lambda>a. [a]" "\<lambda>_. True"
  by unfold_locales simp

interpretation u16: wire_field read_u16 le16_bytes "\<lambda>_. True"
  by unfold_locales (simp add: le16_bytes_def)

interpretation u32: wire_field read_u32 le32_bytes "\<lambda>_. True"
  by unfold_locales (simp add: le32_bytes_def le32_split)

interpretation u64: wire_field read_u64 le64_bytes "\<lambda>_. True"
  by unfold_locales (simp add: read_u64_def le64_bytes_def u32.get_put u64_split)

interpretation slice: wire_field "read_slice n" "\<lambda>x. x" "\<lambda>x. length x = n" for n
  by unfold_locales (simp add: read_slice_def)

lemma bytes_buf_ok: "buf_ok bytes_buf"
  unfolding buf_ok_def bytes_buf_def
  using u8.wire_field_axioms u16.wire_field_axioms u32.wire_field_axioms u64.wire_field_axioms slice.wire_field_axioms
  by (simp add: read_slice_def)

section \<open>One record\<close>

text \<open>The packet that the dashboards are meant to get for a \<^verbatim>\<open>PacketInfo\<close>.\<close>

definition dashboard_of :: "packet_info \<Rightarrow> dashboard_packet" where
  "dashboard_of i = \<lparr>
       d_timestamp = timestamp i, d_src_ip = ip_addr_to_string (src_ip i) (is_ipv6 i \<noteq> 0),
       d_dst_ip = ip_addr_to_string (dst_ip i) (is_ipv6 i \<noteq> 0), d_src_port = src_port i,
       d_dst_port = dst_port i, d_protocol = protocol_to_string (protocol i) (src_port i) (dst_port i),
       d_has_tcp_ao = (has_tcp_ao i \<noteq> 0), d_tcp_flags = tcp_flags i, d_l3_offset = l3_offset i,
       d_l4_offset = l4_offset i, d_tcp_seq = tcp_seq i, d_tcp_ack = tcp_ack i, d_icmp_type = icmp_type i,
       d_icmp_code = icmp_code i, d_delta_time = delta_time i, d_vlan_id = vlan_id i, d_ip_ttl = ip_ttl i,
       d_ip_tos = ip_tos i, d_tcp_win = tcp_win i, d_ip_id = ip_id i, d_is_ipv6 = (is_ipv6 i \<noteq> 0),
       d_is_fragment = (is_fragment i \<noteq> 0), d_tcp_mss = tcp_mss i, d_tcp_ws = tcp_ws i,
       d_ipv6_ext_count = ipv6_ext_count i, d_ipv6_flow = ipv6_flow i, d_wire_len = wire_len i,
       d_tcp_ts_val = tcp_ts_val i, d_tcp_ts_ecr = tcp_ts_ecr i, d_tcp_sack = (tcp_sack i \<noteq> 0),
       d_tcp_rtt = tcp_rtt i, d_vxlan_vni = vxlan_vni i, d_entropy_scaled = entropy_scaled i,
       d_ntp_stratum = ntp_stratum i, d_ntp_mode = ntp_mode i, d_igmp_group = dotted (igmp_group i),
       d_igmp_type = igmp_type i, d_lldp_chassis = text_of (lldp_chassis i),
       d_lldp_port = text_of (lldp_port i), d_tcp_sack_edges = tcp_sack_edges i,
       d_top_byte_info = lit ''0x'' @ hex2 (top_byte i) @ lit '' ('' @ dec (unat (top_byte_freq i)) @ lit ''%)'',
       d_dns_query = text_of (dns_query i), d_tls_sni = text_of (tls_sni i),
       d_extra_info = text_of (extra_info i), d_app_layer_info = text_of (app_layer_info i),
       d_payload = take (min (unat (payload_len i)) 256) (payload i),
       d_src_mac = mac_addr_to_string (src_mac i), d_dst_mac = mac_addr_to_string (dst_mac i)\<rparr>"

lemma buf_reads:
  assumes "buf_ok buf"
  shows "get_u8 buf (a # rest) = Some (a, rest)" "get_u16_le buf (le16_bytes u @ rest) = Some (u, rest)"
    "get_u32_le buf (le32_bytes v @ rest) = Some (v, rest)" "get_u64_le buf (le64_bytes w @ rest) = Some (w, rest)"
    "length x = n \<Longrightarrow> copy_to_slice buf n (x @ rest) = Some (x, rest)"
    "length x = n \<Longrightarrow> advance buf n (x @ rest) = Some ((), rest)"
    "length ws = 8 \<Longrightarrow> get_many (get_u32_le buf) 8 (concat (map le32_bytes ws) @ rest) = Some (ws, rest)"
proof -
  have w: "wire_field (get_u8 buf) (\<lambda>a. [a]) (\<lambda>_. True)" "wire_field (get_u16_le buf) le16_bytes (\<lambda>_. True)"
    "wire_field (get_u32_le buf) le32_bytes (\<lambda>_. True)" "wire_field (get_u64_le buf) le64_bytes (\<lambda>_. True)"
    "wire_field (copy_to_slice buf n) (\<lambda>x. x) (\<lambda>x. length x = n)"
    using assms by (simp_all add: buf_ok_def)
  show "get_u8 buf (a # rest) = Some (a, rest)" using wire_field.get_put [OF w(1) TrueI, of a rest] by simp
  show "get_u16_le buf (le16_bytes u @ rest) = Some (u, rest)" "get_u32_le buf (le32_bytes v @ rest) = Some (v, rest)"
    "get_u64_le buf (le64_bytes w @ rest) = Some (w, rest)"
    by (rule wire_field.get_put [OF w(2) TrueI] wire_field.get_put [OF w(3) TrueI] wire_field.get_put [OF w(4) TrueI])+
  show "length x = n \<Longrightarrow> copy_to_slice buf n (x @ rest) = Some (x, rest)" by (rule wire_field.get_put [OF w(5)])
  show "length x = n \<Longrightarrow> advance buf n (x @ rest) = Some ((), rest)" using assms by (auto simp: buf_ok_def)
  show "length ws = 8 \<Longrightarrow> get_many (get_u32_le buf) 8 (concat (map le32_bytes ws) @ rest) = Some (ws, rest)"
    using wire_field.get_many_puts [OF w(3), of ws rest] by (simp add: list_all_iff)
qed

lemma decode_packet_info:
  assumes "wf_info i" "length tag = HASH_SIZE" "buf_ok buf"
  shows "decode_packet buf (packet_info_bytes i @ tag @ rest) = Some (dashboard_of i, rest)"
proof -
  note len = wf_info_lengths [OF assms(1)]
  have pads: "length (pad i) = 151" "length (final_pad i) = 8" using assms(1) unfolding wf_info_def by blast+
  note r = buf_reads [OF assms(3)]
  note fields = r(1-4) r(5) [OF len(1)] r(5) [OF len(2)] r(5) [OF len(3)] r(5) [OF len(4)] r(5) [OF len(5)]
    r(7) [OF len(6)] r(5) [OF len(7)] r(5) [OF len(8)] r(5) [OF len(9)] r(5) [OF len(10)] r(5) [OF len(11)]
    r(5) [OF len(12)] r(5) [OF len(13)] r(6) [OF pads(1)] r(6) [OF pads(2)] r(6) [OF assms(2)]
  show ?thesis
    unfolding decode_packet_def packet_info_bytes_def dashboard_of_def
    by (simp only: append_assoc append_Cons append_Nil fields Option.bind.bind_lunit prod.case)
qed

section \<open>The connection\<close>

datatype service_state =
    Reading "byte list" "dashboard_packet list"
  | Auth_Failed "dashboard_packet list"
  | Panicked "dashboard_packet list"

text \<open>The inner loop: records are taken from the buffer while it holds a whole one; the packets
  published so far are carried along. It ends when reading a record shortens the buffer; the model
  does not take that for granted, \<^term>\<open>None\<close> is a loop that does not end.\<close>

partial_function (option) process_buffer ::
  "(byte list \<Rightarrow> byte list \<Rightarrow> byte list) \<Rightarrow> buf_ops \<Rightarrow> byte list \<Rightarrow> dashboard_packet list \<Rightarrow> service_state option" where
  "process_buffer hmac buf b out =
     (if TOTAL_MSG_SIZE \<le> length b then
        if hmac SHARED_SECRET (take STRUCT_SIZE b) \<noteq> take HASH_SIZE (drop STRUCT_SIZE b) then Some (Auth_Failed out)
        else (case decode_packet buf b of
          None \<Rightarrow> Some (Panicked out)
        | Some (packet, rest) \<Rightarrow> process_buffer hmac buf rest (out @ [packet]))
      else Some (Reading b out))"

text \<open>The outer loop, over the pieces in which the stream arrives; an empty piece is the end of the
  stream.\<close>

fun handle_cpp_connection ::
  "(byte list \<Rightarrow> byte list \<Rightarrow> byte list) \<Rightarrow> buf_ops \<Rightarrow> byte list list \<Rightarrow> byte list \<Rightarrow> dashboard_packet list \<Rightarrow> service_state option" where
  "handle_cpp_connection hmac buf [] b out = Some (Reading b out)"
| "handle_cpp_connection hmac buf (piece # pieces) b out =
     (if piece = [] then Some (Reading b out)
      else if 2 * 1024 * 1024 < length (b @ piece) then handle_cpp_connection hmac buf pieces [] out
      else (case process_buffer hmac buf (b @ piece) out of
        Some (Reading b out) \<Rightarrow> handle_cpp_connection hmac buf pieces b out
      | s \<Rightarrow> s))"

section \<open>Streams of records\<close>

text \<open>The record of \<^verbatim>\<open>send_packet_info\<close>, signed with \<^term>\<open>key\<close>.\<close>

definition signed :: "(byte list \<Rightarrow> byte list \<Rightarrow> byte list) \<Rightarrow> byte list \<Rightarrow> packet_info \<Rightarrow> byte list" where
  "signed hmac key i = packet_info_bytes i @ hmac key (packet_info_bytes i)"

lemma length_signed: "wf_info i \<Longrightarrow> length (hmac key (packet_info_bytes i)) = 64 \<Longrightarrow> length (signed hmac key i) = 1088"
  by (simp add: signed_def length_packet_info_bytes)

lemmas sizes = STRUCT_SIZE_def HASH_SIZE_def TOTAL_MSG_SIZE_def

lemma process_record:
  assumes "wf_info i" "length (hmac SHARED_SECRET (packet_info_bytes i)) = 64" "buf_ok buf"
  shows "process_buffer hmac buf (signed hmac SHARED_SECRET i @ rest) out = process_buffer hmac buf rest (out @ [dashboard_of i])"
proof -
  have len: "length (packet_info_bytes i) = STRUCT_SIZE" using length_packet_info_bytes [OF assms(1)] by (simp add: sizes)
  have tag: "length (hmac SHARED_SECRET (packet_info_bytes i)) = HASH_SIZE" using assms(2) by (simp add: sizes)
  have "decode_packet buf (signed hmac SHARED_SECRET i @ rest) = Some (dashboard_of i, rest)"
    using decode_packet_info [OF assms(1) tag assms(3)] by (simp add: signed_def)
  then show ?thesis
    by (subst process_buffer.simps) (simp add: signed_def len tag TOTAL_MSG_SIZE_def)
qed

definition signable :: "(byte list \<Rightarrow> byte list \<Rightarrow> byte list) \<Rightarrow> packet_info \<Rightarrow> bool" where
  "signable hmac i \<longleftrightarrow> wf_info i \<and> length (hmac SHARED_SECRET (packet_info_bytes i)) = 64"

lemma process_records:
  assumes "\<forall>i \<in> set is. signable hmac i" "buf_ok buf"
  shows "process_buffer hmac buf (concat (map (signed hmac SHARED_SECRET) is) @ rest) out =
    process_buffer hmac buf rest (out @ map dashboard_of is)"
  using assms(1)
proof (induction "is" arbitrary: out)
  case (Cons i "is")
  then show ?case
    using process_record [of i hmac buf "concat (map (signed hmac SHARED_SECRET) is) @ rest" out] assms(2)
    by (simp add: signable_def)
qed simp

lemma length_records:
  assumes "\<forall>i \<in> set is. signable hmac i"
  shows "length (concat (map (signed hmac SHARED_SECRET) is)) = 1088 * length is"
  using assms by (induction "is") (simp_all add: length_signed signable_def)

text \<open>A first part of a sequence of records: whole records and less than one more.\<close>

lemma records_prefix:
  assumes "\<forall>i \<in> set is. length (f i) = N" "0 < N" "xs @ ys = concat (map f is)"
  shows "\<exists>as bs tail. is = as @ bs \<and> xs = concat (map f as) @ tail \<and> length tail < N \<and> tail @ ys = concat (map f bs)"
  using assms(1,3)
proof (induction "is" arbitrary: xs)
  case Nil
  then show ?case using assms(2) by (intro exI [of _ "[]"]) simp
next
  case (Cons i "is")
  show ?case
  proof (cases "length xs < N")
    case True
    then show ?thesis using Cons.prems by (intro exI [of _ "[]"] exI [of _ "i # is"] exI [of _ xs]) simp
  next
    case False
    have fi: "length (f i) = N" using Cons.prems(1) by simp
    have "take N xs = f i" using arg_cong [OF Cons.prems(2), of "take N"] False fi by simp
    then have xs: "xs = f i @ drop N xs" "drop N xs @ ys = concat (map f is)"
      using arg_cong [OF Cons.prems(2), of "drop N"] False fi by (auto, metis append_take_drop_id)
    then obtain as bs tail where "is = as @ bs" "drop N xs = concat (map f as) @ tail" "length tail < N"
        "tail @ ys = concat (map f bs)"
      using Cons.IH [of "drop N xs"] Cons.prems(1) by auto
    then show ?thesis using xs(1)
      by (intro exI [of _ "i # as"] exI [of _ bs] exI [of _ tail]) simp
  qed
qed

lemma handle_records:
  assumes "\<forall>i \<in> set is. signable hmac i" "b @ concat pieces = concat (map (signed hmac SHARED_SECRET) is)"
    and "length b < 1088" "\<forall>p \<in> set pieces. p \<noteq> [] \<and> length p \<le> 2000000" "buf_ok buf"
  shows "handle_cpp_connection hmac buf pieces b out = Some (Reading [] (out @ map dashboard_of is))"
  using assms(1-4)
proof (induction pieces arbitrary: b "is" out)
  case Nil
  then have "is = []" using length_signed [of "hd is" hmac SHARED_SECRET] by (cases "is") (auto simp: signable_def)
  then show ?case using Nil by simp
next
  case (Cons p pieces)
  have len: "\<forall>i \<in> set is. length (signed hmac SHARED_SECRET i) = 1088"
    using Cons.prems(1) length_signed by (auto simp: signable_def)
  obtain as bs tail where sp: "is = as @ bs" "b @ p = concat (map (signed hmac SHARED_SECRET) as) @ tail"
      "length tail < 1088" "tail @ concat pieces = concat (map (signed hmac SHARED_SECRET) bs)"
    using records_prefix [OF len, of "b @ p" "concat pieces"] Cons.prems(2) by auto
  have "process_buffer hmac buf tail out' = Some (Reading tail out')" for out'
    using sp(3) by (subst process_buffer.simps) (simp add: sizes)
  then have "process_buffer hmac buf (b @ p) out = Some (Reading tail (out @ map dashboard_of as))"
    unfolding sp(2) using process_records [of as hmac buf tail out] Cons.prems(1) sp(1) assms(5) by simp
  moreover have "\<not> 2 * 1024 * 1024 < length (b @ p)" "p \<noteq> []" using Cons.prems(3,4) by auto
  moreover have "handle_cpp_connection hmac buf pieces tail (out @ map dashboard_of as) =
      Some (Reading [] ((out @ map dashboard_of as) @ map dashboard_of bs))"
    by (rule Cons.IH [OF _ sp(4,3)]) (use Cons.prems(1,4) sp(1) in auto)
  ultimately show ?case by (simp add: sp(1))
qed

text \<open>A record with a wrong tag: the pieces up to its last byte, then the one that completes it.\<close>

lemma process_wrong_tag:
  assumes "length msg = STRUCT_SIZE" "length tag = HASH_SIZE" "hmac SHARED_SECRET msg \<noteq> tag"
  shows "process_buffer hmac buf (msg @ tag @ rest) out = Some (Auth_Failed out)"
  using assms by (subst process_buffer.simps) (simp add: TOTAL_MSG_SIZE_def)

lemma append_longer:
  assumes "xs @ ys = us @ vs" "length us \<le> length xs"
  shows "xs = us @ drop (length us) xs" "drop (length us) xs @ ys = vs"
proof -
  have "take (length us) xs = us" using arg_cong [OF assms(1), of "take (length us)"] assms(2) by simp
  then show "xs = us @ drop (length us) xs" by (metis append_take_drop_id)
  show "drop (length us) xs @ ys = vs" using arg_cong [OF assms(1), of "drop (length us)"] assms(2) by simp
qed

text \<open>A buffer in front of a wrong record: it holds that record, or whole records and less than one more.\<close>

lemma wrong_prefix:
  assumes "\<forall>i \<in> set is. length (f i) = N" "length bad = N" "0 < N" "xs @ ys = concat (map f is) @ bad @ behind"
  shows "(\<exists>rest. xs = concat (map f is) @ bad @ rest) \<or>
    (\<exists>as bs tail. is = as @ bs \<and> xs = concat (map f as) @ tail \<and> length tail < N \<and> tail @ ys = concat (map f bs) @ bad @ behind)"
proof (cases "length (concat (map f is)) \<le> length xs")
  case True
  define tail where "tail = drop (length (concat (map f is))) xs"
  have t: "xs = concat (map f is) @ tail" "tail @ ys = bad @ behind"
    using append_longer [OF assms(4) True] by (simp_all add: tail_def)
  show ?thesis
  proof (cases "length tail < N")
    case True
    then show ?thesis using t by (intro disjI2 exI [of _ "is"] exI [of _ "[]"] exI [of _ tail]) simp
  next
    case False
    then show ?thesis using append_longer(1) [OF t(2)] assms(2) t(1) by (metis linorder_not_less)
  qed
next
  case False
  then obtain us where us: "xs @ us = concat (map f is)" "ys = us @ bad @ behind"
    using append_longer [OF assms(4) [symmetric]] by (metis linorder_le_cases)
  from records_prefix [OF assms(1,3) us(1)] show ?thesis using us(2) by (metis append.assoc)
qed

lemma handle_wrong_tag:
  assumes bad: "length msg = STRUCT_SIZE" "length tag = HASH_SIZE" "hmac SHARED_SECRET msg \<noteq> tag" and buf: "buf_ok buf"
    and "\<forall>i \<in> set is. signable hmac i"
    and "b @ concat pieces = concat (map (signed hmac SHARED_SECRET) is) @ (msg @ tag) @ behind"
    and "length b < 1088" "\<forall>p \<in> set pieces. p \<noteq> [] \<and> length p \<le> 2000000"
  shows "handle_cpp_connection hmac buf pieces b out = Some (Auth_Failed (out @ map dashboard_of is))"
  using assms(5-8)
proof (induction pieces arbitrary: b "is" out)
  case Nil
  then have "1088 \<le> length b" using arg_cong [OF Nil.prems(2), of length] bad(1,2) by (simp add: sizes)
  then show ?case using Nil.prems(3) by simp
next
  case (Cons p pieces)
  have len: "\<forall>i \<in> set is. length (signed hmac SHARED_SECRET i) = 1088"
    using Cons.prems(1) length_signed by (auto simp: signable_def)
  have split: "(b @ p) @ concat pieces = concat (map (signed hmac SHARED_SECRET) is) @ (msg @ tag) @ behind"
    using Cons.prems(2) by simp
  have room: "\<not> 2 * 1024 * 1024 < length (b @ p)" "p \<noteq> []" using Cons.prems(3,4) by auto
  have "length (msg @ tag) = 1088" using bad(1,2) by (simp add: sizes)
  from wrong_prefix [OF len this _ split] consider
      (whole) rest where "b @ p = concat (map (signed hmac SHARED_SECRET) is) @ (msg @ tag) @ rest"
    | (part) as bs tail where "is = as @ bs" "b @ p = concat (map (signed hmac SHARED_SECRET) as) @ tail"
        "length tail < 1088" "tail @ concat pieces = concat (map (signed hmac SHARED_SECRET) bs) @ (msg @ tag) @ behind"
    by auto
  then show ?case
  proof cases
    case whole
    then have "process_buffer hmac buf (b @ p) out = Some (Auth_Failed (out @ map dashboard_of is))"
      using process_records [OF Cons.prems(1) buf] process_wrong_tag [of msg tag hmac, OF bad] by simp
    then show ?thesis using room by simp
  next
    case part
    have "process_buffer hmac buf tail out' = Some (Reading tail out')" for out'
      using part(3) by (subst process_buffer.simps) (simp add: sizes)
    then have "process_buffer hmac buf (b @ p) out = Some (Reading tail (out @ map dashboard_of as))"
      unfolding part(2) using process_records [of as hmac buf tail out] Cons.prems(1) part(1) buf by simp
    moreover have "handle_cpp_connection hmac buf pieces tail (out @ map dashboard_of as) =
        Some (Auth_Failed ((out @ map dashboard_of as) @ map dashboard_of bs))"
      by (rule Cons.IH [OF _ part(4,3)]) (use Cons.prems(1,4) part(1) in auto)
    ultimately show ?thesis using room by (simp add: part(1))
  qed
qed

section \<open>Texts\<close>

text \<open>ASCII bytes pass through the conversion unchanged.\<close>

lemma lossy_ascii: "\<forall>b \<in> set s. b < 0x80 \<Longrightarrow> from_utf8_lossy s = s"
proof (induction s)
  case Nil
  then show ?case by (simp add: from_utf8_lossy.simps)
next
  case (Cons a s)
  then have "utf8_first (a # s) = (True, 1)" by (simp add: utf8_first_def safe_get_def utf8_width_def)
  then show ?case using Cons by (simp add: from_utf8_lossy.simps [of "a # s"])
qed

lemma trim_nul_keeps:
  assumes "s \<noteq> []" "hd s \<noteq> 0" "last s \<noteq> 0"
  shows "trim_nul (s @ replicate n 0) = s"
proof -
  have "dropWhile (\<lambda>b. b = 0) (s @ replicate n 0) = s @ replicate n 0" using assms(1,2) by (cases s) auto
  moreover have "dropWhile (\<lambda>b. b = 0) (replicate n 0 @ rev s) = rev s"
    using assms(1,3) by (induction n) (simp_all add: hd_rev dropWhile_eq_self_iff)
  ultimately show ?thesis by (simp add: trim_nul_def)
qed

text \<open>A C string in an array that is otherwise zero is shown as it is.\<close>

lemma text_of_cstr:
  assumes "\<forall>b \<in> set s. b < 0x80" "0 \<notin> set s"
  shows "text_of (s @ replicate n 0) = s"
proof (cases "s = []")
  case True
  then show ?thesis by (simp add: text_of_def lossy_ascii trim_nul_def dropWhile_replicate)
next
  case False
  have "from_utf8_lossy (s @ replicate n 0) = s @ replicate n 0" using assms(1) by (intro lossy_ascii) auto
  then show ?thesis using trim_nul_keeps [OF False] assms(2) False
    by (metis text_of_def hd_in_set last_in_set)
qed

section \<open>Properties\<close>

text \<open>C35: a record whose HMAC was made with another key, or that was changed on the way so that the
  HMAC does not fit, ends the connection as soon as all of it has arrived, however the stream is cut
  into pieces (of at most 2000000 bytes): the records before it are published, in order, it is not,
  and neither is anything behind it.\<close>

theorem service_rejects_wrong_tag:
  assumes "length msg = STRUCT_SIZE" "length tag = HASH_SIZE" "hmac SHARED_SECRET msg \<noteq> tag"
    and "\<forall>i \<in> set infos. signable hmac i" "buf_ok buf"
    and "concat pieces = concat (map (signed hmac SHARED_SECRET) infos) @ msg @ tag @ behind"
    and "\<forall>p \<in> set pieces. p \<noteq> [] \<and> length p \<le> 2000000"
  shows "handle_cpp_connection hmac buf pieces [] [] = Some (Auth_Failed (map dashboard_of infos))"
  using handle_wrong_tag [OF assms(1-3,5) assms(4), of "[]" pieces behind "[]"] assms(6,7) by simp

text \<open>C36: the service trims NULs only at the ends of a text field, so what an earlier, longer text
  left behind the terminating NUL of the field is shown. An FTP command in a segment with a zero
  window is shown with the last letters of the text of the anomaly check.\<close>

theorem stale_text_shown:
  assumes "extra_info i = replicate 128 0" "t_window t = 0" "t_flags t = 0x10" "p = lit ''USER '' @ rest" "4 < l"
  shows "\<exists>i1 out. check_tcp_anomalies i t = Some i1 \<and> dissect_app_common p l (extra_info i1) 128 = Some out \<and>
    cstr out = Some (lit ''FTP Control'') \<and> text_of out = lit ''FTP Control'' @ [0] @ lit ''ow''"
proof -
  define o1 where "o1 = lit ''TCP ZeroWindow'' @ replicate 114 (0 :: byte)"
  have "replicate 128 (0 :: byte) = replicate 15 0 @ replicate 113 0" by (simp flip: replicate_add)
  then have "drop 15 (replicate 128 (0 :: byte)) = replicate 113 0" by simp
  then have "snprintf (replicate 128 0) 128 (lit ''TCP ZeroWindow'') = Some o1"
    by (simp add: snprintf_eq o1_def numeral_eq_Suc)
  then have 1: "check_tcp_anomalies i t = Some (i\<lparr>extra_info := o1\<rparr>)"
    using assms(1-3) by (simp add: check_tcp_anomalies_def)
  define out where "out = (lit ''FTP Control'' @ [0] @ lit ''ow'') @ replicate 114 (0 :: byte)"
  have "snprintf o1 128 (lit ''FTP Control'') = Some out"
    by (simp add: snprintf_eq o1_def out_def lit_def)
  then have 2: "dissect_app_common p l o1 128 = Some out"
    using assms(5) unfolding assms(4)
    by (simp add: dissect_app_common_def memcmp_eq_def rd_bytes_def lit_def)
  have "text_of out = lit ''FTP Control'' @ [0] @ lit ''ow''"
    unfolding text_of_def out_def by (subst lossy_ascii) (simp add: lit_def, subst trim_nul_keeps, simp_all add: lit_def)
  moreover have "cstr out = Some (lit ''FTP Control'')" by (simp add: out_def cstr_def lit_def)
  ultimately show ?thesis using 1 2 by auto
qed

section \<open>Witnesses\<close>

theorem service_rejects_wrong_tag_witness:
  "handle_cpp_connection (\<lambda>k m. replicate 64 1) bytes_buf
     [signed (\<lambda>k m. replicate 64 1) SHARED_SECRET zero_info @ take 100 (packet_info_bytes zero_info),
      drop 100 (packet_info_bytes zero_info) @ replicate 64 2, [9]] [] [] = Some (Auth_Failed (map dashboard_of [zero_info]))"
proof (rule service_rejects_wrong_tag [where behind = "[9]", OF _ _ _ _ bytes_buf_ok])
  have "hd (replicate 64 (1 :: byte)) = 1" "hd (replicate 64 (2 :: byte)) = 2" by simp_all
  then show "replicate 64 (1 :: byte) \<noteq> replicate 64 2" by force
  have "take 100 m @ drop 100 m @ x = m @ x" for m x :: "byte list" by (metis append.assoc append_take_drop_id)
  then show "concat [signed (\<lambda>k m. replicate 64 1) SHARED_SECRET zero_info @ take 100 (packet_info_bytes zero_info),
      drop 100 (packet_info_bytes zero_info) @ replicate 64 2, [9]] =
      concat (map (signed (\<lambda>k m. replicate 64 1) SHARED_SECRET) [zero_info]) @ packet_info_bytes zero_info @ replicate 64 2 @ [9]"
    by simp
qed (use length_packet_info_bytes [OF wf_zero_info] wf_zero_info in \<open>auto simp: sizes signed_def signable_def\<close>)

theorem stale_text_shown_witness:
  "\<exists>i1 out. check_tcp_anomalies zero_info (zero_transport\<lparr>t_flags := 0x10\<rparr>) = Some i1 \<and>
     dissect_app_common (lit ''USER '' @ lit ''bob'') 8 (extra_info i1) 128 = Some out \<and>
     cstr out = Some (lit ''FTP Control'') \<and> text_of out = lit ''FTP Control'' @ [0] @ lit ''ow''"
  by (rule stale_text_shown [OF _ _ _ refl]) (simp_all add: zero_info_def zero_transport_def)

end
