(* ===== verification/Spec2Isabelle.thy ===== *)
theory Spec2Isabelle
  imports Dissect_Frames Pipeline_Shutdown Main_Setup Rust_Service
begin

text \<open>
  A verification of the capture engine of pacsni (\<^verbatim>\<open>src/cpp\<close>, the Linux build) and of the part of the
  Rust service that receives its records (\<^verbatim>\<open>src/rust/packet_service\<close>).

  \<^bold>\<open>The program.\<close> The capture engine reads frames with libpcap, dissects them and sends one signed
  record per frame over TLS. Its threads are the capture thread (\<^verbatim>\<open>main\<close> in \<^verbatim>\<open>pcap_loop\<close>, which calls
  \<^verbatim>\<open>packet_handler\<close>), four workers (\<^verbatim>\<open>worker_thread_main\<close>: \<^verbatim>\<open>dissect_raw_packet\<close>), one sender
  (\<^verbatim>\<open>sender_thread_main\<close>: \<^verbatim>\<open>send_packet_info\<close>) and a statistics thread. Two lock-free queues of 8192
  nodes connect them: capture thread \<open>\<rightarrow>\<close> \<^verbatim>\<open>raw_queue\<close> \<open>\<rightarrow>\<close> workers \<open>\<rightarrow>\<close> \<^verbatim>\<open>dissected_queue\<close> \<open>\<rightarrow>\<close> sender \<open>\<rightarrow>\<close> TLS
  \<open>\<rightarrow>\<close> \<^verbatim>\<open>handle_cpp_connection\<close> of the service. \<^verbatim>\<open>keep_running\<close>, cleared by \<^verbatim>\<open>signal_handler\<close>, ends them all.

  \<^bold>\<open>The model.\<close> C++ integers are words of their width, structs are records, arrays are byte lists whose
  length a well-formedness predicate fixes. Every access to an array is checked: the result
  \<^term>\<open>None\<close> of a dissector is an access outside the array, so a theorem with \<^term>\<open>Some\<close> shows that there
  is none. What is not in the repository is a parameter: the floating-point operations, HMAC, \<^verbatim>\<open>SSL_write\<close>
  and \<^verbatim>\<open>SSL_get_error\<close>, the return values of the operating system, of libpcap and of OpenSSL in \<^verbatim>\<open>main\<close>,
  the \<^verbatim>\<open>Buf\<close> methods of the service.

  The theories and the source they model:
  \<^item> \<^verbatim>\<open>Pacsni_Prelude\<close>: words, checked memory accesses, C strings, \<^verbatim>\<open>snprintf\<close>; the collections
    \<^verbatim>\<open>mem_simps\<close> and \<^verbatim>\<open>len_simps\<close>.
  \<^item> \<^verbatim>\<open>Packet_Types\<close>: the structs of \<^verbatim>\<open>packet_types.h\<close> and \<^verbatim>\<open>protocol_dissectors.h\<close>, the 1024-byte image
    of \<^verbatim>\<open>PacketInfo\<close>.
  \<^item> \<^verbatim>\<open>Header_Parsers\<close>: \<^verbatim>\<open>parse_ethernet_layer\<close>, \<^verbatim>\<open>parse_ip_layer\<close>, \<^verbatim>\<open>parse_transport_layer\<close>
    (\<^verbatim>\<open>protocol_dissectors.cpp\<close>): no read outside the capture, and the fields of frames built from headers.
  \<^item> \<^verbatim>\<open>Tcp_Options\<close>: the two option walkers and \<^verbatim>\<open>check_tcp_anomalies\<close>: they agree, and compute the effect
    of any encoded list of options.
  \<^item> \<^verbatim>\<open>Dissector_Contract\<close>: the contracts that the dissectors keep, as the locales \<^verbatim>\<open>text_dissector\<close>,
    \<^verbatim>\<open>info_dissector\<close> and \<^verbatim>\<open>total_info_dissector\<close>; \<^verbatim>\<open>Text_Dissectors\<close>, \<^verbatim>\<open>Info_Dissectors\<close>: the dissectors of
    DNS, TLS, HTTP, DHCP, ICMP, ICMPv6, ND, OSPF, STP, GRE, NTP, LLDP, IGMP, VXLAN, each an interpretation
    of a contract, with what they write.
  \<^item> \<^verbatim>\<open>Byte_Stats\<close>: \<^verbatim>\<open>calculate_byte_stats\<close>, \<^verbatim>\<open>calculate_entropy_scaled\<close> and the Shannon entropy.
  \<^item> \<^verbatim>\<open>Dissect_Raw\<close>, \<^verbatim>\<open>Dissect_Frames\<close>: \<^verbatim>\<open>dissect_raw_packet\<close> (\<^verbatim>\<open>packet_capture.cpp\<close>) block by block: every
    struct it returns can be sent, whole TCP packets, IPv6 extension headers, and the inputs on which it
    leaves the buffer.
  \<^item> \<^verbatim>\<open>Lock_Free_Queue\<close>: \<^verbatim>\<open>LockFreeQueue\<close> (\<^verbatim>\<open>packet_types.h\<close>), one access to the shared memory per step, with
    spurious failures of the weak compare-and-exchange; \<^verbatim>\<open>Ring_Spec\<close>: the same ring with unbounded counters
    and its invariant; \<^verbatim>\<open>Fifo_Spec\<close>: the atomic bounded FIFO queue, with the arguments and results of the
    calls, which the ring refines; \<^verbatim>\<open>Queue_Refinement\<close>: the 64-bit queue refines the ring, so it is a
    linearizable FIFO without data races; \<^verbatim>\<open>Queue_Calls\<close>: whole calls, the contract \<^verbatim>\<open>bounded_fifo\<close> they
    keep, and that a pop which is left alone returns.
  \<^item> \<^verbatim>\<open>Sender\<close>: \<^verbatim>\<open>send_packet_info\<close>: what is on the connection when it returns, and that it returns.
  \<^item> \<^verbatim>\<open>Pipeline\<close>: \<^verbatim>\<open>packet_handler\<close>, the threads and \<^verbatim>\<open>signal_handler\<close> as steps over \<^verbatim>\<open>CaptureContext\<close>, interleaved
    access by access; \<^verbatim>\<open>Pipeline_Safety\<close>: the invariant that traces every result to a captured packet of
    its own; \<^verbatim>\<open>Pipeline_Shutdown\<close>: the end of a run (a sender that outlives the workers sends
    everything, one that does not can lose results or leave a worker spinning) and the theorems about
    whole runs.
  \<^item> \<^verbatim>\<open>Main_Setup\<close>: \<^verbatim>\<open>main\<close> up to the start of the threads, and \<^verbatim>\<open>monitor_pcap_stats\<close>.
  \<^item> \<^verbatim>\<open>Rust_Service\<close>: \<^verbatim>\<open>handle_cpp_connection\<close> (\<^verbatim>\<open>handlers.rs\<close>) and the formatting functions of \<^verbatim>\<open>model.rs\<close>;
    \<^verbatim>\<open>wire_field\<close> is the contract of a field on the wire.
  \<^item> This theory: the capture engine and the service together.

  \<^bold>\<open>Bounds and fuel.\<close> The queue theorems are for capacities of \<^verbatim>\<open>2^k\<close> nodes with \<^verbatim>\<open>1 \<le> k \<le> 61\<close> (13 in the
  source; with one node the algorithm confuses a full and an empty queue) and fewer than \<^verbatim>\<open>2^62\<close> pushes,
  which keeps the signed difference of positions exact; a million packets per second need more than a
  hundred thousand years for that. A call of \<^verbatim>\<open>push\<close> or \<^verbatim>\<open>pop\<close> that runs alone takes at most five accesses,
  the fuel of \<^verbatim>\<open>lfq_push\<close> and \<^verbatim>\<open>lfq_pop\<close>. The write loop of \<^verbatim>\<open>send_packet_info\<close> and the record loop of the
  service have no fuel: they are partial functions, and the theorems show that they return.

  \<^bold>\<open>Abstractions.\<close> The accesses to the queue are taken in one total order; the acquire and release orders
  of the source are what makes the data of a node visible before its sequence number. A whole
  \<^verbatim>\<open>send_packet_info\<close> is one step of the sender, since no other thread uses the connection. Uninitialised
  objects (\<^verbatim>\<open>RawPacket raw\<close>, \<^verbatim>\<open>PacketInfo info\<close>) have arbitrary contents, chosen in every step. \<^verbatim>\<open>pcap_loop\<close>
  may hand over a frame or return at any time. Time is not modelled: sleeping and yielding do nothing.

  \<^bold>\<open>Not modelled.\<close> The branches for Windows; the deleters of the smart pointers and
  \<^verbatim>\<open>log_ssl_error\<close>, which forward to library calls; messages on the console; socket options; the listeners,
  the relay to the dashboards and the metrics task of the service; the Go dashboard, the web interface
  and the build files, which present or transport what the modelled parts produce.
\<close>

section \<open>A connection between the capture engine and the service\<close>

definition service_env :: "(real, script) capture_env" where
  "service_env = \<lparr>env_fp = real_fp, env_hmac = (\<lambda>k m. replicate 64 7), env_secret = Some SHARED_SECRET,
     env_ssl = script_ops Want_Write\<rparr>"

lemma service_ssl:
  "ssl_writes (env_ssl service_env) snd" "ssl_healthy (env_ssl service_env) (\<lambda>_. True) (\<lambda>s. length (fst s))"
  "length (env_hmac service_env key msg) = 64" "env_secret service_env = Some SHARED_SECRET"
  by (simp_all add: service_env_def script_writes script_healthy)

lemma service_packet_state:
  "ctx_ssl (pipe_run service_env sched_packet sample_start) = ([], []) \<and>
   sender (pipe_run service_env sched_packet sample_start) = S_Send zero_info \<and>
   hist (dissected_queue (pipe_run service_env sched_packet sample_start)) = [zero_info]"
  by (simp add: sched_packet_def numeral_eq_Suc run_simps)

text \<open>One more step of the sender: the record is on the connection.\<close>

lemma service_sent:
  "snd (ctx_ssl (pipe_run service_env (sched_packet @ [Sender True]) sample_start)) = wire_record service_env zero_info"
  "hist (dissected_queue (pipe_run service_env (sched_packet @ [Sender True]) sample_start)) = [zero_info]"
proof -
  define s where "s = pipe_run service_env sched_packet sample_start"
  have s: "ctx_ssl s = ([], [])" "sender s = S_Send zero_info" "hist (dissected_queue s) = [zero_info]"
    using service_packet_state by (simp_all add: s_def)
  obtain ssl' where ssl': "sender_send service_env zero_info s = Some ssl'"
      "snd ssl' = snd (ctx_ssl s) @ wire_record service_env zero_info"
    using sender_send_returns [OF wf_zero_info service_ssl(1,2) TrueI service_ssl(3)] by blast
  have "pipe_run service_env (sched_packet @ [Sender True]) sample_start = s\<lparr>ctx_ssl := ssl', sender := S_Loop\<rparr>"
    using s(2) ssl'(1) by (simp add: s_def [symmetric] sender_step_def)
  then show "snd (ctx_ssl (pipe_run service_env (sched_packet @ [Sender True]) sample_start)) = wire_record service_env zero_info"
    "hist (dissected_queue (pipe_run service_env (sched_packet @ [Sender True]) sample_start)) = [zero_info]"
    using s(1,3) ssl'(2) by simp_all
qed

section \<open>The whole system\<close>

text \<open>C1: the whole system. When the capture engine, on a connection that does not fail and with the
  shared secret of the service, has sent \<^term>\<open>m\<close> records (so many bytes as \<^term>\<open>m\<close> records have), they are those
  of the first \<^term>\<open>m\<close> results of the dissected queue, and whatever pieces they arrive in (of at most 2000000
  bytes), the service publishes exactly the packets of these \<^term>\<open>m\<close> results, in the order of the queue
  and without an error; result number \<^term>\<open>n\<close> is the dissection of packet number \<^term>\<open>src ! n\<close> of the raw
  queue, and no two results are of the same packet.\<close>

theorem service_receives_captured:
  assumes "pipe_reachable env (2 ^ k) r i ssl s" "1 \<le> k" "k \<le> 61" "length (hist (raw_queue s)) < 2 ^ 62"
    and "ssl_writes (env_ssl env) stream" "ssl_healthy (env_ssl env) healthy patience" "healthy ssl" "stream ssl = []"
    and "\<And>msg. length (env_hmac env SHARED_SECRET msg) = 64" "env_secret env = Some SHARED_SECRET"
    and "buf_ok buf" "concat pieces = stream (ctx_ssl s)" "\<forall>p \<in> set pieces. p \<noteq> [] \<and> length p \<le> 2000000"
  shows "\<exists>m src. m \<le> length (hist (dissected_queue s)) \<and> length (stream (ctx_ssl s)) = 1088 * m \<and>
    stream (ctx_ssl s) = concat (map (wire_record env) (take m (hist (dissected_queue s)))) \<and>
    handle_cpp_connection (env_hmac env) buf pieces [] [] =
      Some (Reading [] (map dashboard_of (take m (hist (dissected_queue s))))) \<and>
    length src = m \<and> distinct src \<and>
    (\<forall>n < m. src ! n < length (hist (raw_queue s)) \<and>
       dissects env (hist (raw_queue s) ! (src ! n)) (hist (dissected_queue s) ! n))"
proof -
  have key: "hmac_key (env_secret env) = SHARED_SECRET" using assms(10) by (simp add: hmac_key_def)
  obtain src wp m where inv: "pipe_inv env (2 ^ k) r i src wp m s" and w: "on_wire env stream ssl m s"
      "m \<le> length (hist (dissected_queue s))"
    using pipe_reachable_stream [OF assms(1-7)] assms(9) key by metis
  then have tr: "traced env src wp s" and q: "reachable (2 ^ k) r (raw_queue s)" by (simp_all add: pipe_inv_def)
  define infos where "infos = take m (hist (dissected_queue s))"
  have st: "stream (ctx_ssl s) = concat (map (wire_record env) infos)" using assms(8) w(1) by (simp add: on_wire_def infos_def)
  have rec: "wire_record env = signed (env_hmac env) SHARED_SECRET" by (auto simp: wire_record_def signed_def key)
  have wf: "\<forall>i \<in> set infos. signable (env_hmac env) i"
    using pipe_inv_wf(2) [OF inv assms(2-4)] assms(9) by (auto simp: infos_def signable_def dest: in_set_takeD)
  have run: "handle_cpp_connection (env_hmac env) buf pieces [] [] = Some (Reading [] (map dashboard_of infos))"
    using handle_records [OF wf _ _ assms(13,11), of "[]"] assms(12) st rec by simp
  have "length (concat (map (wire_record env) infos)) = 1088 * length infos"
    unfolding rec by (rule length_records [OF wf])
  then have len: "length (stream (ctx_ssl s)) = 1088 * m" using w(2) by (simp add: st infos_def)
  have b: "taken (raw_queue s) \<le> length (hist (raw_queue s))" by (rule reachable_taken [OF q assms(2-4)])
  have "take m src ! n < length (hist (raw_queue s)) \<and>
      dissects env (hist (raw_queue s) ! (take m src ! n)) (hist (dissected_queue s) ! n)" if "n < m" for n
  proof -
    have n: "n < length src" using that w(2) tr by (simp add: traced_def)
    then show ?thesis using tr b nth_mem [OF n] that unfolding traced_def by (auto intro: order_less_le_trans)
  qed
  moreover have "length (take m src) = m" "distinct (take m src)" using tr w(2) by (simp_all add: traced_def)
  ultimately show ?thesis using w(2) len st run unfolding infos_def by blast
qed

theorem service_receives_captured_witness:
  "handle_cpp_connection (env_hmac service_env) bytes_buf
     [take 1000 (wire_record service_env zero_info), drop 1000 (wire_record service_env zero_info)] [] [] =
   Some (Reading [] [dashboard_of zero_info])"
proof -
  define s where "s = pipe_run service_env (sched_packet @ [Sender True]) sample_start"
  let ?w = "wire_record service_env zero_info"
  have adm: "list_all admissible (sched_packet @ [Sender True])" using sched_admissible(1) by simp
  have reach: "pipe_reachable service_env (2 ^ 1) empty_raw zero_info ([], []) s"
    unfolding s_def sample_start_def by (rule pipe_run_reachable [OF pipe_reachable.start adm])
  have "hist (raw_queue sample_start) = []" by (simp add: sample_start_def pipe_init_def lfq_init_def)
  then have small: "length (hist (raw_queue s)) < 2 ^ 62"
    unfolding s_def by (intro le_less_trans [OF pipe_run_hist_le]) (simp add: sched_packet_def)
  have len: "length ?w = 1088"
    using length_packet_info_bytes [OF wf_zero_info] service_ssl(3) by (simp add: wire_record_def)
  have sent: "snd (ctx_ssl s) = ?w" "hist (dissected_queue s) = [zero_info]" unfolding s_def by (rule service_sent)+
  have st: "concat [take 1000 ?w, drop 1000 ?w] = snd (ctx_ssl s)" by (simp add: sent(1))
  have ps: "\<forall>p \<in> set [take 1000 ?w, drop 1000 ?w]. p \<noteq> [] \<and> length p \<le> 2000000"
    using len by (auto dest: arg_cong [of _ _ length])
  have k: "(1 :: nat) \<le> 61" and e: "snd ([] :: int list, [] :: byte list) = []" by simp_all
  obtain m where m: "length (snd (ctx_ssl s)) = 1088 * m" and run:
      "handle_cpp_connection (env_hmac service_env) bytes_buf [take 1000 ?w, drop 1000 ?w] [] [] =
       Some (Reading [] (map dashboard_of (take m (hist (dissected_queue s)))))"
    using service_receives_captured [OF reach order_refl k small service_ssl(1,2) TrueI e service_ssl(3,4) bytes_buf_ok st ps]
    by blast
  have "m = 1" using m len by (simp add: sent(1))
  then show ?thesis using run by (simp add: sent(2))
qed

end
